(* ===== verification/Bx_Prelude.thy ===== *)
theory Bx_Prelude
  imports Main "HOL-Library.Word"
begin

unbundle bit_operations_syntax

text \<open>
  Shared foundations of the development: the machine words of the sources, the fault
  type that stands for failed assertions and undefined behaviour, the byte-addressed
  memory in which persistent pointers and free-list links live, and the generic word and
  list lemmas the components use.

  \<^item> \<open>u8\<close>, \<open>u16\<close>, \<open>u32\<close>, \<open>u64\<close> are the fixed-width integers of the C and C++ code; an
    address (\<open>char*\<close>, \<open>void*\<close>) is a \<open>u64\<close> and \<open>nullptr\<close> is \<open>0\<close>.
  \<^item> \<open>fault + 'a\<close> is the result of an operation that can stop: \<open>Inl\<close> carries the
    reason, \<open>Inr\<close> the value.  \<open>bindE\<close> sequences such operations.
  \<^item> \<open>load64\<close> and \<open>store64\<close> are the little-endian 8-byte accesses of x86-64.
\<close>

type_synonym u8 = "8 word"
type_synonym u16 = "16 word"
type_synonym u32 = "32 word"
type_synonym u64 = "64 word"

text \<open>Collections that the component proofs hand to the simplifier.\<close>

named_theorems mem_simps \<open>reads after writes\<close>
named_theorems align_simps \<open>alignment arithmetic\<close>

section \<open>Results\<close>

datatype fault =
    AssertFailed string   \<comment> \<open>a failed \<open>assert\<close> or an explicit \<open>exit\<close>\<close>
  | NullDeref             \<comment> \<open>a null or end-of-container dereference\<close>
  | OutOfBounds           \<comment> \<open>an array access outside its array\<close>
  | NoProgress            \<comment> \<open>a loop of the source that cannot end from here\<close>
  | Uninitialised         \<comment> \<open>a read of a variable that was never assigned\<close>
  | EmptyFunction         \<comment> \<open>a call of an empty \<open>std::function\<close>\<close>
  | SignedOverflow        \<comment> \<open>a signed result outside \<open>int\<close>\<close>
  | BadConversion         \<comment> \<open>a floating-point value outside \<open>int\<close>\<close>

type_synonym 'a result = "fault + 'a"

fun bindE :: "'a result \<Rightarrow> ('a \<Rightarrow> 'b result) \<Rightarrow> 'b result" where
  "bindE (Inl e) f = Inl e"
| "bindE (Inr a) f = f a"

definition assertE :: "string \<Rightarrow> bool \<Rightarrow> unit result" where
  "assertE msg b = (if b then Inr () else Inl (AssertFailed msg))"

lemma assertE_Inr [simp]: "assertE msg b = Inr u \<longleftrightarrow> b"
  by (simp add: assertE_def)

lemma assertE_True [simp]: "assertE msg True = Inr ()"
  by (simp add: assertE_def)

lemma bindE_cong [fundef_cong]: "m = m' \<Longrightarrow> (\<And>a. m' = Inr a \<Longrightarrow> f a = f' a) \<Longrightarrow> bindE m f = bindE m' f'"
  by (cases m') auto

lemma bindE_Inr [simp]: "bindE m f = Inr b \<longleftrightarrow> (\<exists>a. m = Inr a \<and> f a = Inr b)"
  by (cases m) auto

section \<open>Words\<close>

lemma unat_add_lt: "unat a + unat b < 2 ^ LENGTH('a) \<Longrightarrow> unat (a + b :: 'a::len word) = unat a + unat b"
  by (rule unat_add_lem [THEN iffD1])

lemma unat_sub_le: "b \<le> a \<Longrightarrow> unat (a - b :: 'a::len word) = unat a - unat b"
  by (rule unat_sub)

lemma unat_uminus: "x \<noteq> 0 \<Longrightarrow> unat (- x :: u64) = 2 ^ 64 - unat x"
  using unat_sub_if_size [of 0 x] by (auto simp: word_size unat_0_iff)

lemma unat_lt_2p: "unat (x :: 'a::len word) < 2 ^ LENGTH('a)"
  by (rule unsigned_less)

lemma unat_eq_of_nat: "unat (x :: 'a::len word) = n \<Longrightarrow> x = of_nat n"
  by auto

lemma unat_ucast_lt:
  "unat (x :: 'a::len word) < 2 ^ LENGTH('b) \<Longrightarrow> unat (ucast x :: 'b::len word) = unat x"
  by (simp add: unsigned_ucast_eq take_bit_nat_eq_self)

lemma ucast_up_down [simp]: "(ucast (ucast (x :: u32) :: u64) :: u32) = x"
  by (rule bit_word_eqI) (simp add: bit_simps)

text \<open>
  The rounding idiom \<open>x & ~(2^k - 1)\<close> clears the low \<open>k\<close> bits, which on the natural number
  read from the word is the largest multiple of \<open>2^k\<close> below it.
\<close>

lemma and_not_mask_eq: "(x :: 'a::len word) AND NOT (mask k) = push_bit k (drop_bit k x)"
  by (rule bit_word_eqI) (auto simp: bit_simps)

lemma unat_take_bit: "unat (take_bit k (x :: 'a::len word)) = unat x mod 2 ^ k"
  by (subst unsigned_take_bit_eq) (simp add: take_bit_eq_mod)

lemma unat_plus_of_nat:
  assumes "unat (a :: u64) + n < 2 ^ 64"
  shows "unat (a + of_nat n) = unat a + n"
proof -
  have "unat (of_nat n :: u64) = n"
    using assms by (simp add: unsigned_of_nat take_bit_nat_eq_self)
  then show ?thesis using assms by (simp add: unat_add_lt)
qed

lemma unat_and_not_mask: "unat ((x :: 'a::len word) AND NOT (mask k)) = unat x div 2 ^ k * 2 ^ k"
proof -
  have "x AND NOT (mask k) = x - take_bit k x"
    using bits_ident [of k x] by (simp add: and_not_mask_eq eq_diff_eq)
  then have "unat (x AND NOT (mask k)) = unat x - unat (take_bit k x)"
    by (simp add: unat_sub_le word_le_nat_alt unat_take_bit)
  then show ?thesis
    by (simp add: unat_take_bit minus_mod_eq_div_mult)
qed

lemma unat_and_mask: "unat ((x :: 'a::len word) AND mask k) = unat x mod 2 ^ k"
  by (simp flip: take_bit_eq_mask add: unat_take_bit)

lemma unat_drop_bit: "unat (drop_bit k (x :: 'a::len word)) = unat x div 2 ^ k"
  by (subst unsigned_drop_bit_eq) (simp add: drop_bit_eq_div take_bit_nat_eq_self)

lemma unat_push_bit:
  assumes "unat x * 2 ^ k < 2 ^ LENGTH('a)"
  shows "unat (push_bit k (x :: 'a::len word)) = unat x * 2 ^ k"
proof -
  have "unat (push_bit k x) = take_bit LENGTH('a) (unat x * 2 ^ k)"
    by (subst unsigned_push_bit_eq) (simp add: push_bit_eq_mult)
  also have "\<dots> = unat x * 2 ^ k"
    using assms by (simp add: take_bit_nat_eq_self)
  finally show ?thesis .
qed

lemma unat_2_exp: "k < LENGTH('a) \<Longrightarrow> unat (2 ^ k :: 'a::len word) = 2 ^ k"
  using unat_push_bit [of "1 :: 'a word" k] by (simp add: push_bit_eq_mult)

lemma or_disjoint_add: "(a :: 'a::len word) AND b = 0 \<Longrightarrow> a OR b = a + b"
  by (simp add: disjunctive_add_eq_or)

section \<open>Memory\<close>

text \<open>
  A byte memory, with the 8-byte little-endian accesses that the sources perform through
  \<open>pptr<char>*\<close>.  An access at \<open>a\<close> covers the bytes \<open>a\<close> to \<open>a + 7\<close>, modulo the address space.
\<close>

type_synonym memory = "u64 \<Rightarrow> u8"

definition load64 :: "memory \<Rightarrow> u64 \<Rightarrow> u64" where
  "load64 m a = foldr (\<lambda>i acc. push_bit (8 * i) (ucast (m (a + of_nat i))) OR acc) [0..<8] 0"

definition store64 :: "memory \<Rightarrow> u64 \<Rightarrow> u64 \<Rightarrow> memory" where
  "store64 m a v = (\<lambda>x. if x - a < 8 then ucast (drop_bit (8 * unat (x - a)) v) else m x)"

lemma bit_foldr_or:
  "bit (foldr (\<lambda>i acc. f i OR acc) is (0 :: u64)) n \<longleftrightarrow> (\<exists>i\<in>set is. bit (f i) n)"
  by (induction "is") (auto simp: bit_simps)

lemma bit_load64:
  "bit (load64 m a) n \<longleftrightarrow> n < 64 \<and> bit (m (a + of_nat (n div 8))) (n mod 8)"
proof -
  have one: "bit (push_bit (8 * i) (ucast (m (a + of_nat i))) :: u64) n \<longleftrightarrow>
      n < 64 \<and> i = n div 8 \<and> bit (m (a + of_nat i)) (n mod 8)" for i
  proof (cases "i = n div 8")
    case True
    then have "n - 8 * i = n mod 8" "8 * i \<le> n" by presburger+
    with True show ?thesis by (simp add: bit_push_bit_iff bit_ucast_iff) auto
  next
    case False
    have "\<not> bit (m (a + of_nat i)) (n - 8 * i)" if "8 * i \<le> n"
    proof -
      have "8 \<le> n - 8 * i" using False that by presburger
      then show ?thesis using bit_imp_le_length [of "m (a + of_nat i)" "n - 8 * i"] by auto
    qed
    with False show ?thesis by (auto simp: bit_push_bit_iff bit_ucast_iff)
  qed
  show ?thesis
    unfolding load64_def bit_foldr_or one set_upt by auto
qed

lemma load64_store64_same [simp, mem_simps]: "load64 (store64 m a v) a = v"
proof (rule bit_word_eqI)
  fix n assume n: "n < LENGTH(64)"
  then have "n div 8 < 8" by simp
  then have "(of_nat (n div 8) :: u64) < 8" and u: "unat (of_nat (n div 8) :: u64) = n div 8"
    by (simp_all add: word_less_nat_alt unsigned_of_nat take_bit_nat_eq_self)
  moreover have "n mod 8 < 8" by simp
  moreover have "8 * (n div 8) + n mod 8 = n" by simp
  ultimately show "bit (load64 (store64 m a v) a) n = bit v n"
    using n by (simp add: bit_load64 store64_def bit_ucast_iff bit_drop_bit_eq u)
qed

lemma load64_store64_other:
  assumes "8 \<le> b - a" and "8 \<le> a - b"
  shows "load64 (store64 m a v) b = load64 m b"
proof (rule bit_word_eqI)
  fix n assume n: "n < LENGTH(64)"
  define d where "d = (of_nat (n div 8) :: u64)"
  have d: "unat d < 8" using n by (simp add: d_def unsigned_of_nat take_bit_nat_eq_self)
  define x where "x = b - a"
  have x: "8 \<le> unat x" "8 \<le> unat (- x)"
    using assms by (simp_all add: x_def word_le_nat_alt)
  then have "unat x + unat d < 2 ^ 64"
    using d unat_uminus [of x] by (cases "x = 0") auto
  then have "unat (x + d) = unat x + unat d" by (simp add: unat_add_lt)
  moreover have e: "b + d - a = x + d" by (simp add: x_def)
  ultimately have "\<not> b + d - a < 8"
    using x(1) unfolding e by (simp add: word_less_nat_alt)
  then show "bit (load64 (store64 m a v) b) n = bit (load64 m b) n"
    by (simp add: bit_load64 store64_def d_def)
qed

text \<open>Two 8-byte aligned addresses are equal or do not overlap.\<close>

definition aligned8 :: "u64 \<Rightarrow> bool" where
  "aligned8 a \<longleftrightarrow> unat a mod 8 = 0"

lemma aligned8_diff:
  assumes "aligned8 a" "aligned8 b" "a \<noteq> b"
  shows "8 \<le> b - a"
proof (cases "a \<le> b")
  case True
  then have "unat (b - a) = unat b - unat a" "unat a < unat b"
    using assms(3) by (auto simp: unat_sub_le word_less_nat_alt le_less)
  with assms show ?thesis
    unfolding aligned8_def word_le_nat_alt by simp presburger
next
  case False
  then have lt: "unat b < unat a" by (simp add: not_le word_less_nat_alt)
  have "b - a = - (a - b)" by simp
  moreover have "unat (a - b) = unat a - unat b"
    using lt by (simp add: unat_sub_le word_le_nat_alt)
  moreover have "a - b \<noteq> 0" using assms(3) by simp
  ultimately have "unat (b - a) = 2 ^ 64 - (unat a - unat b)"
    using unat_uminus [of "a - b"] by simp
  moreover have "unat a < 2 ^ 64" using unsigned_less [of a] by simp
  ultimately show ?thesis
    using assms lt unfolding aligned8_def word_le_nat_alt by simp presburger
qed

lemma load64_store64_aligned [mem_simps]:
  assumes "aligned8 a" "aligned8 b"
  shows "load64 (store64 m a v) b = (if a = b then v else load64 m b)"
  using assms aligned8_diff [of a b] aligned8_diff [of b a]
  by (auto intro: load64_store64_other)

end
