(* ===== verification/Bx_Pptr.thy ===== *)
theory Bx_Pptr
  imports Bx_Prelude
begin

unbundle bit_operations_syntax

text \<open>
  Position-independent pointers (\<open>src/src/pptr.hpp\<close>, constants from
  \<open>src/src/pm_config.hpp\<close>).  A \<open>pptr\<close> stored at address \<open>p\<close> holds the distance to its
  target shifted left by 16, tagged with a 15-bit pattern and a sign bit.  The encoding is
  \<open>to_pptr_off\<close>, the decoding \<open>from_pptr_off\<close>; \<open>pptr_get\<close> and \<open>pptr_set\<close> are the cast and
  the assignment through memory, and the \<open>atomic_pptr\<close> operations act on the content of
  one cell.  The main results are the round trip for canonical (48-bit) addresses, the
  independence of the mapping address, and the correctness of compare-and-exchange.
\<close>

section \<open>Encoding\<close>

definition PPTR_PATTERN_POS :: u64 where "PPTR_PATTERN_POS = 0x52b0"
definition PPTR_PATTERN_NEG :: u64 where "PPTR_PATTERN_NEG = 0x52b1"
definition PPTR_PATTERN_SHIFT :: nat where "PPTR_PATTERN_SHIFT = 16"
definition PPTR_PATTERN_MASK :: u64 where "PPTR_PATTERN_MASK = push_bit PPTR_PATTERN_SHIFT 1 - 2"

lemmas pptr_consts = PPTR_PATTERN_POS_def PPTR_PATTERN_NEG_def PPTR_PATTERN_SHIFT_def

lemma PPTR_PATTERN_MASK_eq: "PPTR_PATTERN_MASK = 0xFFFE"
  by (simp add: PPTR_PATTERN_MASK_def PPTR_PATTERN_SHIFT_def push_bit_eq_mult)

definition is_null_pptr :: "u64 \<Rightarrow> bool" where
  "is_null_pptr off \<longleftrightarrow> off = PPTR_PATTERN_POS"

definition is_valid_pptr :: "u64 \<Rightarrow> bool" where
  "is_valid_pptr off \<longleftrightarrow> off AND PPTR_PATTERN_MASK = PPTR_PATTERN_POS"

definition to_pptr_off :: "u64 \<Rightarrow> u64 \<Rightarrow> u64" where
  "to_pptr_off v p =
     (if v = 0 then PPTR_PATTERN_POS
      else if v > p then push_bit PPTR_PATTERN_SHIFT (v - p) OR PPTR_PATTERN_POS
      else push_bit PPTR_PATTERN_SHIFT (p - v) OR PPTR_PATTERN_NEG)"

definition from_pptr_off :: "u64 \<Rightarrow> u64 \<Rightarrow> u64" where
  "from_pptr_off off p =
     (if \<not> is_valid_pptr off \<or> is_null_pptr off then 0
      else if off AND 1 \<noteq> 0 then p - drop_bit PPTR_PATTERN_SHIFT off
      else p + drop_bit PPTR_PATTERN_SHIFT off)"

section \<open>Pointers in memory\<close>

text \<open>\<open>operator F*\<close>, \<open>operator=(const F*)\<close>, the copy assignment, and the comparisons.\<close>

definition pptr_get :: "memory \<Rightarrow> u64 \<Rightarrow> u64" where
  "pptr_get m p = from_pptr_off (load64 m p) p"

definition pptr_set :: "memory \<Rightarrow> u64 \<Rightarrow> u64 \<Rightarrow> memory" where
  "pptr_set m p v = store64 m p (to_pptr_off v p)"

definition pptr_copy :: "memory \<Rightarrow> u64 \<Rightarrow> u64 \<Rightarrow> memory" where
  "pptr_copy m p q = (let v = pptr_get m q in pptr_set m p v)"

definition pptr_is_null :: "memory \<Rightarrow> u64 \<Rightarrow> bool" where
  "pptr_is_null m p \<longleftrightarrow> load64 m p = PPTR_PATTERN_POS"

definition pptr_is_valid :: "memory \<Rightarrow> u64 \<Rightarrow> bool" where
  "pptr_is_valid m p \<longleftrightarrow> is_valid_pptr (load64 m p)"

text \<open>The address of \<open>operator[]\<close> for elements of \<open>n\<close> bytes.\<close>

definition pptr_index :: "memory \<Rightarrow> u64 \<Rightarrow> u64 \<Rightarrow> u64 \<Rightarrow> u64" where
  "pptr_index m p n idx = pptr_get m p + idx * n"

definition pptr_eq :: "memory \<Rightarrow> u64 \<Rightarrow> u64 \<Rightarrow> bool" where
  "pptr_eq m p q \<longleftrightarrow> pptr_get m p = pptr_get m q"

section \<open>Atomic pointers\<close>

text \<open>
  The content of an \<open>atomic_pptr\<close> at \<open>p\<close> is the raw offset \<open>cur\<close>.  An exchange returns
  the flag, the new content, and the caller's \<open>expected\<close>, which a failure overwrites with
  the pointer that was found.  The weak form may fail although the contents agree:
  \<open>spurious\<close> says whether this call does.
\<close>

definition atomic_pptr_load :: "u64 \<Rightarrow> u64 \<Rightarrow> u64" where
  "atomic_pptr_load p cur = from_pptr_off cur p"

definition atomic_pptr_store :: "u64 \<Rightarrow> u64 \<Rightarrow> u64" where
  "atomic_pptr_store p desired = to_pptr_off desired p"

text \<open>The constructor from a \<open>pptr\<close> at \<open>q\<close> with content \<open>off\<close>, and the assignment of an \<open>atomic_pptr\<close> at \<open>q\<close>.\<close>

definition atomic_pptr_of_pptr :: "u64 \<Rightarrow> u64 \<Rightarrow> u64 \<Rightarrow> u64" where
  "atomic_pptr_of_pptr p q off = (let v = from_pptr_off off q in to_pptr_off v p)"

definition atomic_pptr_assign :: "u64 \<Rightarrow> u64 \<Rightarrow> u64 \<Rightarrow> u64" where
  "atomic_pptr_assign p q cur = (let v = atomic_pptr_load q cur in to_pptr_off v p)"

definition atomic_pptr_compare_exchange_weak ::
    "u64 \<Rightarrow> bool \<Rightarrow> u64 \<Rightarrow> u64 \<Rightarrow> u64 \<Rightarrow> bool \<times> u64 \<times> u64" where
  "atomic_pptr_compare_exchange_weak p spurious cur expected desired =
     (let old_off = to_pptr_off expected p;
          new_off = to_pptr_off desired p;
          ret = (cur = old_off \<and> \<not> spurious)
      in if ret then (True, new_off, expected)
         else let old_off = cur in
           (False, cur, if is_null_pptr old_off then 0 else from_pptr_off old_off p))"

definition atomic_pptr_compare_exchange_strong ::
    "u64 \<Rightarrow> u64 \<Rightarrow> u64 \<Rightarrow> u64 \<Rightarrow> bool \<times> u64 \<times> u64" where
  "atomic_pptr_compare_exchange_strong p cur expected desired =
     (let old_off = to_pptr_off expected p;
          new_off = to_pptr_off desired p;
          ret = (cur = old_off)
      in if ret then (True, new_off, expected)
         else let old_off = cur in
           (False, cur, if is_null_pptr old_off then 0 else from_pptr_off old_off p))"

section \<open>Correctness of the encoding\<close>

text \<open>
  Addresses of x86-64 user space use 48 bits; the encoding relies on it, since it shifts
  the distance left by 16.
\<close>

definition canonical :: "u64 \<Rightarrow> bool" where
  "canonical a \<longleftrightarrow> unat a < 2 ^ 48"

lemma canonical_0 [simp]: "canonical 0"
  by (simp add: canonical_def)

lemma drop_push_48: "unat (d :: u64) < 2 ^ 48 \<Longrightarrow> drop_bit 16 (push_bit 16 d) = d"
  by (simp add: word_unat_eq_iff unat_drop_bit unat_push_bit)

text \<open>The tag occupies the low 16 bits and the distance the high 48.\<close>

lemma tag_drop:
  assumes "unat (d :: u64) < 2 ^ 48" "take_bit 16 t = t"
  shows "drop_bit 16 (push_bit 16 d OR t) = d"
proof -
  have "drop_bit 16 t = 0"
    using assms(2) by (metis drop_bit_take_bit take_bit_0 diff_self_eq_0)
  then show ?thesis
    using assms(1) by (simp add: drop_bit_or drop_push_48)
qed

lemma tag_and:
  assumes "take_bit 16 (k :: u64) = k"
  shows "(push_bit 16 d OR t) AND k = t AND k"
proof (rule bit_word_eqI)
  fix n
  have "bit k n \<Longrightarrow> n < 16" using assms by (metis bit_take_bit_iff)
  then show "bit ((push_bit 16 d OR t) AND k) n = bit (t AND k) n"
    by (auto simp: bit_simps)
qed

lemma is_valid_tagged [simp]:
  "is_valid_pptr (push_bit PPTR_PATTERN_SHIFT d OR PPTR_PATTERN_POS)"
  "is_valid_pptr (push_bit PPTR_PATTERN_SHIFT d OR PPTR_PATTERN_NEG)"
  by (simp_all add: is_valid_pptr_def pptr_consts PPTR_PATTERN_MASK_eq tag_and)

lemma from_pos:
  assumes "unat d < 2 ^ 48" "d \<noteq> 0"
  shows "from_pptr_off (push_bit PPTR_PATTERN_SHIFT d OR PPTR_PATTERN_POS) p = p + d"
proof -
  let ?o = "push_bit 16 d OR 0x52b0 :: u64"
  have "drop_bit 16 ?o = d" using assms(1) by (rule tag_drop) simp
  moreover have "?o \<noteq> 0x52b0"
  proof
    assume "?o = 0x52b0"
    then have "drop_bit 16 (0x52b0 :: u64) = d" using calculation by simp
    with assms(2) show False by simp
  qed
  ultimately show ?thesis
    using is_valid_tagged(1) [of d]
    by (simp add: from_pptr_off_def is_null_pptr_def pptr_consts tag_and)
qed

lemma from_neg:
  assumes "unat d < 2 ^ 48"
  shows "from_pptr_off (push_bit PPTR_PATTERN_SHIFT d OR PPTR_PATTERN_NEG) p = p - d"
proof -
  let ?o = "push_bit 16 d OR 0x52b1 :: u64"
  have "drop_bit 16 ?o = d" using assms(1) by (rule tag_drop) simp
  moreover have "?o AND 1 = 1" by (simp add: tag_and)
  moreover from this have "?o \<noteq> 0x52b0" by auto
  ultimately show ?thesis
    using is_valid_tagged(2) [of d]
    by (simp add: from_pptr_off_def is_null_pptr_def pptr_consts)
qed

text \<open>
  The round trip, for a target within 48 bits of distance of the pointer: this covers every
  pair of canonical addresses.
\<close>

lemma pptr_roundtrip_dist:
  assumes "v = 0 \<or> (if v > p then unat (v - p) else unat (p - v)) < 2 ^ 48"
  shows "from_pptr_off (to_pptr_off v p) p = v"
proof -
  consider "v = 0" | "v \<noteq> 0" "v > p" "unat (v - p) < 2 ^ 48" | "v \<noteq> 0" "\<not> v > p" "unat (p - v) < 2 ^ 48"
    using assms by (auto split: if_splits)
  then show ?thesis
  proof cases
    case 1
    then show ?thesis by (simp add: to_pptr_off_def from_pptr_off_def is_null_pptr_def)
  next
    case 2
    then have "v - p \<noteq> 0" by auto
    with 2 show ?thesis by (simp add: to_pptr_off_def from_pos)
  next
    case 3
    then show ?thesis by (simp add: to_pptr_off_def from_neg)
  qed
qed

lemma canonical_dist:
  assumes "canonical v" "canonical p"
  shows "(if v > p then unat (v - p) else unat (p - v)) < 2 ^ 48"
  using assms by (auto simp: canonical_def unat_sub_le not_less order_less_imp_le)

lemma pptr_roundtrip [simp]:
  "canonical v \<Longrightarrow> canonical p \<Longrightarrow> from_pptr_off (to_pptr_off v p) p = v"
  by (rule pptr_roundtrip_dist) (use canonical_dist in blast)

lemma to_pptr_off_inj:
  assumes "canonical v" "canonical w" "canonical p"
  shows "to_pptr_off v p = to_pptr_off w p \<longleftrightarrow> v = w"
  using assms pptr_roundtrip by metis

text \<open>Decoded at another place \<open>q\<close>, the stored bits give the target at the same distance.\<close>

lemma pptr_relocate:
  assumes "v \<noteq> 0" "canonical v" "canonical p"
  shows "from_pptr_off (to_pptr_off v p) q = q + (v - p)"
proof (cases "v > p")
  case True
  then have "v - p \<noteq> 0" "unat (v - p) < 2 ^ 48" using canonical_dist [OF assms(2,3)] by auto
  then show ?thesis using True assms(1) by (simp add: to_pptr_off_def from_pos)
next
  case False
  then have "unat (p - v) < 2 ^ 48" using canonical_dist [OF assms(2,3)] by simp
  then show ?thesis using False assms(1) by (simp add: to_pptr_off_def from_neg)
qed

lemma to_pptr_off_valid: "is_valid_pptr (to_pptr_off v p)"
  unfolding to_pptr_off_def
  by (auto simp: is_valid_pptr_def pptr_consts PPTR_PATTERN_MASK_eq tag_and)

lemma pptr_get_set_same [simp, mem_simps]:
  "canonical v \<Longrightarrow> canonical p \<Longrightarrow> pptr_get (pptr_set m p v) p = v"
  by (simp add: pptr_get_def pptr_set_def)

lemma pptr_get_set [mem_simps]:
  assumes "aligned8 p" "aligned8 q" "canonical v" "canonical p"
  shows "pptr_get (pptr_set m p v) q = (if p = q then v else pptr_get m q)"
  using assms by (auto simp: pptr_get_def pptr_set_def load64_store64_aligned)

lemma pptr_get_set_other:
  "aligned8 p \<Longrightarrow> aligned8 q \<Longrightarrow> p \<noteq> q \<Longrightarrow> pptr_get (pptr_set m p v) q = pptr_get m q"
  by (simp add: pptr_get_def pptr_set_def load64_store64_aligned)

text \<open>Copies keep the target, not the bits: a pointer copied to another place points where the original does.\<close>

lemma pptr_copies:
  assumes "canonical p" "canonical q" "canonical v"
  shows "atomic_pptr_load p (atomic_pptr_of_pptr p q (to_pptr_off v q)) = v" "atomic_pptr_load p (atomic_pptr_assign p q (atomic_pptr_store q v)) = v"
    "pptr_index (pptr_set m p v) p n idx = v + idx * n"
  using assms by (simp_all add: atomic_pptr_load_def atomic_pptr_of_pptr_def atomic_pptr_assign_def atomic_pptr_store_def pptr_index_def)

section \<open>Properties\<close>

text \<open>C32: A canonical target stored through a \<open>pptr\<close> at any canonical, 8-byte aligned address is
  read back unchanged, null included, and every other aligned pointer in memory keeps its
  target.\<close>

theorem pptr_store_load:
  assumes "canonical v" "canonical p" "aligned8 p" "aligned8 q"
  shows "pptr_get (pptr_set m p v) q = (if q = p then v else pptr_get m q)"
  using pptr_get_set [OF assms(3,4,1,2)] by auto

theorem pptr_store_load_witness:
  "pptr_get (pptr_set (\<lambda>_. 0) 0x1000 0x2000) 0x1000 = 0x2000"
proof -
  have "canonical 0x2000" "canonical 0x1000" "aligned8 0x1000"
    by (simp_all add: canonical_def aligned8_def)
  from pptr_store_load [OF this this(3)] show ?thesis by simp
qed

text \<open>C33: Position independence: when a pointer and its target are both mapped \<open>d\<close> bytes higher, the
  stored bits are unchanged and decode, at the new place, to the moved target.\<close>

theorem pptr_position_independent:
  assumes "v \<noteq> 0" "unat v + unat d < 2 ^ 48" "unat p + unat d < 2 ^ 48"
  shows "to_pptr_off (v + d) (p + d) = to_pptr_off v p
    \<and> from_pptr_off (to_pptr_off v p) (p + d) = v + d"
proof -
  have u: "unat (v + d) = unat v + unat d" "unat (p + d) = unat p + unat d"
    using assms by (simp_all add: unat_add_lt)
  have "v + d \<noteq> 0"
    using assms(1) u(1) by (metis add_is_0 unat_0 unat_0_iff)
  moreover have "v + d > p + d \<longleftrightarrow> v > p" using u by (simp add: word_less_nat_alt)
  ultimately have same: "to_pptr_off (v + d) (p + d) = to_pptr_off v p"
    using assms(1) by (simp add: to_pptr_off_def)
  have "canonical (v + d)" "canonical (p + d)" using u assms by (simp_all add: canonical_def)
  then have "from_pptr_off (to_pptr_off (v + d) (p + d)) (p + d) = v + d" by simp
  with same show ?thesis by simp
qed

theorem pptr_position_independent_witness:
  "to_pptr_off (0x2000 + 0x70000) (0x1000 + 0x70000) = to_pptr_off 0x2000 0x1000
    \<and> from_pptr_off (to_pptr_off 0x2000 0x1000) (0x1000 + 0x70000) = 0x2000 + 0x70000"
  by (rule pptr_position_independent) simp_all

text \<open>Compare-and-exchange on an \<open>atomic_pptr\<close> that holds \<open>cur\<close> succeeds exactly when the caller
  expected \<open>cur\<close> (for the weak form, and it did not fail spuriously); it then installs the
  desired pointer, and otherwise leaves the cell alone and reports \<open>cur\<close> to the caller.\<close>

lemma atomic_pptr_cas:
  assumes "canonical p" "canonical cur" "canonical expected" "canonical desired"
  shows "atomic_pptr_compare_exchange_strong p (atomic_pptr_store p cur) expected desired =
      (if cur = expected then (True, atomic_pptr_store p desired, expected)
       else (False, atomic_pptr_store p cur, cur))
    \<and> atomic_pptr_compare_exchange_weak p spurious (atomic_pptr_store p cur) expected desired =
      (if cur = expected \<and> \<not> spurious then (True, atomic_pptr_store p desired, expected)
       else (False, atomic_pptr_store p cur, cur))
    \<and> atomic_pptr_load p (atomic_pptr_store p desired) = desired"
proof -
  have null: "is_null_pptr (to_pptr_off cur p) \<Longrightarrow> cur = 0"
    using pptr_roundtrip [OF assms(2,1)] by (simp add: from_pptr_off_def)
  then show ?thesis
    using assms
    by (auto simp: atomic_pptr_compare_exchange_strong_def atomic_pptr_compare_exchange_weak_def
        atomic_pptr_store_def atomic_pptr_load_def to_pptr_off_inj Let_def)
qed

lemma atomic_pptr_cas_witness:
  "atomic_pptr_compare_exchange_strong 0x1000 (atomic_pptr_store 0x1000 0x2000) 0x3000 0x4000 =
    (False, atomic_pptr_store 0x1000 0x2000, 0x2000)"
proof -
  have "canonical 0x1000" "canonical 0x2000" "canonical 0x3000" "canonical 0x4000"
    by (simp_all add: canonical_def)
  from atomic_pptr_cas [OF this] show ?thesis by simp
qed

end
