(* ===== verification/Bx_ClassSize.thy ===== *)
theory Bx_ClassSize
  imports Bx_Prelude
begin

unbundle bit_operations_syntax

text \<open>
  Size classes (\<open>src/src/ClassSize.hpp\<close>): rounding a request to its class size, the class
  index of a request, the size of a class, and the two tables that the constructor of
  \<open>ClassSize\<close> fills (\<open>indextosize\<close> and the hash map \<open>sizetoindex\<close>).  The results say that the
  three functions and the tables agree on every request a class serves, that a class is the
  smallest one that fits, and how much a class wastes.
\<close>

section \<open>Constants\<close>

definition NLIST :: nat where "NLIST = 160"
definition SBSIZE :: u64 where "SBSIZE = 16 * 4096"
definition MAX_SZ :: u64 where "MAX_SZ = 24 * 1024"

lemma SBSIZE_eq: "SBSIZE = 65536" by (simp add: SBSIZE_def)
lemma MAX_SZ_eq: "MAX_SZ = 24576" by (simp add: MAX_SZ_def)

section \<open>Rounding and indexing\<close>

definition roundup_align :: "u64 \<Rightarrow> u64 \<Rightarrow> u64" where
  "roundup_align sz align = (sz + align - 1) AND NOT (align - 1)"

definition RoundUp :: "u64 \<Rightarrow> u64 result" where
  "RoundUp sz = bindE (assertE ''size <= SBSIZE'' (sz \<le> SBSIZE)) (\<lambda>_.
     if sz \<le> 128 then Inr (roundup_align sz 8)
     else if sz \<le> 1024 then Inr (roundup_align sz 16)
     else if sz \<le> 8192 then Inr (roundup_align sz 128)
     else if sz \<le> 65536 then Inr (roundup_align sz 512)
     else Inr (- 1))"

definition index_shift :: "u64 \<Rightarrow> nat \<Rightarrow> u64" where
  "index_shift bytes align_shift =
     drop_bit align_shift (bytes + push_bit align_shift 1 - 1) - 1"

definition group_array :: "u64 list" where
  "group_array = [16, 56, 56, 48]"

definition Index :: "u64 \<Rightarrow> u64 result" where
  "Index bytes = bindE (assertE ''bytes < SBSIZE'' (bytes < SBSIZE)) (\<lambda>_.
     if bytes \<le> 128 then Inr (index_shift bytes 3)
     else if bytes \<le> 1024 then Inr (index_shift (bytes - 128) 4 + group_array ! 0)
     else if bytes \<le> 8192
       then Inr (index_shift (bytes - 1024) 7 + group_array ! 0 + group_array ! 1)
     else if bytes \<le> 24 * 1024
       then Inr (index_shift (bytes - 8192) 9 + group_array ! 0 + group_array ! 1 + group_array ! 2)
     else Inr (- 1))"

definition getsizefromindex :: "u64 \<Rightarrow> u64 result" where
  "getsizefromindex index = bindE (assertE ''index<NLIST'' (index < of_nat NLIST)) (\<lambda>_.
     if index < 16 then Inr ((index + 1) * 8)
     else if index < 72 then Inr (128 + (index + 1 - 16) * 16)
     else if index < 128 then Inr (1024 + (index + 1 - 72) * 128)
     else if index < 160 then Inr (8 * 1024 + (index + 1 - 128) * 512)
     else Inr (- 1))"

section \<open>The tables\<close>

text \<open>
  \<open>unordered_map::insert\<close> keeps the value of a key that is already present.
\<close>

definition umap_insert :: "('k \<rightharpoonup> 'v) \<Rightarrow> 'k \<Rightarrow> 'v \<Rightarrow> ('k \<rightharpoonup> 'v)" where
  "umap_insert m k v = (case m k of None \<Rightarrow> m(k \<mapsto> v) | Some _ \<Rightarrow> m)"

record class_size =
  sizetoindex :: "u64 \<rightharpoonup> u64"
  indextosize :: "u64 list"

fun ClassSize_loop :: "nat \<Rightarrow> class_size \<Rightarrow> class_size result" where
  "ClassSize_loop 0 cs = Inr cs"
| "ClassSize_loop (Suc n) cs =
     bindE (ClassSize_loop n cs) (\<lambda>cs.
     bindE (getsizefromindex (of_nat n)) (\<lambda>sz.
       Inr (cs\<lparr>indextosize := (indextosize cs)[n := sz],
               sizetoindex := umap_insert (sizetoindex cs) sz (of_nat n)\<rparr>)))"

definition ClassSize_init :: "class_size result" where
  "ClassSize_init = ClassSize_loop NLIST \<lparr>sizetoindex = Map.empty, indextosize = replicate NLIST 0\<rparr>"

section \<open>Values as natural numbers\<close>

definition class_bytes :: "nat \<Rightarrow> nat" where
  "class_bytes n =
     (if n < 16 then (n + 1) * 8 else if n < 72 then 128 + (n - 15) * 16
      else if n < 128 then 1024 + (n - 71) * 128 else 8192 + (n - 127) * 512)"

definition class_of :: "nat \<Rightarrow> nat" where
  "class_of s =
     (if s \<le> 128 then (s + 7) div 8 - 1 else if s \<le> 1024 then (s - 128 + 15) div 16 - 1 + 16
      else if s \<le> 8192 then (s - 1024 + 127) div 128 - 1 + 72
      else (s - 8192 + 511) div 512 - 1 + 128)"

lemma class_bytes_mono: "i < j \<Longrightarrow> class_bytes i < class_bytes j"
  unfolding class_bytes_def by auto

lemma class_bytes_inj: "class_bytes i = class_bytes j \<longleftrightarrow> i = j"
  using class_bytes_mono by (metis less_irrefl nat_neq_iff)

lemma class_bytes_bounds: "n < 160 \<Longrightarrow> 8 \<le> class_bytes n \<and> class_bytes n \<le> 24576 \<and> 8 dvd class_bytes n"
  unfolding class_bytes_def by (auto simp: dvd_def intro: exI) presburger+

text \<open>
  Each band has a base, a step and a first index; \<open>q\<close> counts the steps from the base.
\<close>

lemma step_quotient:
  assumes "0 < (n::nat)" "0 < g"
  defines "q \<equiv> (n + g - 1) div g - 1"
  shows "g * q < n" "n \<le> g * q + g" "(n + g - 1) div g = q + 1"
proof -
  define D where "D = (n + g - 1) div g"
  have D: "n + g - 1 = g * D + (n + g - 1) mod g" by (simp add: D_def)
  have R: "(n + g - 1) mod g < g" using assms(2) by simp
  have "1 \<le> D"
    using assms(1,2) by (simp add: D_def div_greater_zero_iff Suc_le_eq)
  then have q: "D = q + 1" by (simp add: q_def D_def)
  then have "g * D = g * q + g" by simp
  with D R assms(1) show "g * q < n" "n \<le> g * q + g" by linarith+
  show "(n + g - 1) div g = q + 1" using q by (simp add: D_def)
qed

lemma class_of_cases:
  assumes "0 < s" "s \<le> 24576"
  obtains q where "s \<le> 128" "class_of s = q" "q < 16" "8 * q < s" "s \<le> 8 * q + 8"
  | q where "128 < s" "s \<le> 1024" "class_of s = q + 16" "q < 56" "16 * q + 128 < s" "s \<le> 16 * q + 144"
  | q where "1024 < s" "s \<le> 8192" "class_of s = q + 72" "q < 56" "128 * q + 1024 < s" "s \<le> 128 * q + 1152"
  | q where "8192 < s" "class_of s = q + 128" "q < 32" "512 * q + 8192 < s" "s \<le> 512 * q + 8704"
proof -
  consider "s \<le> 128" | "128 < s" "s \<le> 1024" | "1024 < s" "s \<le> 8192" | "8192 < s" by linarith
  then show thesis
  proof cases
    case 1
    define q where "q = (s + 8 - 1) div 8 - 1"
    have "8 * q < s" "s \<le> 8 * q + 8" "(s + 8 - 1) div 8 = q + 1"
      unfolding q_def using 1 assms(1) by (intro step_quotient; simp)+
    with 1 assms show thesis by (intro that(1) [of q]) (simp_all add: class_of_def)
  next
    case 2
    define q where "q = (s - 128 + 16 - 1) div 16 - 1"
    have "16 * q < s - 128" "s - 128 \<le> 16 * q + 16" "(s - 128 + 16 - 1) div 16 = q + 1"
      unfolding q_def using 2 assms(1) by (intro step_quotient; simp)+
    with 2 assms show thesis by (intro that(2) [of q]) (simp_all add: class_of_def)
  next
    case 3
    define q where "q = (s - 1024 + 128 - 1) div 128 - 1"
    have "128 * q < s - 1024" "s - 1024 \<le> 128 * q + 128" "(s - 1024 + 128 - 1) div 128 = q + 1"
      unfolding q_def using 3 assms(1) by (intro step_quotient; simp)+
    with 3 assms show thesis by (intro that(3) [of q]) (simp_all add: class_of_def)
  next
    case 4
    define q where "q = (s - 8192 + 512 - 1) div 512 - 1"
    have "512 * q < s - 8192" "s - 8192 \<le> 512 * q + 512" "(s - 8192 + 512 - 1) div 512 = q + 1"
      unfolding q_def using 4 assms(1) by (intro step_quotient; simp)+
    with 4 assms show thesis by (intro that(4) [of q]) (simp_all add: class_of_def)
  qed
qed

lemma class_of_bounds: "0 < s \<Longrightarrow> s \<le> 24576 \<Longrightarrow> class_of s < 160"
  by (erule (1) class_of_cases) simp_all

lemma class_of_fits: "0 < s \<Longrightarrow> s \<le> 24576 \<Longrightarrow> s \<le> class_bytes (class_of s)"
  by (erule (1) class_of_cases) (simp_all add: class_bytes_def)

lemma class_of_least:
  assumes "0 < s" "s \<le> 24576" "i < class_of s"
  shows "class_bytes i < s"
proof -
  have "class_bytes (class_of s - 1) < s"
    using assms(1,2)
  proof (cases rule: class_of_cases)
    case (1 q)
    then show ?thesis using assms(3) by (simp add: class_bytes_def)
  next
    case (2 q)
    then show ?thesis by (cases q) (simp_all add: class_bytes_def)
  next
    case (3 q)
    then show ?thesis by (cases q) (simp_all add: class_bytes_def)
  next
    case (4 q)
    then show ?thesis by (cases q) (simp_all add: class_bytes_def)
  qed
  moreover have "i = class_of s - 1 \<or> i < class_of s - 1" using assms(3) by auto
  ultimately show ?thesis using class_bytes_mono [of i "class_of s - 1"] by auto
qed

lemma class_waste:
  "0 < s \<Longrightarrow> s \<le> 24576 \<Longrightarrow> class_bytes (class_of s) - s <
     (if s \<le> 128 then 8 else if s \<le> 1024 then 16 else if s \<le> 8192 then 128 else 512)"
  by (erule (1) class_of_cases) (simp_all add: class_bytes_def)

lemma class_of_bytes:
  assumes "i < 160"
  shows "class_of (class_bytes i) = i"
proof -
  have b: "8 \<le> class_bytes i" "class_bytes i \<le> 24576"
    using class_bytes_bounds [OF assms] by auto
  have "\<not> class_of (class_bytes i) < i"
    using class_of_fits [of "class_bytes i"] b class_bytes_mono [of "class_of (class_bytes i)" i]
    by auto
  moreover have "\<not> i < class_of (class_bytes i)"
    using class_of_least [of "class_bytes i" i] b by auto
  ultimately show ?thesis by simp
qed

lemma pow2_lt: "k < 32 \<Longrightarrow> (2::nat) ^ k < 2 ^ 32"
  by (rule power_strict_increasing) simp_all

lemma unat_add_pow2_minus1:
  assumes "unat b < 2 ^ 32" "k < 32"
  shows "unat (b + 2 ^ k - 1 :: u64) = unat b + 2 ^ k - 1"
proof -
  have "unat (b + 2 ^ k) = unat b + 2 ^ k"
    using assms(1) pow2_lt [OF assms(2)] assms(2) by (subst unat_add_lt) (simp_all add: unat_2_exp)
  moreover have "(1::nat) \<le> unat b + 2 ^ k" by (simp add: Suc_le_eq)
  ultimately show ?thesis
    by (simp add: unat_sub_le word_le_nat_alt)
qed

lemma unat_roundup_align:
  assumes "unat sz < 2 ^ 32" "align = 2 ^ k" "k < 32"
  shows "unat (roundup_align sz align) = (unat sz + 2 ^ k - 1) div 2 ^ k * 2 ^ k"
proof -
  have "align - 1 = mask k" by (simp add: assms(2) mask_eq_exp_minus_1)
  with assms show ?thesis
    by (simp add: roundup_align_def unat_and_not_mask unat_add_pow2_minus1)
qed

lemma unat_index_shift:
  assumes "0 < unat b" "unat b < 2 ^ 32" "k < 32"
  shows "unat (index_shift b k) = (unat b + 2 ^ k - 1) div 2 ^ k - 1"
proof -
  have "unat (drop_bit k (b + push_bit k 1 - 1)) = (unat b + 2 ^ k - 1) div 2 ^ k"
    using assms by (simp add: unat_drop_bit push_bit_eq_mult unat_add_pow2_minus1)
  moreover have "1 \<le> (unat b + 2 ^ k - 1) div 2 ^ k"
    using assms(1) by (simp add: div_greater_zero_iff Suc_le_eq)
  ultimately show ?thesis
    by (simp add: index_shift_def unat_sub_le word_le_nat_alt)
qed

section \<open>The functions compute the classes\<close>

lemma RoundUp_class:
  assumes "0 < sz" "sz \<le> MAX_SZ"
  obtains w where "RoundUp sz = Inr w" "unat w = class_bytes (class_of (unat sz))"
proof -
  define s where "s = unat sz"
  have s: "0 < s" "s \<le> 24576" "s < 2 ^ 32"
    using assms by (auto simp: s_def MAX_SZ_eq word_less_nat_alt word_le_nat_alt unat_0_iff)
  have R: "unat (roundup_align sz 8) = (s + 7) div 8 * 8"
    "unat (roundup_align sz 16) = (s + 15) div 16 * 16"
    "unat (roundup_align sz 128) = (s + 127) div 128 * 128"
    "unat (roundup_align sz 512) = (s + 511) div 512 * 512"
    using s(3) unat_roundup_align [of sz 8 3] unat_roundup_align [of sz 16 4]
      unat_roundup_align [of sz 128 7] unat_roundup_align [of sz 512 9]
    by (simp_all add: s_def)
  have le: "sz \<le> numeral k \<longleftrightarrow> s \<le> unat (numeral k :: u64)" for k
    by (simp add: s_def word_le_nat_alt)
  have "\<exists>w. RoundUp sz = Inr w \<and> unat w = class_bytes (class_of s)"
    using s(1,2)
  proof (cases rule: class_of_cases)
    case (1 q)
    then have "(s + 7) div 8 = q + 1" by (intro div_nat_eqI) simp_all
    with 1 show ?thesis by (simp add: RoundUp_def SBSIZE_eq le R class_bytes_def)
  next
    case (2 q)
    then have "(s + 15) div 16 = q + 9" by (intro div_nat_eqI) simp_all
    with 2 show ?thesis by (simp add: RoundUp_def SBSIZE_eq le R class_bytes_def)
  next
    case (3 q)
    then have "(s + 127) div 128 = q + 9" by (intro div_nat_eqI) simp_all
    with 3 show ?thesis by (simp add: RoundUp_def SBSIZE_eq le R class_bytes_def)
  next
    case (4 q)
    then have "(s + 511) div 512 = q + 17" by (intro div_nat_eqI) simp_all
    with 4 s(2) show ?thesis by (simp add: RoundUp_def SBSIZE_eq le R class_bytes_def)
  qed
  with that show thesis by (auto simp: s_def)
qed

lemma Index_class:
  assumes "0 < sz" "sz \<le> MAX_SZ"
  obtains i where "Index sz = Inr i" "unat i = class_of (unat sz)"
proof -
  define s where "s = unat sz"
  have s: "0 < s" "s \<le> 24576" "s < 2 ^ 32"
    using assms by (auto simp: s_def MAX_SZ_eq word_less_nat_alt word_le_nat_alt unat_0_iff)
  have le: "sz \<le> numeral k \<longleftrightarrow> s \<le> unat (numeral k :: u64)"
    "sz < numeral k \<longleftrightarrow> s < unat (numeral k :: u64)" for k
    by (simp_all add: s_def word_le_nat_alt word_less_nat_alt)
  have sub: "numeral k < sz \<Longrightarrow> unat (sz - numeral k) = s - unat (numeral k :: u64)" for k
    by (simp add: s_def unat_sub_le order_less_imp_le)
  have idx: "unat (index_shift b k + w) = (unat b + 2 ^ k - 1) div 2 ^ k - 1 + unat w"
    if "0 < unat b" "unat b < 2 ^ 32" "k < 32" "unat w < 2 ^ 32" for b k and w :: u64
  proof -
    have "(unat b + 2 ^ k - 1) div 2 ^ k \<le> unat b + 2 ^ k - 1" by simp
    moreover have "unat b + 2 ^ k < 2 ^ 32 + 2 ^ 32" using that pow2_lt [OF that(3)] by linarith
    ultimately have "(unat b + 2 ^ k - 1) div 2 ^ k - 1 + unat w < 2 ^ 32 + 2 ^ 32 + 2 ^ 32"
      using that(4) by linarith
    then have "(unat b + 2 ^ k - 1) div 2 ^ k - 1 + unat w < 2 ^ 64" by simp
    then show ?thesis
      using that by (subst unat_add_lt) (simp_all add: unat_index_shift)
  qed
  have "\<exists>i. Index sz = Inr i \<and> unat i = class_of s"
    using s(1,2)
  proof (cases rule: class_of_cases)
    case (1 q)
    then show ?thesis using s idx [of sz 3 0] by (simp add: Index_def SBSIZE_eq le class_of_def s_def)
  next
    case (2 q)
    then have "128 < sz" by (simp add: s_def word_less_nat_alt)
    with 2 sub idx [of "sz - 128" 4 16] show ?thesis
      by (simp add: Index_def SBSIZE_eq le class_of_def s_def group_array_def)
  next
    case (3 q)
    then have "1024 < sz" by (simp add: s_def word_less_nat_alt)
    with 3 sub idx [of "sz - 1024" 7 72] show ?thesis
      by (simp add: Index_def SBSIZE_eq le class_of_def s_def group_array_def add.assoc)
  next
    case (4 q)
    then have "8192 < sz" by (simp add: s_def word_less_nat_alt)
    with 4 s sub idx [of "sz - 8192" 9 128] show ?thesis
      by (simp add: Index_def SBSIZE_eq le class_of_def s_def group_array_def add.assoc)
  qed
  with that show thesis by (auto simp: s_def)
qed

lemma getsizefromindex_class:
  assumes "n < NLIST"
  obtains w where "getsizefromindex (of_nat n) = Inr w" "unat w = class_bytes n"
proof -
  have n: "n < 160" using assms by (simp add: NLIST_def)
  have u: "unat (of_nat n :: u64) = n" using n by (simp add: unsigned_of_nat take_bit_nat_eq_self)
  have lt: "(of_nat n :: u64) < numeral k \<longleftrightarrow> n < unat (numeral k :: u64)" for k
    by (simp add: word_less_nat_alt u)
  have "\<exists>w. getsizefromindex (of_nat n) = Inr w \<and> w = of_nat (class_bytes n)"
    using n by (simp add: getsizefromindex_def NLIST_def lt class_bytes_def of_nat_diff)
  then obtain w where w: "getsizefromindex (of_nat n) = Inr w" "w = of_nat (class_bytes n)" by auto
  moreover from w have "unat w = class_bytes n"
    using class_bytes_bounds [OF n] by (simp add: unsigned_of_nat take_bit_nat_eq_self)
  ultimately show thesis using that by blast
qed

section \<open>The tables agree with the functions\<close>

definition size_of_class :: "nat \<Rightarrow> u64" where
  "size_of_class n = of_nat (class_bytes n)"

lemma unat_size_of_class [simp]: "n < 160 \<Longrightarrow> unat (size_of_class n) = class_bytes n"
  using class_bytes_bounds [of n]
  by (simp add: size_of_class_def unsigned_of_nat take_bit_nat_eq_self)

lemma getsizefromindex_eq:
  assumes "n < NLIST"
  shows "getsizefromindex (of_nat n) = Inr (size_of_class n)"
proof -
  obtain w where "getsizefromindex (of_nat n) = Inr w" "unat w = class_bytes n"
    using assms by (rule getsizefromindex_class)
  then show ?thesis using assms by (simp add: word_unat_eq_iff NLIST_def)
qed

lemma size_of_class_inj:
  "i < 160 \<Longrightarrow> j < 160 \<Longrightarrow> size_of_class i = size_of_class j \<longleftrightarrow> i = j"
  by (simp add: word_unat_eq_iff class_bytes_inj)

text \<open>
  After \<open>n\<close> rounds of the constructor's loop, exactly the first \<open>n\<close> classes are in the tables.
\<close>

definition tables_upto :: "nat \<Rightarrow> class_size \<Rightarrow> bool" where
  "tables_upto n cs \<longleftrightarrow> length (indextosize cs) = NLIST
     \<and> (\<forall>i<n. indextosize cs ! i = size_of_class i \<and> sizetoindex cs (size_of_class i) = Some (of_nat i))
     \<and> (\<forall>s. s \<notin> size_of_class ` {..<n} \<longrightarrow> sizetoindex cs s = None)"

lemma ClassSize_loop_tables:
  assumes "n \<le> NLIST" "tables_upto 0 cs"
  shows "\<exists>cs'. ClassSize_loop n cs = Inr cs' \<and> tables_upto n cs'"
  using assms(1)
proof (induction n)
  case 0
  then show ?case using assms by simp
next
  case (Suc n)
  then obtain cs' where cs': "ClassSize_loop n cs = Inr cs'" "tables_upto n cs'"
    by auto
  let ?s = "size_of_class n"
  have neq: "\<forall>i<n. size_of_class i \<noteq> ?s"
    using Suc.prems size_of_class_inj by (auto simp: NLIST_def)
  then have "?s \<notin> size_of_class ` {..<n}" by force
  then have "sizetoindex cs' ?s = None"
    using cs'(2) by (simp add: tables_upto_def)
  then have "ClassSize_loop (Suc n) cs =
      Inr (cs'\<lparr>indextosize := (indextosize cs')[n := ?s],
               sizetoindex := (sizetoindex cs')(?s \<mapsto> of_nat n)\<rparr>)"
    using cs'(1) Suc.prems by (simp add: getsizefromindex_eq umap_insert_def)
  moreover have "tables_upto (Suc n) (cs'\<lparr>indextosize := (indextosize cs')[n := ?s],
               sizetoindex := (sizetoindex cs')(?s \<mapsto> of_nat n)\<rparr>)"
    using cs'(2) neq Suc.prems
    by (auto simp: tables_upto_def nth_list_update less_Suc_eq lessThan_Suc)
  ultimately show ?case by blast
qed

lemma ClassSize_init_tables: "\<exists>cs. ClassSize_init = Inr cs \<and> tables_upto NLIST cs"
  unfolding ClassSize_init_def by (rule ClassSize_loop_tables) (simp_all add: tables_upto_def)

definition myclasssize :: class_size where
  "myclasssize = (case ClassSize_init of
     Inl _ \<Rightarrow> \<lparr>sizetoindex = Map.empty, indextosize = []\<rparr> | Inr cs \<Rightarrow> cs)"

lemma myclasssize_tables: "tables_upto NLIST myclasssize"
proof -
  obtain cs where "ClassSize_init = Inr cs" "tables_upto NLIST cs"
    using ClassSize_init_tables by blast
  then have "myclasssize = cs" unfolding myclasssize_def by (metis sum.case(2))
  with \<open>tables_upto NLIST cs\<close> show ?thesis by simp
qed

lemma indextosize_class: "i < NLIST \<Longrightarrow> indextosize myclasssize ! i = size_of_class i"
  using myclasssize_tables by (simp add: tables_upto_def)

lemma sizetoindex_class: "i < NLIST \<Longrightarrow> sizetoindex myclasssize (size_of_class i) = Some (of_nat i)"
  using myclasssize_tables by (simp add: tables_upto_def)

lemma sizetoindex_Some:
  "sizetoindex myclasssize s = Some j \<Longrightarrow> \<exists>i<NLIST. s = size_of_class i \<and> j = of_nat i"
  using myclasssize_tables by (force simp: tables_upto_def)

lemma RoundUp_eq:
  assumes "0 < sz" "sz \<le> MAX_SZ"
  shows "RoundUp sz = Inr (size_of_class (class_of (unat sz)))"
proof -
  obtain w where w: "RoundUp sz = Inr w" "unat w = class_bytes (class_of (unat sz))"
    using assms by (rule RoundUp_class)
  have "class_of (unat sz) < 160"
    using assms by (intro class_of_bounds) (simp_all add: MAX_SZ_eq word_le_nat_alt word_gt_0 unat_gt_0)
  with w show ?thesis by (simp add: word_unat_eq_iff)
qed

lemma class_of_sz: "0 < sz \<Longrightarrow> sz \<le> MAX_SZ \<Longrightarrow> class_of (unat sz) < NLIST"
  using class_of_bounds [of "unat sz"]
  by (simp add: NLIST_def MAX_SZ_eq word_le_nat_alt word_gt_0 unat_gt_0)

section \<open>Properties\<close>

text \<open>C34: Every request of 1 to \<open>MAX_SZ\<close> bytes is served by a class: rounding, the index function and
  the hash table built by the constructor agree on the class \<open>i < NLIST\<close>; the class is large
  enough, is the smallest that is, and the table \<open>indextosize\<close> gives its size back.\<close>

theorem ClassSize_agree:
  assumes "0 < sz" "sz \<le> MAX_SZ"
  shows "\<exists>i r. i < NLIST \<and> RoundUp sz = Inr r \<and> Index sz = Inr (of_nat i)
    \<and> sizetoindex myclasssize r = Some (of_nat i) \<and> indextosize myclasssize ! i = r
    \<and> getsizefromindex (of_nat i) = Inr r
    \<and> sz \<le> r \<and> (\<forall>j<i. indextosize myclasssize ! j < sz)"
proof -
  define i where "i = class_of (unat sz)"
  have i: "i < NLIST" "i < 160" using class_of_sz [OF assms] by (simp_all add: i_def NLIST_def)
  have sz: "0 < unat sz" "unat sz \<le> 24576"
    using assms by (simp_all add: MAX_SZ_eq word_le_nat_alt unat_gt_0)
  obtain k where "Index sz = Inr k" "unat k = i"
    using Index_class [OF assms] by (auto simp: i_def)
  then have "Index sz = Inr (of_nat i)"
    using i(2) by (simp add: word_unat_eq_iff unsigned_of_nat take_bit_nat_eq_self)
  moreover have "sz \<le> size_of_class i"
    using class_of_fits [OF sz] i by (simp add: word_le_nat_alt i_def)
  moreover have "\<forall>j<i. indextosize myclasssize ! j < sz"
    using class_of_least [OF sz] i by (simp add: i_def [symmetric] indextosize_class word_less_nat_alt)
  ultimately show ?thesis
    using i RoundUp_eq [OF assms]
    by (intro exI [of _ i] exI [of _ "size_of_class i"])
      (simp add: i_def [symmetric] indextosize_class sizetoindex_class getsizefromindex_eq)
qed

theorem ClassSize_agree_witness:
  "\<exists>i r. i < NLIST \<and> RoundUp 100 = Inr r \<and> Index 100 = Inr (of_nat i)
    \<and> sizetoindex myclasssize r = Some (of_nat i) \<and> indextosize myclasssize ! i = r
    \<and> getsizefromindex (of_nat i) = Inr r
    \<and> 100 \<le> r \<and> (\<forall>j<i. indextosize myclasssize ! j < 100)"
  by (rule ClassSize_agree) (simp_all add: MAX_SZ_eq)

text \<open>C35: The rounding waste: a request above 128 bytes loses less than one eighth of its size to
  rounding (the source's comment says about 12 percent), and a smaller one less than 8 bytes.\<close>

theorem ClassSize_waste:
  assumes "0 < sz" "sz \<le> MAX_SZ" "RoundUp sz = Inr r"
  shows "if sz \<le> 128 then unat r - unat sz < 8 else 8 * (unat r - unat sz) < unat sz"
proof -
  define s where "s = unat sz"
  have s: "0 < s" "s \<le> 24576" and u: "unat r = class_bytes (class_of s)"
    using assms RoundUp_eq [OF assms(1,2)] class_of_sz [OF assms(1,2)]
    by (auto simp: s_def MAX_SZ_eq word_le_nat_alt unat_gt_0 NLIST_def)
  from class_waste [OF s] show ?thesis
    by (auto simp: u s_def [symmetric] word_le_nat_alt split: if_splits)
qed

theorem ClassSize_waste_witness: "RoundUp 1030 = Inr 1152 \<and> 8 * (unat (1152::u64) - unat (1030::u64)) < unat (1030::u64)"
proof -
  have r: "RoundUp 1030 = Inr 1152" by (simp add: RoundUp_def SBSIZE_eq roundup_align_def)
  from ClassSize_waste [OF _ _ r] r show ?thesis by (simp add: MAX_SZ_eq)
qed

text \<open>A request of zero bytes rounds to the size 0, which no class has: the table lookup of
  \<open>do_malloc\<close> finds nothing for it.\<close>

lemma ClassSize_zero: "RoundUp 0 = Inr 0 \<and> sizetoindex myclasssize 0 = None"
proof -
  have "RoundUp 0 = Inr 0" by (simp add: RoundUp_def roundup_align_def SBSIZE_eq)
  moreover have "sizetoindex myclasssize 0 = None"
  proof (cases "sizetoindex myclasssize 0")
    case (Some j)
    then obtain i where "i < 160" "0 = size_of_class i"
      using sizetoindex_Some [OF Some] by (auto simp: NLIST_def)
    then have "class_bytes i = 0" by (metis unat_size_of_class unat_0)
    with class_bytes_bounds [OF \<open>i < 160\<close>] show ?thesis by simp
  qed simp
  ultimately show ?thesis by simp
qed

end
