(* ===== verification/Bx_FreeList.thy ===== *)
theory Bx_FreeList
  imports Bx_Pptr Bx_ClassSize
begin

unbundle bit_operations_syntax

text \<open>
  Thread-local free lists (\<open>src/src/FreeList.hpp\<close>) and the thread cache
  (\<open>src/src/ThreadCache.h\<close>, \<open>src/src/ThreadCache.cpp\<close>).  A free list is a head pointer, a
  length and a maximal length; the links are \<open>pptr\<close>s in the first eight bytes of each free
  block.  The list is delimited by its length, not by a null link: a batch taken from a
  superblock keeps whatever link its last block had.  \<open>flist_rep\<close> relates the memory and the
  list header to the sequence of free blocks; the locale \<open>lifo\<close> is the contract that the
  allocator relies on, interpreted on the code's \<open>Push\<close> and \<open>Pop\<close>.
\<close>

section \<open>The list header and its operations\<close>

record freelist =
  fl_list :: u64
  fl_init :: bool
  fl_size :: u32
  fl_maxsize :: u32

definition FreeList_new :: freelist where
  "FreeList_new = \<lparr>fl_list = 0, fl_init = False, fl_size = 0, fl_maxsize = 1\<rparr>"

definition head_list :: "freelist \<Rightarrow> u64" where
  "head_list f = fl_list f"

definition Empty :: "freelist \<Rightarrow> bool" where
  "Empty f \<longleftrightarrow> fl_list f = 0"

definition PushRange :: "memory \<times> freelist \<Rightarrow> u64 \<Rightarrow> u64 \<Rightarrow> u32 \<Rightarrow> memory \<times> freelist" where
  "PushRange s start end num = (case s of (m, f) \<Rightarrow>
     (pptr_set m end (fl_list f), f\<lparr>fl_list := start, fl_size := fl_size f + num\<rparr>))"

definition PushList :: "freelist \<Rightarrow> u64 \<Rightarrow> u32 \<Rightarrow> freelist" where
  "PushList f obj num = f\<lparr>fl_list := obj, fl_size := num\<rparr>"

definition PopList :: "freelist \<Rightarrow> u64 \<Rightarrow> u64 \<Rightarrow> freelist" where
  "PopList f obj len = f\<lparr>fl_list := obj, fl_size := ucast (ucast (fl_size f) - len)\<rparr>"

definition Clear :: "freelist \<Rightarrow> u64 \<times> freelist" where
  "Clear f = (fl_list f, f\<lparr>fl_size := 0, fl_list := 0\<rparr>)"

definition Pop :: "memory \<times> freelist \<Rightarrow> (u64 \<times> memory \<times> freelist) result" where
  "Pop s = (case s of (m, f) \<Rightarrow>
     let obj = fl_list f in
     if obj = 0 then Inl NullDeref
     else Inr (obj, m, f\<lparr>fl_list := pptr_get m obj, fl_size := fl_size f - 1\<rparr>))"

definition Push :: "memory \<times> freelist \<Rightarrow> u64 \<Rightarrow> memory \<times> freelist" where
  "Push s obj = (case s of (m, f) \<Rightarrow>
     (pptr_set m obj (fl_list f), f\<lparr>fl_list := obj, fl_size := fl_size f + 1\<rparr>))"

definition Size :: "freelist \<Rightarrow> u32" where "Size f = fl_size f"
definition SetMaxSize :: "freelist \<Rightarrow> u32 \<Rightarrow> freelist" where "SetMaxSize f n = f\<lparr>fl_maxsize := n\<rparr>"
definition Maxsize :: "freelist \<Rightarrow> u32" where "Maxsize f = fl_maxsize f"
definition setinit :: "freelist \<Rightarrow> freelist" where "setinit f = f\<lparr>fl_init := True\<rparr>"
definition getinit :: "freelist \<Rightarrow> bool" where "getinit f = fl_init f"

lemmas flist_defs = head_list_def PushRange_def PushList_def PopList_def Clear_def Pop_def Push_def
  Size_def SetMaxSize_def Maxsize_def

section \<open>The thread cache\<close>

definition cache_maxsize :: "u64 \<Rightarrow> u32" where
  "cache_maxsize block_size =
     (let temp = ucast (SBSIZE div block_size) in
      if temp > 2048 then 2048 else if temp > 512 then 512 else temp)"

definition ThreadCache_init :: "class_size \<Rightarrow> freelist list" where
  "ThreadCache_init cs =
     map (\<lambda>i. SetMaxSize FreeList_new (cache_maxsize (indextosize cs ! i))) [0..<NLIST]"

section \<open>Chains of blocks in memory\<close>

definition block_addr :: "u64 \<Rightarrow> bool" where
  "block_addr x \<longleftrightarrow> x \<noteq> 0 \<and> aligned8 x \<and> canonical x"

fun chain :: "memory \<Rightarrow> u64 \<Rightarrow> u64 list \<Rightarrow> u64 \<Rightarrow> bool" where
  "chain m a [] z \<longleftrightarrow> a = z"
| "chain m a (x # xs) z \<longleftrightarrow> a = x \<and> chain m (pptr_get m x) xs z"

lemma chain_append [simp]: "chain m a (xs @ ys) z \<longleftrightarrow> (\<exists>b. chain m a xs b \<and> chain m b ys z)"
  by (induction xs arbitrary: a) auto

lemma chain_fun: "chain m a xs z \<Longrightarrow> chain m a xs z' \<Longrightarrow> z = z'"
  by (induction xs arbitrary: a) auto

lemma chain_cong:
  assumes "\<And>x. x \<in> set xs \<Longrightarrow> pptr_get m x = pptr_get m' x"
  shows "chain m a xs z \<longleftrightarrow> chain m' a xs z"
  using assms by (induction xs arbitrary: a) auto

lemma chain_set_other:
  assumes "\<forall>x\<in>set xs. block_addr x" "block_addr y" "y \<notin> set xs"
  shows "chain (pptr_set m y v) a xs z \<longleftrightarrow> chain m a xs z"
  using assms by (intro chain_cong pptr_get_set_other) (auto simp: block_addr_def)

definition blocks :: "u64 list \<Rightarrow> bool" where
  "blocks xs \<longleftrightarrow> distinct xs \<and> (\<forall>x\<in>set xs. block_addr x)"

lemma blocks_simps [simp]:
  "blocks []"
  "blocks (x # xs) \<longleftrightarrow> block_addr x \<and> x \<notin> set xs \<and> blocks xs"
  "blocks (xs @ ys) \<longleftrightarrow> blocks xs \<and> blocks ys \<and> set xs \<inter> set ys = {}"
  by (auto simp: blocks_def)

text \<open>The representation: the blocks of the list, in order; the final link is arbitrary.\<close>

definition flist_rep :: "memory \<times> freelist \<Rightarrow> u64 list \<Rightarrow> bool" where
  "flist_rep s xs \<longleftrightarrow> (case s of (m, f) \<Rightarrow>
     blocks xs \<and> unat (fl_size f) = length xs \<and> (\<exists>z. chain m (fl_list f) xs z))"

lemma flist_rep_new: "flist_rep (m, FreeList_new) []"
  by (auto simp: flist_rep_def FreeList_new_def)

lemma flist_rep_frame:
  assumes "flist_rep (m, f) xs" "\<And>x. x \<in> set xs \<Longrightarrow> pptr_get m x = pptr_get m' x"
  shows "flist_rep (m', f) xs"
  using assms chain_cong [of xs m m'] by (auto simp: flist_rep_def)

lemma canonical_head: "blocks xs \<Longrightarrow> xs \<noteq> [] \<Longrightarrow> chain m a xs z \<Longrightarrow> canonical a"
  by (cases xs) (auto simp: block_addr_def)

text \<open>
  A block linked in front of a chain.  When the chain is empty its end pointer need not survive
  the encoding, since it is never followed.
\<close>

lemma chain_link:
  assumes "chain m a xs z" "blocks xs" "block_addr y" "y \<notin> set xs"
  shows "\<exists>z'. chain (pptr_set m y a) (pptr_get (pptr_set m y a) y) xs z'"
proof (cases "xs = []")
  case False
  then have "canonical a" using assms(1,2) canonical_head by blast
  then have "pptr_get (pptr_set m y a) y = a" using assms(3) by (simp add: block_addr_def)
  moreover have "chain (pptr_set m y a) a xs z"
    using assms by (subst chain_set_other) (auto simp: blocks_def)
  ultimately show ?thesis by auto
qed simp

lemma unat_Suc_u32: "unat (n :: u32) + 1 < 2 ^ 32 \<Longrightarrow> unat (n + 1) = unat n + 1"
  by (simp add: unat_add_lt)

lemma Push_rep:
  assumes "flist_rep s xs" "block_addr x" "x \<notin> set xs" "length xs + 1 < 2 ^ 32"
  shows "flist_rep (Push s x) (x # xs)"
proof -
  obtain m f z where s: "s = (m, f)" and z: "chain m (fl_list f) xs z"
    and b: "blocks xs" "unat (fl_size f) = length xs"
    using assms(1) by (cases s) (auto simp: flist_rep_def)
  have "unat (fl_size f + 1) = length xs + 1"
    using b(2) assms(4) by (simp add: unat_Suc_u32)
  then show ?thesis
    using assms(2,3) b(1) chain_link [OF z b(1) assms(2,3)] by (simp add: s Push_def flist_rep_def)
qed

lemma Pop_rep:
  assumes "flist_rep s (x # xs)"
  obtains f' where "Pop s = Inr (x, fst s, f')" "flist_rep (fst s, f') xs"
    "fl_maxsize f' = fl_maxsize (snd s)"
proof -
  obtain m f z where s: "s = (m, f)" and z: "chain m (pptr_get m x) xs z" "fl_list f = x"
    and b: "blocks (x # xs)" "unat (fl_size f) = Suc (length xs)"
    using assms by (cases s) (auto simp: flist_rep_def)
  have "unat (fl_size f - 1) = length xs"
    using b(2) by (simp add: unat_sub_le word_le_nat_alt)
  then show thesis
    using b z
    by (intro that [of "f\<lparr>fl_list := pptr_get m x, fl_size := fl_size f - 1\<rparr>"])
      (auto simp: s Pop_def flist_rep_def block_addr_def)
qed

section \<open>The contract\<close>

text \<open>
  What the allocator needs of a free list: pushing a fresh block puts it in front, popping a
  non-empty list returns its front.  The batch lemma is derived from the two laws.
\<close>

locale lifo =
  fixes rep :: "'s \<Rightarrow> u64 list \<Rightarrow> bool"
    and push :: "'s \<Rightarrow> u64 \<Rightarrow> 's"
    and pop :: "'s \<Rightarrow> (u64 \<times> 's) result"
    and room :: "nat"
    and ok :: "u64 \<Rightarrow> bool"
  assumes push_law: "rep s xs \<Longrightarrow> ok x \<Longrightarrow> x \<notin> set xs \<Longrightarrow> length xs < room \<Longrightarrow> rep (push s x) (x # xs)"
    and pop_law: "rep s (x # xs) \<Longrightarrow> \<exists>s'. pop s = Inr (x, s') \<and> rep s' xs"
begin

fun pop_n :: "nat \<Rightarrow> 's \<Rightarrow> (u64 list \<times> 's) result" where
  "pop_n 0 s = Inr ([], s)"
| "pop_n (Suc n) s = bindE (pop s) (\<lambda>(x, s). bindE (pop_n n s) (\<lambda>(xs, s). Inr (x # xs, s)))"

lemma pop_n_takes: "rep s (xs @ ys) \<Longrightarrow> \<exists>s'. pop_n (length xs) s = Inr (xs, s') \<and> rep s' ys"
proof (induction xs arbitrary: s)
  case Nil
  then show ?case by simp
next
  case (Cons x xs)
  then obtain s1 where s1: "pop s = Inr (x, s1)" "rep s1 (xs @ ys)" using pop_law by fastforce
  then obtain s2 where "pop_n (length xs) s1 = Inr (xs, s2)" "rep s2 ys" using Cons.IH by blast
  with s1 show ?case by simp
qed

lemma push_all:
  assumes "rep s xs" "distinct ys" "set ys \<inter> set xs = {}" "\<forall>y\<in>set ys. ok y"
    "length xs + length ys \<le> room"
  shows "rep (foldl push s ys) (rev ys @ xs)"
  using assms
proof (induction ys arbitrary: s xs)
  case Nil
  then show ?case by simp
next
  case (Cons y ys)
  then have "rep (push s y) (y # xs)" by (intro push_law) auto
  then have "rep (foldl push (push s y) ys) (rev ys @ (y # xs))" using Cons by (intro Cons.IH) auto
  then show ?case by simp
qed

lemma push_pop_batch:
  assumes "rep s xs" "distinct ys" "set ys \<inter> set xs = {}" "\<forall>y\<in>set ys. ok y"
    "length xs + length ys \<le> room"
  shows "\<exists>s'. pop_n (length ys) (foldl push s ys) = Inr (rev ys, s') \<and> rep s' xs"
  using pop_n_takes [of "foldl push s ys" "rev ys" xs] push_all [OF assms] by simp

end

interpretation fl: lifo flist_rep Push Pop "2 ^ 32 - 1" block_addr
proof
  show "flist_rep (Push s x) (x # xs)"
    if "flist_rep s xs" "block_addr x" "x \<notin> set xs" "length xs < 2 ^ 32 - 1" for s xs x
    using that by (intro Push_rep) auto
next
  show "\<exists>s'. Pop s = Inr (x, s') \<and> flist_rep s' xs" if "flist_rep s (x # xs)" for s x xs
    using Pop_rep [OF that] by blast
qed

lemma PushRange_rep:
  assumes "flist_rep (m, f) xs" "blocks ys" "ys \<noteq> []" "set ys \<inter> set xs = {}"
    "chain m (hd ys) ys z" "length xs + length ys < 2 ^ 32"
  shows "flist_rep (PushRange (m, f) (hd ys) (last ys) (of_nat (length ys))) (ys @ xs)"
proof -
  obtain ys' y where ys: "ys = ys' @ [y]" using assms(3) by (metis append_butlast_last_id)
  obtain z' where z': "chain m (fl_list f) xs z'" "blocks xs" "unat (fl_size f) = length xs"
    using assms(1) by (auto simp: flist_rep_def)
  let ?m = "pptr_set m y (fl_list f)"
  have y: "block_addr y" "y \<notin> set ys'" "y \<notin> set xs" "blocks ys'" using assms(2,4) by (auto simp: ys)
  have "chain m (hd ys) ys' y" using assms(5) by (auto simp: ys)
  then have "chain ?m (hd ys) ys' y" using y by (subst chain_set_other) (auto simp: blocks_def)
  then have "\<exists>z. chain ?m (hd ys) (ys @ xs) z"
    using chain_link [OF z'(1,2) y(1,3)] by (auto simp: ys)
  moreover have "unat (fl_size f + of_nat (length ys)) = length ys + length xs"
  proof -
    have "unat (of_nat (length ys) :: u32) = length ys"
      using assms(6) by (simp add: unsigned_of_nat take_bit_nat_eq_self)
    then show ?thesis using assms(6) z'(3) by (subst unat_add_lt) simp_all
  qed
  ultimately show ?thesis
    using assms(2,4) z'(2) by (auto simp: PushRange_def flist_rep_def ys)
qed

text \<open>The batch sizes that the constructor of the thread cache sets.\<close>

lemma cache_maxsize_class:
  assumes "i < NLIST"
  shows "2 \<le> unat (cache_maxsize (indextosize myclasssize ! i))" "unat (cache_maxsize (indextosize myclasssize ! i)) \<le> 2048"
    "unat (cache_maxsize (indextosize myclasssize ! i)) \<le> 65536 div class_bytes i"
proof -
  define b where "b = class_bytes i"
  have b: "8 \<le> b" "b \<le> 24576" and i: "i < 160"
    using assms class_bytes_bounds [of i] by (auto simp: b_def NLIST_def)
  have u: "unat (indextosize myclasssize ! i) = b" using i assms by (simp add: indextosize_class b_def)
  have q: "unat (SBSIZE div (indextosize myclasssize ! i)) = 65536 div b"
    by (simp add: unat_div_distrib SBSIZE_eq u)
  have small: "65536 div b < 2 ^ 32" by (rule le_less_trans [OF div_le_dividend]) simp
  then have t: "unat (ucast (SBSIZE div (indextosize myclasssize ! i)) :: u32) = 65536 div b"
    by (simp add: unsigned_ucast_eq q take_bit_nat_eq_self)
  have two: "2 \<le> 65536 div b" using b by (simp add: less_eq_div_iff_mult_less_eq)
  have max: "unat (cache_maxsize (indextosize myclasssize ! i)) =
      (if 65536 div b > 2048 then 2048 else if 65536 div b > 512 then 512 else 65536 div b)"
    by (simp add: cache_maxsize_def Let_def word_less_nat_alt t)
  show "2 \<le> unat (cache_maxsize (indextosize myclasssize ! i))" "unat (cache_maxsize (indextosize myclasssize ! i)) \<le> 2048"
    "unat (cache_maxsize (indextosize myclasssize ! i)) \<le> 65536 div class_bytes i"
    unfolding max b_def [symmetric] using two by auto
qed

lemma thread_cache_list:
  assumes "i < NLIST"
  shows "flist_rep (m, ThreadCache_init cs ! i) []" "Maxsize (ThreadCache_init cs ! i) = cache_maxsize (indextosize cs ! i)"
  using assms flist_rep_new [of m]
  by (simp_all add: ThreadCache_init_def SetMaxSize_def Maxsize_def FreeList_new_def flist_rep_def)

section \<open>Properties\<close>

text \<open>Pushing any batch of distinct fresh blocks onto a free list and popping as many returns them
  in reverse order and leaves the original list: the intrusive links survive the reuse of
  memory.\<close>

lemma FreeList_push_pop_batch:
  assumes "flist_rep s xs" "distinct ys" "set ys \<inter> set xs = {}" "\<forall>y\<in>set ys. block_addr y"
    "length xs + length ys < 2 ^ 32"
  shows "\<exists>s'. fl.pop_n (length ys) (foldl Push s ys) = Inr (rev ys, s') \<and> flist_rep s' xs"
  using assms by (intro fl.push_pop_batch) auto

lemma FreeList_push_pop_batch_witness:
  "\<exists>s'. fl.pop_n 2 (foldl Push ((\<lambda>_. 0), FreeList_new) [0x1000, 0x2000]) = Inr ([0x2000, 0x1000], s')
    \<and> flist_rep s' []"
proof -
  have "\<exists>s'. fl.pop_n (length [0x1000, 0x2000 :: u64]) (foldl Push ((\<lambda>_. 0), FreeList_new) [0x1000, 0x2000])
      = Inr (rev [0x1000, 0x2000], s') \<and> flist_rep s' []"
    by (rule FreeList_push_pop_batch)
      (simp_all add: flist_rep_new block_addr_def aligned8_def canonical_def)
  then show ?thesis by (simp add: eval_nat_numeral)
qed

text \<open>Every free list of a fresh thread cache is empty, and its batch size is between 2 and the
  number of blocks of a superblock of its class, so that a refill never asks for more than
  one superblock holds.\<close>

lemma ThreadCache_batch_bounds:
  assumes "i < NLIST"
  shows "let f = ThreadCache_init myclasssize ! i in
    flist_rep (m, f) [] \<and> 2 \<le> unat (Maxsize f) \<and> unat (Maxsize f) \<le> 2048
    \<and> unat (Maxsize f) * unat (indextosize myclasssize ! i) \<le> unat SBSIZE"
proof -
  have u: "unat (indextosize myclasssize ! i) = class_bytes i" using assms by (simp add: indextosize_class NLIST_def)
  have "n * class_bytes i \<le> 65536" if "n \<le> 65536 div class_bytes i" for n
    using that div_times_less_eq_dividend [of 65536 "class_bytes i"] by (meson mult_le_mono1 order_trans)
  then show ?thesis
    using cache_maxsize_class [OF assms] thread_cache_list [OF assms] by (simp add: u SBSIZE_eq)
qed

lemma ThreadCache_batch_bounds_witness:
  "let f = ThreadCache_init myclasssize ! 159 in
    flist_rep (\<lambda>_. 0, f) [] \<and> 2 \<le> unat (Maxsize f) \<and> unat (Maxsize f) \<le> 2048
    \<and> unat (Maxsize f) * unat (indextosize myclasssize ! 159) \<le> unat SBSIZE"
  by (rule ThreadCache_batch_bounds) (simp add: NLIST_def)

end
