(* ===== verification/Bx_Region.thy ===== *)
theory Bx_Region
  imports Bx_Pptr
begin

unbundle bit_operations_syntax

text \<open>
  Memory-mapped regions (\<open>src/src/RegionManager.hpp\<close>, \<open>src/src/RegionManager.cpp\<close>).  The first
  page of a region file holds three words: the \<open>atomic_pptr\<close> to the end of the used part, the
  offset of the heap start, and the file size.  Opening and mapping a file is the operating
  system's work: the address that \<open>mmap\<close> returns and the content of an existing file are
  arguments of the operations.  The allocator of a region is a bump pointer moved by one
  compare-and-exchange; what the cell holds at the time of the exchange is an argument, so
  that interference of other threads is covered.
\<close>

section \<open>State\<close>

definition PAGESIZE :: u64 where "PAGESIZE = 4096"
definition CACHELINE_SIZE :: u64 where "CACHELINE_SIZE = 64"

record region_file =
  rf_curr :: u64        \<comment> \<open>word 0: raw offset of \<open>curr_addr\<close>\<close>
  rf_heap_start :: u64  \<comment> \<open>word 1: heap start minus base\<close>
  rf_size :: u64        \<comment> \<open>word 2: \<open>FILESIZE\<close> when the file was created\<close>

record region =
  FILESIZE :: u64
  persist :: bool
  base_addr :: u64
  rfile :: region_file

definition curr_addr :: "region \<Rightarrow> u64" where
  "curr_addr r = atomic_pptr_load (base_addr r) (rf_curr (rfile r))"

section \<open>Mapping\<close>

definition file_size_for :: "u64 \<Rightarrow> u64" where
  "file_size_for sz = (sz div PAGESIZE + 2) * PAGESIZE"

definition map_persistent_region :: "u64 \<Rightarrow> bool \<Rightarrow> u64 \<Rightarrow> region" where
  "map_persistent_region filesize p addr =
     \<lparr>FILESIZE = filesize, persist = p, base_addr = addr,
      rfile = \<lparr>rf_curr = atomic_pptr_store addr (addr + PAGESIZE), rf_heap_start = 0, rf_size = filesize\<rparr>\<rparr>"

definition remap_persistent_region :: "u64 \<Rightarrow> bool \<Rightarrow> region_file \<Rightarrow> u64 \<Rightarrow> region result" where
  "remap_persistent_region filesize p file addr =
     bindE (assertE ''size == FILESIZE'' (rf_size file = filesize)) (\<lambda>_.
       Inr \<lparr>FILESIZE = filesize, persist = p, base_addr = addr, rfile = file\<rparr>)"

text \<open>The transient variants differ from the persistent ones in the flags given to \<open>mmap\<close> only.\<close>

definition map_transient_region :: "u64 \<Rightarrow> bool \<Rightarrow> u64 \<Rightarrow> region" where
  "map_transient_region filesize p addr =
     \<lparr>FILESIZE = filesize, persist = p, base_addr = addr,
      rfile = \<lparr>rf_curr = atomic_pptr_store addr (addr + PAGESIZE), rf_heap_start = 0, rf_size = filesize\<rparr>\<rparr>"

definition remap_transient_region :: "u64 \<Rightarrow> bool \<Rightarrow> region_file \<Rightarrow> u64 \<Rightarrow> region result" where
  "remap_transient_region filesize p file addr =
     bindE (assertE ''size == FILESIZE'' (rf_size file = filesize)) (\<lambda>_.
       Inr \<lparr>FILESIZE = filesize, persist = p, base_addr = addr, rfile = file\<rparr>)"

text \<open>Closing flushes the first page and unmaps: the content of the file remains.\<close>

definition close_persistent_region :: "region \<Rightarrow> region_file" where
  "close_persistent_region r = rfile r"

definition close_transient_region :: "region \<Rightarrow> region_file" where
  "close_transient_region r = rfile r"

definition RegionManager_delete :: "region \<Rightarrow> region_file" where
  "RegionManager_delete r = (if persist r then close_persistent_region r else close_transient_region r)"

definition store_heap_start :: "region \<Rightarrow> u64 \<Rightarrow> region" where
  "store_heap_start r root = r\<lparr>rfile := (rfile r)\<lparr>rf_heap_start := root - base_addr r\<rparr>\<rparr>"

definition fetch_heap_start :: "region \<Rightarrow> u64" where
  "fetch_heap_start r = rf_heap_start (rfile r) + base_addr r"

section \<open>The region allocator\<close>

text \<open>
  Result: \<open>1\<close> and the address on success, \<open>0\<close> when the exchange failed, \<open>-1\<close> when the request
  is illegal or does not fit.  \<open>now\<close> is the content of the cell at the exchange.
\<close>

definition nvm_region_allocator :: "region \<Rightarrow> u64 \<Rightarrow> u64 \<Rightarrow> u64 \<Rightarrow> int \<times> u64 option \<times> region" where
  "nvm_region_allocator r now alignment sz =
     (if sz \<le> 0 then (-1, None, r)
      else if alignment AND (NOT alignment + 1) \<noteq> alignment \<or> alignment < 8 then (-1, None, r)
      else
        let old_curr_addr = curr_addr r;
            aln_adj = old_curr_addr AND (alignment - 1);
            res = (if aln_adj \<noteq> 0 then old_curr_addr + (alignment - aln_adj) else old_curr_addr);
            next = res + sz
        in if next > base_addr r + FILESIZE r then (-1, None, r)
           else case atomic_pptr_compare_exchange_strong (base_addr r) now old_curr_addr next of
             (True, new, _) \<Rightarrow> (1, Some res, r\<lparr>rfile := (rfile r)\<lparr>rf_curr := new\<rparr>\<rparr>)
           | (False, new, _) \<Rightarrow> (0, None, r\<lparr>rfile := (rfile r)\<lparr>rf_curr := new\<rparr>\<rparr>))"

definition try_nvm_region_allocator :: "region \<Rightarrow> u64 \<Rightarrow> u64 \<Rightarrow> u64 \<Rightarrow> int \<times> u64 option \<times> region" where
  "try_nvm_region_allocator r now alignment sz =
     (if sz \<le> 0 then (-1, None, r)
      else if alignment AND (NOT alignment + 1) \<noteq> alignment \<or> alignment < 8 then (-1, None, r)
      else
        let old_curr_addr = curr_addr r;
            aln_adj = old_curr_addr AND (alignment - 1);
            res = (if aln_adj \<noteq> 0 then old_curr_addr + (alignment - aln_adj) else old_curr_addr);
            next = res + sz
        in if next > base_addr r + FILESIZE r then (-1, None, r)
           else case atomic_pptr_compare_exchange_strong (base_addr r) now old_curr_addr next of
             (True, new, _) \<Rightarrow> (0, Some res, r\<lparr>rfile := (rfile r)\<lparr>rf_curr := new\<rparr>\<rparr>)
           | (False, new, _) \<Rightarrow> (1, None, r\<lparr>rfile := (rfile r)\<lparr>rf_curr := new\<rparr>\<rparr>))"

definition within_range :: "region \<Rightarrow> u64 \<Rightarrow> bool" where
  "within_range r ptr \<longleftrightarrow> sint (base_addr r) < sint ptr \<and> sint ptr < sint (curr_addr r)"

text \<open>
  The constructor.  The result of the first allocation is converted to \<open>bool\<close>, so that only
  \<open>0\<close> is seen as a failure; after \<open>-1\<close> the heap start is stored from a pointer that was never
  assigned.
\<close>

definition RegionManager_new ::
    "region_file option \<Rightarrow> u64 \<Rightarrow> u64 \<Rightarrow> bool \<Rightarrow> bool \<Rightarrow> region result" where
  "RegionManager_new file addr sz p imm_expand =
     (let fs = file_size_for sz in
      case file of
        Some f \<Rightarrow> (if p then remap_persistent_region fs p f addr else remap_transient_region fs p f addr)
      | None \<Rightarrow>
          let r = (if p then map_persistent_region fs p addr else map_transient_region fs p addr) in
          if imm_expand then
            (case nvm_region_allocator r (rf_curr (rfile r)) CACHELINE_SIZE sz of
               (res, t, r') \<Rightarrow>
                 bindE (assertE ''region allocation fails!'' (res \<noteq> 0)) (\<lambda>_.
                 case t of None \<Rightarrow> Inl Uninitialised | Some a \<Rightarrow> Inr (store_heap_start r' a)))
          else Inr r)"

section \<open>The table of regions\<close>

datatype region_index = DESC_IDX | SB_IDX | LAR_SB_IDX | QUEUE_IDX | META_IDX

fun idx_no :: "region_index \<Rightarrow> nat" where
  "idx_no DESC_IDX = 0" | "idx_no SB_IDX = 1" | "idx_no LAR_SB_IDX = 2"
| "idx_no QUEUE_IDX = 3" | "idx_no META_IDX = 4"

definition LAST_IDX :: nat where "LAST_IDX = 5"

record regions =
  rgs :: "region option list"
  regions_address :: "u64 list"
  cur_idx :: nat

definition Regions_new :: regions where
  "Regions_new = \<lparr>rgs = replicate LAST_IDX None, regions_address = replicate LAST_IDX 0, cur_idx = 0\<rparr>"

fun destroy_upto :: "nat \<Rightarrow> regions \<Rightarrow> regions" where
  "destroy_upto 0 R = R"
| "destroy_upto (Suc n) R = (let R = destroy_upto n R in
     R\<lparr>rgs := (rgs R)[n := None], regions_address := (regions_address R)[n := 0]\<rparr>)"

definition Regions_destroy :: "regions \<Rightarrow> regions" where
  "Regions_destroy R = (destroy_upto (cur_idx R) R)\<lparr>cur_idx := 0\<rparr>"

definition Regions_delete :: "regions \<Rightarrow> regions" where
  "Regions_delete R = (destroy_upto (cur_idx R) R)\<lparr>cur_idx := 0\<rparr>"

definition Regions_create ::
    "regions \<Rightarrow> region_file option \<Rightarrow> u64 \<Rightarrow> u64 \<Rightarrow> bool \<Rightarrow> bool \<Rightarrow> regions result" where
  "Regions_create R file addr sz p imm_expand =
     (if cur_idx R \<ge> LAST_IDX then Inl OutOfBounds else
      let restart = (file \<noteq> None) in
      bindE (RegionManager_new file addr sz p imm_expand) (\<lambda>new_mgr.
      Inr (R\<lparr>rgs := (rgs R)[cur_idx R := Some new_mgr],
             regions_address := (regions_address R)[cur_idx R :=
               if imm_expand \<or> restart then fetch_heap_start new_mgr else 0],
             cur_idx := cur_idx R + 1\<rparr>)))"

text \<open>
  \<open>create_for\<close> also runs the constructor of the object when the file is new; the flag that
  says so is returned beside the address.
\<close>

definition Regions_create_for ::
    "regions \<Rightarrow> region_file option \<Rightarrow> u64 \<Rightarrow> u64 \<Rightarrow> bool \<Rightarrow> (u64 \<times> bool \<times> regions) result" where
  "Regions_create_for R file addr sz p =
     (if cur_idx R \<ge> LAST_IDX then Inl OutOfBounds else
      let restart = (file \<noteq> None) in
      bindE (RegionManager_new file addr sz p True) (\<lambda>new_mgr.
      let t = fetch_heap_start new_mgr in
      Inr (t, \<not> restart,
           R\<lparr>rgs := (rgs R)[cur_idx R := Some new_mgr],
             regions_address := (regions_address R)[cur_idx R := t],
             cur_idx := cur_idx R + 1\<rparr>)))"

definition Regions_lookup :: "regions \<Rightarrow> region_index \<Rightarrow> u64" where
  "Regions_lookup R i = regions_address R ! idx_no i"

definition Regions_translate :: "regions \<Rightarrow> region_index \<Rightarrow> u64 \<Rightarrow> u64" where
  "Regions_translate R i rel = regions_address R ! idx_no i + rel"

definition Regions_untranslate :: "regions \<Rightarrow> region_index \<Rightarrow> u64 \<Rightarrow> u64" where
  "Regions_untranslate R i absolute = absolute - regions_address R ! idx_no i"

definition Regions_expand ::
    "regions \<Rightarrow> region_index \<Rightarrow> u64 \<Rightarrow> u64 \<Rightarrow> u64 \<Rightarrow> (int \<times> u64 option \<times> regions) result" where
  "Regions_expand R i now alignment sz =
     (case rgs R ! idx_no i of
        None \<Rightarrow> Inl NullDeref
      | Some r \<Rightarrow> (case nvm_region_allocator r now alignment sz of
          (res, a, r') \<Rightarrow> Inr (res, a, R\<lparr>rgs := (rgs R)[idx_no i := Some r']\<rparr>)))"

definition Regions_in_range :: "regions \<Rightarrow> region_index \<Rightarrow> u64 \<Rightarrow> bool result" where
  "Regions_in_range R i ptr =
     (if \<not> ptr \<ge> regions_address R ! idx_no i then Inr False
      else case rgs R ! idx_no i of
        None \<Rightarrow> Inl NullDeref
      | Some r \<Rightarrow> Inr (ptr < curr_addr r))"

text \<open>
  The cache lines that \<open>flush_region\<close> writes back, in order, and the lines that the loops of
  \<open>BaseMeta::writeback\<close> and of the garbage collector write back for an object of \<open>n\<close> lines:
  these two advance the address before the flush.
\<close>

definition flush_region_lines :: "u64 \<Rightarrow> u64 \<Rightarrow> u64 list" where
  "flush_region_lines addr ending =
     map (\<lambda>i. addr + of_nat i * CACHELINE_SIZE) [0..<(unat (ending - addr) + 63) div 64]"

definition Regions_flush_region :: "regions \<Rightarrow> region_index \<Rightarrow> u64 list result" where
  "Regions_flush_region R i =
     (case rgs R ! idx_no i of
        None \<Rightarrow> Inl NullDeref
      | Some r \<Rightarrow>
          let addr = regions_address R ! idx_no i; ending = curr_addr r in
          Inr (if addr < ending then flush_region_lines addr ending else []))"

section \<open>Invariant\<close>

definition region_ok :: "region \<Rightarrow> bool" where
  "region_ok r \<longleftrightarrow>
     unat (base_addr r) + unat (FILESIZE r) < 2 ^ 48
     \<and> unat (base_addr r) + 4096 \<le> unat (curr_addr r)
     \<and> unat (curr_addr r) \<le> unat (base_addr r) + unat (FILESIZE r)
     \<and> rf_curr (rfile r) = atomic_pptr_store (base_addr r) (curr_addr r)
     \<and> rf_size (rfile r) = FILESIZE r"

definition align_up :: "u64 \<Rightarrow> nat \<Rightarrow> u64" where
  "align_up a k = (let adj = a AND (2 ^ k - 1) in if adj \<noteq> 0 then a + (2 ^ k - adj) else a)"

lemma align_up_spec:
  assumes "unat a < 2 ^ 48" "k < 48"
  shows "unat (align_up a k) mod 2 ^ k = 0" "unat a \<le> unat (align_up a k)"
    "unat (align_up a k) < unat a + 2 ^ k"
proof -
  define adj where "adj = unat a mod 2 ^ k"
  have pow: "(2::nat) ^ k < 2 ^ 48" using assms(2) by (rule power_strict_increasing) simp
  have m: "unat (a AND (2 ^ k - 1)) = adj"
    by (simp add: adj_def unat_and_mask flip: mask_eq_exp_minus_1)
  have lt: "adj < 2 ^ k" by (simp add: adj_def)
  have u2: "unat (2 ^ k :: u64) = 2 ^ k" using assms(2) by (simp add: unat_2_exp)
  have sub: "unat (2 ^ k - (a AND (2 ^ k - 1))) = 2 ^ k - adj"
    using lt by (subst unat_sub_le) (simp_all add: word_le_nat_alt m u2)
  have val: "unat (align_up a k) = (if adj = 0 then unat a else unat a + (2 ^ k - adj))"
  proof (cases "adj = 0")
    case True
    then show ?thesis using m by (simp add: align_up_def Let_def unat_0_iff)
  next
    case False
    then have "a AND (2 ^ k - 1) \<noteq> 0" using m by auto
    moreover have "unat (a + (2 ^ k - (a AND (2 ^ k - 1)))) = unat a + (2 ^ k - adj)"
      using assms(1) pow by (subst unat_add_lt) (simp_all add: sub)
    ultimately show ?thesis using False by (simp add: align_up_def Let_def)
  qed
  show "unat a \<le> unat (align_up a k)" "unat (align_up a k) < unat a + 2 ^ k"
    using val lt by auto
  have "unat a = unat a div 2 ^ k * 2 ^ k + adj"
    unfolding adj_def by (rule div_mult_mod_eq [symmetric])
  then have "unat a + (2 ^ k - adj) = unat a div 2 ^ k * 2 ^ k + 2 ^ k" using lt by linarith
  then have "(unat a + (2 ^ k - adj)) mod 2 ^ k = 0"
    by (simp only: mod_add_self2 mod_mult_self2_is_0)
  then show "unat (align_up a k) mod 2 ^ k = 0"
    using val by (auto simp: adj_def)
qed

lemma pow2_test: "k < 64 \<Longrightarrow> (2 ^ k :: u64) AND (NOT (2 ^ k) + 1) = 2 ^ k"
proof -
  assume "k < 64"
  have "NOT (2 ^ k :: u64) + 1 = - (2 ^ k)" by (simp add: minus_eq_not_plus_1)
  also have "\<dots> = NOT (mask k)" by (simp add: minus_exp_eq_not_mask)
  finally show ?thesis
    using \<open>k < 64\<close> by (intro bit_word_eqI) (auto simp: bit_simps)
qed

text \<open>The outcome of a request with a power-of-two alignment, on every branch.\<close>

lemma allocator_cases:
  assumes "alignment = 2 ^ k" "3 \<le> k" "k < 48" "0 < sz"
  shows "nvm_region_allocator r now alignment sz =
    (let res = align_up (curr_addr r) k; next = res + sz in
     if next > base_addr r + FILESIZE r then (-1, None, r)
     else if now = atomic_pptr_store (base_addr r) (curr_addr r)
       then (1, Some res, r\<lparr>rfile := (rfile r)\<lparr>rf_curr := atomic_pptr_store (base_addr r) next\<rparr>\<rparr>)
       else (0, None, r\<lparr>rfile := (rfile r)\<lparr>rf_curr := now\<rparr>\<rparr>))"
proof -
  have "(8::nat) \<le> 2 ^ k" using power_increasing [OF assms(2), of "2::nat"] by simp
  then have "\<not> (2 ^ k :: u64) < 8"
    using assms(3) by (simp add: word_less_nat_alt unat_2_exp)
  moreover have "\<not> sz \<le> 0" using assms(4) by (simp add: not_le)
  ultimately show ?thesis
    using assms(1,3) pow2_test [of k]
    by (simp add: nvm_region_allocator_def align_up_def Let_def atomic_pptr_store_def
        atomic_pptr_compare_exchange_strong_def)
qed

lemma region_ok_success:
  assumes ok: "region_ok r" and a: "alignment = 2 ^ k" "3 \<le> k" "k < 48" "0 < sz" "unat sz < 2 ^ 48"
    and r: "nvm_region_allocator r now alignment sz = (1, Some p, r')"
  shows "region_ok r'" "p = align_up (curr_addr r) k" "unat (curr_addr r') = unat p + unat sz"
    "base_addr r' = base_addr r" "FILESIZE r' = FILESIZE r"
proof -
  let ?res = "align_up (curr_addr r) k" and ?next = "align_up (curr_addr r) k + sz"
  have c: "unat (curr_addr r) < 2 ^ 48" using ok by (simp add: region_ok_def)
  note up = align_up_spec [OF c a(3)]
  have pow: "(2::nat) ^ k < 2 ^ 48" using a(3) by (rule power_strict_increasing) simp
  have un: "unat ?next = unat ?res + unat sz"
    using up(3) c pow a(5) by (subst unat_add_lt) simp_all
  have ub: "unat (base_addr r + FILESIZE r) = unat (base_addr r) + unat (FILESIZE r)"
    using ok by (subst unat_add_lt) (simp_all add: region_ok_def)
  from r have fit: "\<not> ?next > base_addr r + FILESIZE r" and p: "p = ?res"
    and r': "r' = r\<lparr>rfile := (rfile r)\<lparr>rf_curr := atomic_pptr_store (base_addr r) ?next\<rparr>\<rparr>"
    unfolding allocator_cases [OF a(1-4)] Let_def by (auto split: if_splits)
  have le: "unat ?next \<le> unat (base_addr r) + unat (FILESIZE r)"
    using fit by (simp add: word_less_nat_alt ub un)
  have can: "canonical ?next" "canonical (base_addr r)"
    using le ok by (auto simp: canonical_def region_ok_def)
  have cur: "curr_addr r' = ?next"
    using can by (simp add: curr_addr_def r' atomic_pptr_store_def atomic_pptr_load_def)
  have "unat (curr_addr r) \<le> unat ?next" using un up(2) by simp
  then show "region_ok r'" using ok le cur by (simp add: region_ok_def r')
  show "p = align_up (curr_addr r) k" "unat (curr_addr r') = unat p + unat sz"
    "base_addr r' = base_addr r" "FILESIZE r' = FILESIZE r"
    using p cur un by (simp_all add: r')
qed

lemma align_up_self: "unat a < 2 ^ 48 \<Longrightarrow> k < 48 \<Longrightarrow> unat a mod 2 ^ k = 0 \<Longrightarrow> align_up a k = a"
  by (simp add: align_up_def Let_def unat_and_mask word_unat_eq_iff flip: mask_eq_exp_minus_1)

text \<open>The file always has room for the header page and the first request.\<close>

lemma file_size_room:
  assumes "unat sz < 2 ^ 40"
  shows "unat sz + 4096 \<le> unat (file_size_for sz)" "unat (file_size_for sz) \<le> unat sz + 8192"
proof -
  define q where "q = unat sz div 4096"
  have q: "4096 * q \<le> unat sz" "unat sz < 4096 * q + 4096"
    using div_mult_mod_eq [of "unat sz" 4096] mod_less_divisor [of 4096 "unat sz"]
    by (simp_all add: q_def)
  have "unat (sz div PAGESIZE + 2) = q + 2"
    using q assms by (subst unat_add_lt) (simp_all add: PAGESIZE_def unat_div_distrib q_def)
  then have fs: "unat (file_size_for sz) = (q + 2) * 4096"
    unfolding file_size_for_def using q assms
    by (subst unat_mult_lem [THEN iffD1]) (simp_all add: PAGESIZE_def)
  show "unat sz + 4096 \<le> unat (file_size_for sz)" "unat (file_size_for sz) \<le> unat sz + 8192"
    unfolding fs using q by simp_all
qed

section \<open>The contract of a region\<close>

text \<open>
  Clients see a region as a bump allocator: a request returns an aligned range that starts at
  or above the old top and ends at the new one, within a fixed limit.  From that, the ranges
  of any sequence of requests follow one another without overlap.
\<close>

locale bump =
  fixes ok :: "'r \<Rightarrow> bool" and top :: "'r \<Rightarrow> nat" and lim :: "'r \<Rightarrow> nat"
    and alloc :: "'r \<Rightarrow> nat \<times> u64 \<Rightarrow> ('r \<times> u64) option"
    and legal :: "nat \<times> u64 \<Rightarrow> bool"
  assumes alloc_law: "ok r \<Longrightarrow> legal (k, sz) \<Longrightarrow> alloc r (k, sz) = Some (r', p) \<Longrightarrow>
      ok r' \<and> top r \<le> unat p \<and> unat p mod 2 ^ k = 0 \<and> top r' = unat p + unat sz \<and> lim r' = lim r"
    and top_lim: "ok r \<Longrightarrow> top r \<le> lim r"
begin

fun alloc_run :: "'r \<Rightarrow> (nat \<times> u64) list \<Rightarrow> (u64 \<times> u64) list" where
  "alloc_run r [] = []"
| "alloc_run r ((k, sz) # qs) =
     (case alloc r (k, sz) of None \<Rightarrow> alloc_run r qs | Some (r', p) \<Rightarrow> (p, sz) # alloc_run r' qs)"

lemma alloc_run_within:
  assumes "ok r" "\<forall>q\<in>set qs. legal q" "(p, s) \<in> set (alloc_run r qs)"
  shows "top r \<le> unat p \<and> unat p + unat s \<le> lim r"
  using assms
proof (induction qs arbitrary: r)
  case Nil
  then show ?case by simp
next
  case (Cons q qs)
  obtain k sz where q: "q = (k, sz)" by (cases q)
  show ?case
  proof (cases "alloc r (k, sz)")
    case None
    then show ?thesis using Cons q by auto
  next
    case (Some y)
    then obtain r' a where a: "alloc r (k, sz) = Some (r', a)" by (cases y) auto
    have law: "ok r'" "top r \<le> unat a" "top r' = unat a + unat sz" "lim r' = lim r"
      using alloc_law [OF Cons.prems(1) _ a] Cons.prems(2) q by auto
    consider "p = a" "s = sz" | "(p, s) \<in> set (alloc_run r' qs)" using Cons.prems(3) q a by auto
    then show ?thesis
    proof cases
      case 1
      then show ?thesis using law top_lim [OF law(1)] by simp
    next
      case 2
      then show ?thesis using Cons.IH [OF law(1) _ 2] Cons.prems(2) law by auto
    qed
  qed
qed

lemma alloc_run_disjoint:
  assumes "ok r" "\<forall>q\<in>set qs. legal q"
  shows "sorted_wrt (\<lambda>(p, s) (q, t). unat p + unat s \<le> unat q) (alloc_run r qs)"
  using assms
proof (induction qs arbitrary: r)
  case Nil
  then show ?case by simp
next
  case (Cons q qs)
  obtain k sz where q: "q = (k, sz)" by (cases q)
  show ?case
  proof (cases "alloc r (k, sz)")
    case None
    then show ?thesis using Cons q by auto
  next
    case (Some y)
    then obtain r' a where a: "alloc r (k, sz) = Some (r', a)" by (cases y) auto
    have law: "ok r'" "top r' = unat a + unat sz"
      using alloc_law [OF Cons.prems(1) _ a] Cons.prems(2) q by auto
    then show ?thesis
      using Cons.IH [OF law(1)] Cons.prems(2) alloc_run_within [OF law(1), of qs] by (auto simp: q a)
  qed
qed

end

definition region_request :: "region \<Rightarrow> nat \<times> u64 \<Rightarrow> (region \<times> u64) option" where
  "region_request r q = (case nvm_region_allocator r (rf_curr (rfile r)) (2 ^ fst q) (snd q) of
     (res, Some p, r') \<Rightarrow> (if res = 1 then Some (r', p) else None) | (_, None, _) \<Rightarrow> None)"

definition legal_request :: "nat \<times> u64 \<Rightarrow> bool" where
  "legal_request q \<longleftrightarrow> 3 \<le> fst q \<and> fst q < 48 \<and> 0 < snd q \<and> unat (snd q) < 2 ^ 48"

interpretation rg: bump region_ok "\<lambda>r. unat (curr_addr r)"
  "\<lambda>r. unat (base_addr r) + unat (FILESIZE r)" region_request legal_request
proof
  fix r k sz r' p
  assume r: "region_ok r" "legal_request (k, sz)" "region_request r (k, sz) = Some (r', p)"
  then have "nvm_region_allocator r (rf_curr (rfile r)) (2 ^ k) sz = (1, Some p, r')"
    by (auto simp: region_request_def split: prod.splits option.splits if_splits)
  from region_ok_success [OF r(1) refl _ _ _ _ this] r(2)
  have "region_ok r'" "p = align_up (curr_addr r) k" "unat (curr_addr r') = unat p + unat sz"
    "base_addr r' = base_addr r" "FILESIZE r' = FILESIZE r"
    by (auto simp: legal_request_def)
  moreover have "unat (curr_addr r) < 2 ^ 48" using r(1) by (simp add: region_ok_def)
  ultimately show "region_ok r' \<and> unat (curr_addr r) \<le> unat p \<and> unat p mod 2 ^ k = 0
      \<and> unat (curr_addr r') = unat p + unat sz
      \<and> unat (base_addr r') + unat (FILESIZE r') = unat (base_addr r) + unat (FILESIZE r)"
    using r(2) align_up_spec [of "curr_addr r" k] by (simp add: legal_request_def)
qed (simp add: region_ok_def)

section \<open>Properties\<close>

text \<open>C29: The region allocator on every branch: with a power-of-two alignment of at least 8 it either
  reports \<open>-1\<close> because the aligned request does not fit, and changes nothing; or loses the race
  and reports \<open>0\<close>, leaving the other thread's value; or returns an aligned range above the old
  end and within the file, moves the end just behind it, and keeps the region's invariant.\<close>

theorem nvm_region_allocator_spec:
  assumes "region_ok r" "3 \<le> k" "k < 48" "0 < sz" "unat sz < 2 ^ 48"
  shows "case nvm_region_allocator r now (2 ^ k) sz of (res, a, r') \<Rightarrow>
    (res = -1 \<and> a = None \<and> r' = r \<and>
       unat (align_up (curr_addr r) k) + unat sz > unat (base_addr r) + unat (FILESIZE r))
    \<or> (res = 0 \<and> a = None \<and> now \<noteq> rf_curr (rfile r) \<and> rf_curr (rfile r') = now)
    \<or> (res = 1 \<and> now = rf_curr (rfile r) \<and> region_ok r' \<and>
       (\<exists>p. a = Some p \<and> unat p mod 2 ^ k = 0 \<and> unat (curr_addr r) \<le> unat p
          \<and> unat p + unat sz = unat (curr_addr r')
          \<and> unat (curr_addr r') \<le> unat (base_addr r) + unat (FILESIZE r)))"
proof -
  have c: "unat (curr_addr r) < 2 ^ 48" using assms(1) by (simp add: region_ok_def)
  note up = align_up_spec [OF c assms(3)]
  have pow: "(2::nat) ^ k < 2 ^ 48" using assms(3) by (rule power_strict_increasing) simp
  have un: "unat (align_up (curr_addr r) k + sz) = unat (align_up (curr_addr r) k) + unat sz"
    using up(3) c pow assms(5) by (subst unat_add_lt) simp_all
  have ub: "unat (base_addr r + FILESIZE r) = unat (base_addr r) + unat (FILESIZE r)"
    using assms(1) by (subst unat_add_lt) (simp_all add: region_ok_def)
  note cases = allocator_cases [OF refl assms(2-4), of r now]
  have cur: "rf_curr (rfile r) = atomic_pptr_store (base_addr r) (curr_addr r)"
    using assms(1) by (simp add: region_ok_def)
  show ?thesis
  proof (cases "align_up (curr_addr r) k + sz > base_addr r + FILESIZE r")
    case True
    then show ?thesis by (simp add: cases Let_def word_less_nat_alt un ub)
  next
    case fits: False
    show ?thesis
    proof (cases "now = rf_curr (rfile r)")
      case False
      with fits show ?thesis by (simp add: cases Let_def cur)
    next
      case True
      then obtain p r' where e: "nvm_region_allocator r now (2 ^ k) sz = (1, Some p, r')"
        unfolding cases Let_def using fits cur by simp
      note ok = region_ok_success [OF assms(1) refl assms(2-5) e]
      then have "unat (curr_addr r') \<le> unat (base_addr r) + unat (FILESIZE r)"
        by (simp add: region_ok_def)
      with ok up True show ?thesis unfolding e by simp
    qed
  qed
qed

definition sample_region :: region where
  "sample_region = map_persistent_region 0x10000 True 0x7f0000000000"

lemma sample_region_ok: "region_ok sample_region"
  by (simp add: sample_region_def map_persistent_region_def region_ok_def curr_addr_def
      atomic_pptr_load_def atomic_pptr_store_def PAGESIZE_def canonical_def)

theorem nvm_region_allocator_spec_witness:
  "case nvm_region_allocator sample_region (rf_curr (rfile sample_region)) (2 ^ 6) 100 of (res, a, r') \<Rightarrow>
    (res = -1 \<and> a = None \<and> r' = sample_region \<and>
       unat (align_up (curr_addr sample_region) 6) + unat (100::u64)
         > unat (base_addr sample_region) + unat (FILESIZE sample_region))
    \<or> (res = 0 \<and> a = None \<and> rf_curr (rfile sample_region) \<noteq> rf_curr (rfile sample_region)
         \<and> rf_curr (rfile r') = rf_curr (rfile sample_region))
    \<or> (res = 1 \<and> rf_curr (rfile sample_region) = rf_curr (rfile sample_region) \<and> region_ok r' \<and>
       (\<exists>p. a = Some p \<and> unat p mod 2 ^ 6 = 0 \<and> unat (curr_addr sample_region) \<le> unat p
          \<and> unat p + unat (100::u64) = unat (curr_addr r')
          \<and> unat (curr_addr r') \<le> unat (base_addr sample_region) + unat (FILESIZE sample_region)))"
  by (rule nvm_region_allocator_spec [OF sample_region_ok]) simp_all

text \<open>C30: All ranges that a region hands out over any sequence of requests lie inside the file and
  are pairwise disjoint.\<close>

theorem region_ranges_disjoint:
  assumes "region_ok r" "\<forall>q\<in>set qs. legal_request q"
  shows "sorted_wrt (\<lambda>(p, s) (q, t). unat p + unat s \<le> unat q) (rg.alloc_run r qs)
    \<and> (\<forall>(p, s)\<in>set (rg.alloc_run r qs). unat (curr_addr r) \<le> unat p
          \<and> unat p + unat s \<le> unat (base_addr r) + unat (FILESIZE r))"
  using rg.alloc_run_disjoint [OF assms] rg.alloc_run_within [OF assms] by auto

theorem region_ranges_disjoint_witness:
  "sorted_wrt (\<lambda>(p, s) (q, t). unat p + unat s \<le> unat q) (rg.alloc_run sample_region [(6, 100), (12, 4096)])"
  by (rule region_ranges_disjoint [OF sample_region_ok, THEN conjunct1]) (simp add: legal_request_def)

text \<open>
  The first allocation in a freshly mapped region, at an alignment that the address of the mapping
  has, takes the bytes right behind the header page: the file size leaves room for them.
\<close>

lemma fresh_region_alloc:
  assumes "0 < unat sz" "unat sz < 2 ^ 40" "unat addr < 2 ^ 47" "unat addr mod 2 ^ k = 0" "3 \<le> k" "k \<le> 12"
    "r = map_persistent_region (file_size_for sz) p addr \<or> r = map_transient_region (file_size_for sz) p addr"
  shows "\<exists>r'. nvm_region_allocator r (rf_curr (rfile r)) (2 ^ k) sz = (1, Some (addr + 4096), r') \<and> region_ok r'
    \<and> unat (curr_addr r') = unat addr + 4096 + unat sz \<and> base_addr r' = addr \<and> FILESIZE r' = file_size_for sz"
proof -
  note room = file_size_room [OF assms(2)]
  have r: "base_addr r = addr" "FILESIZE r = file_size_for sz"
    "rf_curr (rfile r) = atomic_pptr_store addr (addr + 4096)" "rf_size (rfile r) = file_size_for sz"
    using assms(7) by (auto simp: map_persistent_region_def map_transient_region_def PAGESIZE_def)
  have ua: "unat (addr + 4096) = unat addr + 4096" using assms(3) by (subst unat_add_lt) simp_all
  have can: "canonical addr" "canonical (addr + 4096)" using assms(3) by (simp_all add: canonical_def ua)
  have cur: "curr_addr r = addr + 4096"
    using can by (simp add: curr_addr_def r atomic_pptr_load_def atomic_pptr_store_def)
  have ok: "region_ok r" using room assms(2,3) by (simp add: region_ok_def r cur ua)
  have up: "align_up (addr + 4096) k = addr + 4096"
  proof -
    have "(2 :: nat) ^ k dvd 2 ^ 12" using assms(6) by (rule le_imp_power_dvd)
    then have "(unat addr + 4096) mod 2 ^ k = 0" using assms(4) by (auto simp: mod_eq_0_iff_dvd)
    then show ?thesis using assms(3,6) by (subst align_up_self) (simp_all add: ua)
  qed
  have "unat (addr + 4096 + sz) = unat addr + 4096 + unat sz"
    using assms(2,3) by (subst unat_add_lt) (simp_all add: ua)
  moreover have "unat (addr + file_size_for sz) = unat addr + unat (file_size_for sz)"
    using assms(2,3) room by (subst unat_add_lt) simp_all
  ultimately have "\<not> addr + 4096 + sz > addr + file_size_for sz"
    using room by (simp add: word_less_nat_alt)
  then obtain r' where a: "nvm_region_allocator r (rf_curr (rfile r)) (2 ^ k) sz = (1, Some (addr + 4096), r')"
    using allocator_cases [of "2 ^ k" k sz r "rf_curr (rfile r)"] assms(1,5,6)
    by (simp add: up r cur Let_def word_gt_0 unat_gt_0)
  then show ?thesis
    using region_ok_success [OF ok _ _ _ _ _ a, of k] assms(1,2,5,6)
    by (auto simp: word_gt_0 unat_gt_0 ua r up cur)
qed

lemma RegionManager_new_fresh:
  assumes "0 < unat sz" "unat sz < 2 ^ 40" "unat addr < 2 ^ 47" "unat addr mod 64 = 0"
  shows "\<exists>r. RegionManager_new None addr sz p True = Inr r \<and> region_ok r \<and> base_addr r = addr \<and> FILESIZE r = file_size_for sz
    \<and> fetch_heap_start r = addr + 4096 \<and> unat (curr_addr r) = unat addr + 4096 + unat sz"
proof -
  define r where "r = (if p then map_persistent_region (file_size_for sz) p addr
    else map_transient_region (file_size_for sz) p addr)"
  have "r = map_persistent_region (file_size_for sz) p addr \<or> r = map_transient_region (file_size_for sz) p addr"
    by (simp add: r_def)
  then obtain r' where a: "nvm_region_allocator r (rf_curr (rfile r)) (2 ^ 6) sz = (1, Some (addr + 4096), r')" "region_ok r'"
      "unat (curr_addr r') = unat addr + 4096 + unat sz" "base_addr r' = addr" "FILESIZE r' = file_size_for sz"
    using fresh_region_alloc [OF assms(1-3), of 6 r p] assms(4) by auto
  have "RegionManager_new None addr sz p True = Inr (store_heap_start r' (addr + 4096))"
    using a(1) by (simp add: RegionManager_new_def Let_def r_def [symmetric] CACHELINE_SIZE_def)
  moreover have "region_ok (store_heap_start r' (addr + 4096))"
    "curr_addr (store_heap_start r' (addr + 4096)) = curr_addr r'"
    "fetch_heap_start (store_heap_start r' (addr + 4096)) = addr + 4096"
    "base_addr (store_heap_start r' (addr + 4096)) = addr" "FILESIZE (store_heap_start r' (addr + 4096)) = FILESIZE r'"
    using a(2,4) by (simp_all add: region_ok_def store_heap_start_def curr_addr_def fetch_heap_start_def)
  ultimately show ?thesis using a(3,5) by auto
qed

text \<open>C31: Remapping: a region that is closed and later mapped at another address keeps its invariant,
  and the end of its used part and its heap start are at the same distance from the new base.\<close>

theorem region_remap:
  assumes "region_ok r" "unat addr + unat (FILESIZE r) < 2 ^ 48"
  shows "\<exists>r'. remap_persistent_region (FILESIZE r) p (close_persistent_region r) addr = Inr r'
    \<and> region_ok r' \<and> curr_addr r' - addr = curr_addr r - base_addr r
    \<and> fetch_heap_start r' - addr = fetch_heap_start r - base_addr r"
proof -
  let ?c = "curr_addr r" and ?b = "base_addr r"
  define r' where "r' = \<lparr>FILESIZE = FILESIZE r, persist = p, base_addr = addr, rfile = rfile r\<rparr>"
  have ok: "?c \<noteq> 0" "canonical ?c" "canonical ?b" "?b \<le> ?c"
    using assms(1) by (auto simp: region_ok_def canonical_def word_le_nat_alt)
  have cur: "curr_addr r' = addr + (?c - ?b)"
    using assms(1) pptr_relocate [OF ok(1-3), of addr]
    by (simp add: r'_def curr_addr_def region_ok_def atomic_pptr_load_def atomic_pptr_store_def)
  have diff: "unat (?c - ?b) = unat ?c - unat ?b" using ok(4) by (rule unat_sub_le)
  have uc: "unat (curr_addr r') = unat addr + (unat ?c - unat ?b)"
  proof -
    have "unat addr + (unat ?c - unat ?b) < 2 ^ 64" using assms by (auto simp: region_ok_def)
    then show ?thesis unfolding cur by (subst unat_add_lt) (simp_all add: diff)
  qed
  have same: "to_pptr_off (curr_addr r') addr = to_pptr_off ?c ?b"
  proof -
    have "curr_addr r' > addr \<longleftrightarrow> ?c > ?b" "curr_addr r' \<noteq> 0" "curr_addr r' - addr = ?c - ?b"
      using uc assms(1) by (auto simp: word_less_nat_alt region_ok_def cur)
    moreover have "?c > ?b" using assms(1) by (auto simp: word_less_nat_alt region_ok_def)
    ultimately show ?thesis using ok(1) by (simp add: to_pptr_off_def)
  qed
  have "region_ok r'"
    using assms uc same by (auto simp: region_ok_def r'_def atomic_pptr_store_def)
  moreover have "remap_persistent_region (FILESIZE r) p (close_persistent_region r) addr = Inr r'"
    using assms(1) by (simp add: remap_persistent_region_def close_persistent_region_def r'_def region_ok_def)
  ultimately show ?thesis by (simp add: cur fetch_heap_start_def) (simp add: r'_def)
qed

theorem region_remap_witness:
  "\<exists>r'. remap_persistent_region (FILESIZE sample_region) True (close_persistent_region sample_region) 0x20000 = Inr r'
    \<and> region_ok r' \<and> curr_addr r' - 0x20000 = curr_addr sample_region - base_addr sample_region
    \<and> fetch_heap_start r' - 0x20000 = fetch_heap_start sample_region - base_addr sample_region"
  by (rule region_remap [OF sample_region_ok]) (simp add: sample_region_def map_persistent_region_def)

end
