(* ===== verification/Bx_CrossPtr.thy ===== *)
theory Bx_CrossPtr
  imports Bx_Region
begin

unbundle bit_operations_syntax

text \<open>
  The pointer types of the metadata (\<open>src/src/BaseMeta.hpp\<close>, \<open>src/src/BaseMeta.cpp\<close>): a
  \<open>CrossPtr\<close> is the offset of a block from the start of a region, an \<open>AtomicCrossPtrCnt\<close> packs
  such an offset (30 bits) and a counter (34 bits) into one word, and an \<open>Anchor\<close> packs the
  state of a superblock into the bit-fields \<open>avail:31\<close>, \<open>count:31\<close>, \<open>state:2\<close>.  The lemmas show
  when these encodings are lossless and that the exchange on the packed word compares the
  pointer together with the counter.
\<close>

section \<open>Region-relative pointers\<close>

definition CrossPtr :: "regions \<Rightarrow> region_index \<Rightarrow> u64 \<Rightarrow> u64" where
  "CrossPtr R i real_ptr = (if real_ptr = 0 then 0 else Regions_untranslate R i real_ptr)"

definition crossptr_get :: "regions \<Rightarrow> region_index \<Rightarrow> u64 \<Rightarrow> u64" where
  "crossptr_get R i off = (if off = 0 then 0 else Regions_translate R i off)"

definition crossptr_deref :: "regions \<Rightarrow> region_index \<Rightarrow> u64 \<Rightarrow> u64" where
  "crossptr_deref R i off = Regions_translate R i off"

definition crossptr_assign :: "regions \<Rightarrow> region_index \<Rightarrow> u64 \<Rightarrow> u64" where
  "crossptr_assign R i p = Regions_untranslate R i p"

definition crossptr_is_null :: "u64 \<Rightarrow> bool" where
  "crossptr_is_null off \<longleftrightarrow> off = 0"

definition crossptr_eq :: "regions \<Rightarrow> region_index \<Rightarrow> u64 \<Rightarrow> u64 \<Rightarrow> bool" where
  "crossptr_eq R i lhs rhs \<longleftrightarrow> crossptr_get R i lhs = crossptr_get R i rhs"

lemma crossptr_get_assign:
  "p \<noteq> Regions_lookup R i \<Longrightarrow> crossptr_get R i (crossptr_assign R i p) = p"
  by (simp add: crossptr_get_def crossptr_assign_def Regions_translate_def Regions_untranslate_def
      Regions_lookup_def)

lemma crossptr_assign_start: "crossptr_get R i (crossptr_assign R i (Regions_lookup R i)) = 0"
  by (simp add: crossptr_get_def crossptr_assign_def Regions_untranslate_def Regions_lookup_def)

section \<open>Counted pointers\<close>

record ptr_cnt =
  pc_ptr :: u64
  pc_cnt :: u64

definition ptr_cnt_set :: "u64 \<Rightarrow> u64 \<Rightarrow> ptr_cnt" where
  "ptr_cnt_set p c = \<lparr>pc_ptr = p, pc_cnt = c\<rparr>"

definition MAX_DESC_AMOUNT_BITS :: nat where "MAX_DESC_AMOUNT_BITS = 24"
definition MAX_DESC_OFFSET_BITS :: nat where "MAX_DESC_OFFSET_BITS = MAX_DESC_AMOUNT_BITS + 6"
definition MAX_DESC_OFFSET_MASK :: u64 where
  "MAX_DESC_OFFSET_MASK = push_bit MAX_DESC_OFFSET_BITS 1 - 1"

lemma MAX_DESC_OFFSET_BITS_eq [simp]: "MAX_DESC_OFFSET_BITS = 30"
  by (simp add: MAX_DESC_OFFSET_BITS_def MAX_DESC_AMOUNT_BITS_def)

lemma MAX_DESC_OFFSET_MASK_eq: "MAX_DESC_OFFSET_MASK = mask 30"
  by (simp add: MAX_DESC_OFFSET_MASK_def mask_eq_exp_minus_1 push_bit_eq_mult)

text \<open>
  The packing is written out in the constructor, in \<open>store\<close> and twice in each exchange; the
  unpacking in \<open>load\<close> and in the failure branch of each exchange.
\<close>

definition acpc_pack :: "regions \<Rightarrow> region_index \<Rightarrow> ptr_cnt \<Rightarrow> u64" where
  "acpc_pack R i d =
     (let cnt_prefix = push_bit MAX_DESC_OFFSET_BITS (pc_cnt d) in
      if pc_ptr d = 0 then cnt_prefix
      else Regions_untranslate R i (pc_ptr d) OR cnt_prefix)"

definition acpc_unpack :: "regions \<Rightarrow> region_index \<Rightarrow> u64 \<Rightarrow> ptr_cnt" where
  "acpc_unpack R i off =
     (let cnt = drop_bit MAX_DESC_OFFSET_BITS off;
          cur_off = off AND MAX_DESC_OFFSET_MASK
      in \<lparr>pc_ptr = (if cur_off = 0 then 0 else Regions_translate R i cur_off), pc_cnt = cnt\<rparr>)"

definition AtomicCrossPtrCnt :: "regions \<Rightarrow> region_index \<Rightarrow> u64 \<Rightarrow> u64 \<Rightarrow> u64" where
  "AtomicCrossPtrCnt R i real_ptr counter =
     (let cnt_prefix = push_bit MAX_DESC_OFFSET_BITS counter in
      if real_ptr = 0 then cnt_prefix
      else Regions_untranslate R i real_ptr OR cnt_prefix)"

definition acpc_load :: "regions \<Rightarrow> region_index \<Rightarrow> u64 \<Rightarrow> ptr_cnt" where
  "acpc_load R i off = acpc_unpack R i off"

definition acpc_store :: "regions \<Rightarrow> region_index \<Rightarrow> ptr_cnt \<Rightarrow> u64" where
  "acpc_store R i desired = acpc_pack R i desired"

text \<open>
  The exchanges return the flag, the new content of the cell and the updated \<open>expected\<close>; the
  weak one may fail although the cell has the expected content.
\<close>

definition acpc_compare_exchange_strong ::
    "regions \<Rightarrow> region_index \<Rightarrow> u64 \<Rightarrow> ptr_cnt \<Rightarrow> ptr_cnt \<Rightarrow> bool \<times> u64 \<times> ptr_cnt" where
  "acpc_compare_exchange_strong R i cell expected desired =
     (let old_off = acpc_pack R i expected; new_off = acpc_pack R i desired in
      if cell = old_off then (True, new_off, expected)
      else (False, cell, acpc_unpack R i cell))"

definition acpc_compare_exchange_weak ::
    "regions \<Rightarrow> region_index \<Rightarrow> bool \<Rightarrow> u64 \<Rightarrow> ptr_cnt \<Rightarrow> ptr_cnt \<Rightarrow> bool \<times> u64 \<times> ptr_cnt" where
  "acpc_compare_exchange_weak R i spurious cell expected desired =
     (let old_off = acpc_pack R i expected; new_off = acpc_pack R i desired in
      if cell = old_off \<and> \<not> spurious then (True, new_off, expected)
      else (False, cell, acpc_unpack R i cell))"

text \<open>A counted pointer that the packed word can hold without loss.\<close>

definition acpc_fits :: "regions \<Rightarrow> region_index \<Rightarrow> ptr_cnt \<Rightarrow> bool" where
  "acpc_fits R i d \<longleftrightarrow> unat (pc_cnt d) < 2 ^ 34
     \<and> (pc_ptr d \<noteq> 0 \<longrightarrow> 0 < unat (pc_ptr d - Regions_lookup R i) \<and> unat (pc_ptr d - Regions_lookup R i) < 2 ^ 30)"

lemma take_bit_30_id: "unat (x :: u64) < 2 ^ 30 \<Longrightarrow> take_bit 30 x = x"
  by (simp add: word_unat_eq_iff unat_take_bit)

lemma drop_bit_30_0: "unat (x :: u64) < 2 ^ 30 \<Longrightarrow> drop_bit 30 x = 0"
  by (simp add: word_unat_eq_iff unat_drop_bit)

lemma drop_push_30: "unat (c :: u64) < 2 ^ 34 \<Longrightarrow> drop_bit 30 (push_bit 30 c) = c"
  by (simp add: word_unat_eq_iff unat_drop_bit unat_push_bit)

lemma packed_parts:
  assumes "unat (x :: u64) < 2 ^ 30" "unat (c :: u64) < 2 ^ 34"
  shows "drop_bit 30 (x OR push_bit 30 c) = c" "(x OR push_bit 30 c) AND mask 30 = x"
proof -
  show "drop_bit 30 (x OR push_bit 30 c) = c"
    using assms by (simp add: drop_bit_30_0 drop_push_30)
  have "take_bit 30 (push_bit 30 c) = 0"
    by (rule bit_word_eqI) (auto simp: bit_simps)
  then show "(x OR push_bit 30 c) AND mask 30 = x"
    using assms by (simp flip: take_bit_eq_mask add: take_bit_30_id)
qed

lemma acpc_unpack_pack:
  assumes "acpc_fits R i d"
  shows "acpc_unpack R i (acpc_pack R i d) = d"
proof (cases "pc_ptr d = 0")
  case True
  have "push_bit 30 (pc_cnt d) AND mask 30 = (0 :: u64)"
    using packed_parts(2) [of 0 "pc_cnt d"] assms by (simp add: acpc_fits_def)
  then show ?thesis
    using True assms
    by (simp add: acpc_pack_def acpc_unpack_def Let_def acpc_fits_def MAX_DESC_OFFSET_MASK_eq drop_push_30)
next
  case False
  define x where "x = Regions_untranslate R i (pc_ptr d)"
  have x: "0 < unat x" "unat x < 2 ^ 30"
    using assms False by (auto simp: acpc_fits_def x_def Regions_untranslate_def Regions_lookup_def)
  then have "x \<noteq> 0" by (auto simp: unat_0_iff)
  moreover have "Regions_translate R i x = pc_ptr d"
    by (simp add: x_def Regions_translate_def Regions_untranslate_def)
  moreover have "acpc_pack R i d = x OR push_bit 30 (pc_cnt d)"
    using False by (simp add: acpc_pack_def x_def)
  moreover have "unat (pc_cnt d) < 2 ^ 34" using assms by (simp add: acpc_fits_def)
  ultimately show ?thesis
    using packed_parts [OF x(2), of "pc_cnt d"]
    by (simp add: acpc_unpack_def Let_def MAX_DESC_OFFSET_MASK_eq)
qed

lemma acpc_pack_inj:
  assumes "acpc_fits R i d" "acpc_fits R i e" "acpc_pack R i d = acpc_pack R i e"
  shows "d = e"
  by (metis acpc_unpack_pack assms)

section \<open>Anchors\<close>

text \<open>The 64-bit anchor as the three fields the code accesses, with their widths.\<close>

record anchor =
  avail :: "31 word"
  acount :: "31 word"
  astate :: "2 word"

definition SB_ERROR :: "2 word" where "SB_ERROR = 0"
definition SB_FULL :: "2 word" where "SB_FULL = 1"
definition SB_PARTIAL :: "2 word" where "SB_PARTIAL = 2"
definition SB_EMPTY :: "2 word" where "SB_EMPTY = 3"

lemmas sb_states = SB_ERROR_def SB_FULL_def SB_PARTIAL_def SB_EMPTY_def

lemma sb_states_distinct [simp]:
  "SB_FULL \<noteq> SB_PARTIAL" "SB_FULL \<noteq> SB_EMPTY" "SB_PARTIAL \<noteq> SB_EMPTY"
  "SB_PARTIAL \<noteq> SB_FULL" "SB_EMPTY \<noteq> SB_FULL" "SB_EMPTY \<noteq> SB_PARTIAL"
  by (simp_all add: sb_states)

definition Anchor3 :: "u32 \<Rightarrow> u32 \<Rightarrow> 2 word \<Rightarrow> anchor" where
  "Anchor3 a c s = \<lparr>avail = ucast a, acount = ucast c, astate = s\<rparr>"

text \<open>
  The constructor from a word reads the bit-fields in the order the compiler lays them out,
  lowest bits first.
\<close>

definition Anchor :: "u64 \<Rightarrow> anchor" where
  "Anchor a = \<lparr>avail = ucast a, acount = ucast (drop_bit 31 a), astate = ucast (drop_bit 62 a)\<rparr>"

definition anchor_word :: "anchor \<Rightarrow> u64" where
  "anchor_word a = ucast (avail a) OR push_bit 31 (ucast (acount a)) OR push_bit 62 (ucast (astate a))"

lemma Anchor_0: "Anchor 0 = \<lparr>avail = 0, acount = 0, astate = SB_ERROR\<rparr>"
  by (simp add: Anchor_def SB_ERROR_def)

lemma bit_ge_31 [simp]: "31 \<le> n \<Longrightarrow> \<not> bit (x :: 31 word) n"
  using bit_imp_le_length [of x n] by auto

lemma bit_ge_2 [simp]: "2 \<le> n \<Longrightarrow> \<not> bit (x :: 2 word) n"
  using bit_imp_le_length [of x n] by auto

lemma Anchor_word_id: "Anchor (anchor_word a) = a"
proof -
  have "ucast (anchor_word a) = avail a"
    by (rule bit_word_eqI) (auto simp: anchor_word_def bit_simps)
  moreover have "ucast (drop_bit 31 (anchor_word a)) = acount a"
    by (rule bit_word_eqI) (auto simp: anchor_word_def bit_simps)
  moreover have "ucast (drop_bit 62 (anchor_word a)) = astate a"
    by (rule bit_word_eqI) (auto simp: anchor_word_def bit_simps)
  ultimately show ?thesis by (simp add: Anchor_def)
qed

lemma anchor_word_Anchor: "anchor_word (Anchor w) = w"
proof (rule bit_word_eqI)
  fix n assume "n < LENGTH(64)"
  then have n: "n < 64" by simp
  consider "n < 31" | "31 \<le> n" "n < 62" | "62 \<le> n" by linarith
  then show "bit (anchor_word (Anchor w)) n = bit w n"
    using n by cases (auto simp: anchor_word_def Anchor_def bit_simps)
qed

section \<open>Properties\<close>

text \<open>A counted pointer into the descriptor region whose offset is positive and below \<open>2^30\<close> and
  whose counter is below \<open>2^34\<close> survives the packing into one word; and the strong exchange on
  the packed word succeeds exactly when pointer \<open>and\<close> counter are those expected, in which case
  the cell holds the desired pair; otherwise the caller learns the pair that is there.\<close>

lemma AtomicCrossPtrCnt_cas:
  assumes "acpc_fits R i cur" "acpc_fits R i expected" "acpc_fits R i desired"
  shows "acpc_load R i (acpc_store R i cur) = cur
    \<and> (case acpc_compare_exchange_strong R i (acpc_store R i cur) expected desired of
        (ok, cell, seen) \<Rightarrow> ok = (cur = expected)
          \<and> acpc_load R i cell = (if cur = expected then desired else cur) \<and> seen = cur)"
  using assms acpc_pack_inj [OF assms(1,2)]
  by (auto simp: acpc_load_def acpc_store_def acpc_compare_exchange_strong_def Let_def acpc_unpack_pack)

definition sample_regions :: regions where
  "sample_regions = Regions_new\<lparr>regions_address := [0x100000, 0x40000000, 0, 0, 0x20000000]\<rparr>"

lemma AtomicCrossPtrCnt_cas_witness:
  "case acpc_compare_exchange_strong sample_regions DESC_IDX
      (acpc_store sample_regions DESC_IDX \<lparr>pc_ptr = 0x100040, pc_cnt = 6\<rparr>)
      \<lparr>pc_ptr = 0x100040, pc_cnt = 5\<rparr> \<lparr>pc_ptr = 0x100080, pc_cnt = 7\<rparr> of
    (ok, cell, seen) \<Rightarrow> \<not> ok \<and> seen = \<lparr>pc_ptr = 0x100040, pc_cnt = 6\<rparr>"
  using AtomicCrossPtrCnt_cas [of sample_regions DESC_IDX "\<lparr>pc_ptr = 0x100040, pc_cnt = 6\<rparr>"
      "\<lparr>pc_ptr = 0x100040, pc_cnt = 5\<rparr>" "\<lparr>pc_ptr = 0x100080, pc_cnt = 7\<rparr>"]
  by (auto simp: acpc_fits_def sample_regions_def Regions_lookup_def)

text \<open>The bit-field view of an anchor and its 64-bit word determine each other, so that the
  exchange on the word updates the three fields together and loses none of them.\<close>

lemma Anchor_roundtrip: "Anchor (anchor_word a) = a \<and> anchor_word (Anchor w) = w"
  by (simp add: Anchor_word_id anchor_word_Anchor)

end
