(* ===== verification/Bx_Queue.thy ===== *)
theory Bx_Queue
  imports Bx_Prelude
begin

unbundle bit_operations_syntax

text \<open>
  The array queue of free superblocks (\<open>src/src/LockFreeQueue.hpp\<close>, class \<open>_ArrayQueue\<close>).  The
  state is the ring of nodes and the two packed registers \<open>rear\<close> and \<open>front\<close>; the value of the
  last push stays in \<open>rear\<close> until the next operation that needs it copies it into its node
  (\<open>finish_enqueue\<close>).  Indices are natural numbers below the ring size, counters are 32-bit
  words that wrap.  \<open>queue_abs\<close> reads the queue off the ring; the operations refine a bounded
  FIFO, which is the contract (locale \<open>fifo\<close>) that the superblock allocator uses.
\<close>

section \<open>State\<close>

record rear_t =
  r_value :: u64
  r_index :: nat
  r_counter :: u32

record front_t =
  f_index :: nat
  f_counter :: u32

record node_t =
  n_value :: u64
  n_counter :: u64

record aqueue =
  q_clean :: bool
  q_rear :: rear_t
  q_front :: front_t
  q_nodes :: "node_t list"

definition Node :: "u64 \<Rightarrow> u32 \<Rightarrow> node_t" where
  "Node val a = \<lparr>n_value = val, n_counter = ucast a\<rparr>"

definition ArrayQueue_new :: "nat \<Rightarrow> aqueue" where
  "ArrayQueue_new N = \<lparr>q_clean = False, q_rear = \<lparr>r_value = 0, r_index = 0, r_counter = 0\<rparr>,
     q_front = \<lparr>f_index = 1, f_counter = 0\<rparr>, q_nodes = replicate N (Node 0 0)\<rparr>"

text \<open>The capacity of the superblock queue of the allocator.\<close>

definition QUEUE_CAP :: nat where "QUEUE_CAP = 80000"

section \<open>Operations\<close>

text \<open>
  A compare-and-exchange on one node: on failure the caller's copy of the expected node is
  overwritten with the content that was found.
\<close>

definition node_cas :: "node_t \<Rightarrow> node_t \<Rightarrow> node_t \<Rightarrow> bool \<times> node_t \<times> node_t" where
  "node_cas cur old new = (if cur = old then (True, new, old) else (False, cur, cur))"

text \<open>
  \<open>while(!nodes[index].compare_exchange_weak(old_node,new_node));\<close> for one node, with a bound on
  the attempts.
\<close>

fun finish_loop :: "nat \<Rightarrow> node_t \<Rightarrow> node_t \<Rightarrow> node_t \<Rightarrow> node_t option" where
  "finish_loop 0 cur old new = None"
| "finish_loop (Suc n) cur old new =
     (case node_cas cur old new of (True, cur', _) \<Rightarrow> Some cur' | (False, cur', old') \<Rightarrow> finish_loop n cur' old' new)"

definition finish_enqueue :: "aqueue \<Rightarrow> u64 \<Rightarrow> nat \<Rightarrow> u32 \<Rightarrow> aqueue result" where
  "finish_enqueue q val index counter =
     (if index \<ge> length (q_nodes q) then Inl OutOfBounds else
      let cur = q_nodes q ! index;
          old_node = Node (n_value cur) (counter - 1);
          new_node = Node val counter
      in case finish_loop 2 cur old_node new_node of
           None \<Rightarrow> Inl NoProgress
         | Some nd \<Rightarrow> Inr (q\<lparr>q_nodes := (q_nodes q)[index := nd]\<rparr>))"

text \<open>
  One round of \<open>push\<close>, up to the exchange on \<open>rear\<close>, which without interference installs the
  new register.  The weak exchange may fail spuriously; \<open>spurious\<close> counts how often it does
  before it succeeds, and each failure repeats the round.
\<close>

definition push_round :: "nat \<Rightarrow> aqueue \<Rightarrow> u64 \<Rightarrow> (rear_t \<times> aqueue) result" where
  "push_round N q val =
     (let old_rear = q_rear q; old_front = q_front q in
      bindE (finish_enqueue q (r_value old_rear) (r_index old_rear) (r_counter old_rear)) (\<lambda>q.
      bindE (assertE ''queue is full!'' (f_index old_front \<noteq> (r_index old_rear + 2) mod N)) (\<lambda>_.
      let idx = (r_index old_rear + 1) mod N in
      if idx \<ge> length (q_nodes q) then Inl OutOfBounds
      else Inr (\<lparr>r_value = val, r_index = idx, r_counter = ucast (n_counter (q_nodes q ! idx) + 1)\<rparr>, q))))"

fun aq_push :: "nat \<Rightarrow> nat \<Rightarrow> aqueue \<Rightarrow> u64 \<Rightarrow> aqueue result" where
  "aq_push N 0 q val = bindE (push_round N q val) (\<lambda>(rear, q). Inr (q\<lparr>q_rear := rear\<rparr>))"
| "aq_push N (Suc spurious) q val = bindE (push_round N q val) (\<lambda>(rear, q). aq_push N spurious q val)"

definition aq_pop :: "nat \<Rightarrow> aqueue \<Rightarrow> (u64 option \<times> aqueue) result" where
  "aq_pop N q =
     (let old_front = q_front q; old_rear = q_rear q in
      bindE (if f_index old_front = r_index old_rear
             then finish_enqueue q (r_value old_rear) (r_index old_rear) (r_counter old_rear)
             else Inr q) (\<lambda>q.
      if f_index old_front = (r_index old_rear + 1) mod N then Inr (None, q)
      else if f_index old_front mod N \<ge> length (q_nodes q) then Inl OutOfBounds
      else
        let ret = n_value (q_nodes q ! (f_index old_front mod N));
            new_front = \<lparr>f_index = (f_index old_front + 1) mod N, f_counter = f_counter old_front + 1\<rparr>
        in Inr (Some ret, q\<lparr>q_front := new_front\<rparr>)))"

section \<open>Invariant and abstraction\<close>

definition aq_inv :: "nat \<Rightarrow> aqueue \<Rightarrow> bool" where
  "aq_inv N q \<longleftrightarrow> 3 \<le> N \<and> length (q_nodes q) = N \<and> r_index (q_rear q) < N \<and> f_index (q_front q) < N"

definition aq_count :: "nat \<Rightarrow> aqueue \<Rightarrow> nat" where
  "aq_count N q = (r_index (q_rear q) + 1 + (N - f_index (q_front q))) mod N"

definition aq_val :: "aqueue \<Rightarrow> nat \<Rightarrow> u64" where
  "aq_val q j = (if j = r_index (q_rear q) then r_value (q_rear q) else n_value (q_nodes q ! j))"

definition queue_abs :: "nat \<Rightarrow> aqueue \<Rightarrow> u64 list" where
  "queue_abs N q = map (\<lambda>k. aq_val q ((f_index (q_front q) + k) mod N)) [0..<aq_count N q]"

lemma length_queue_abs [simp]: "length (queue_abs N q) = aq_count N q"
  by (simp add: queue_abs_def)

lemma aq_inv_new: "3 \<le> N \<Longrightarrow> aq_inv N (ArrayQueue_new N)"
  by (simp add: aq_inv_def ArrayQueue_new_def)

lemma queue_abs_new: "3 \<le> N \<Longrightarrow> queue_abs N (ArrayQueue_new N) = []"
  by (simp add: queue_abs_def aq_count_def ArrayQueue_new_def)

text \<open>The loop of \<open>finish_enqueue\<close> ends after at most two attempts, and always writes.\<close>

lemma finish_loop_two: "finish_loop 2 cur old new = Some new"
  by (simp add: numeral_2_eq_2 node_cas_def)

lemma finish_enqueue_eq:
  "index < length (q_nodes q) \<Longrightarrow>
   finish_enqueue q val index counter = Inr (q\<lparr>q_nodes := (q_nodes q)[index := Node val counter]\<rparr>)"
  by (simp add: finish_enqueue_def Let_def finish_loop_two)

text \<open>
  Arithmetic of the ring: the count is the unique \<open>c < N\<close> with \<open>f + c = r + 1\<close> modulo \<open>N\<close>.
\<close>

lemma mod_cancel_less:
  assumes "((f::nat) + x) mod N = (f + y) mod N" "x < N" "y < N"
  shows "x = y"
proof -
  have aux: "x = y" if "y \<le> x" "(f + x) mod N = (f + y) mod N" "x < N" for x y
  proof -
    have "N dvd (f + x) - (f + y)" using that(1,2) by (subst (asm) mod_eq_dvd_iff_nat) auto
    then have "N dvd x - y" by simp
    then show ?thesis using that(1,3) by (auto dest: dvd_imp_le)
  qed
  show ?thesis using aux [of y x] aux [of x y] assms by (cases "y \<le> x") auto
qed

lemma aq_count_char:
  assumes "aq_inv N q"
  shows "aq_count N q < N" "(f_index (q_front q) + aq_count N q) mod N = (r_index (q_rear q) + 1) mod N"
proof -
  have "f_index (q_front q) + (r_index (q_rear q) + 1 + (N - f_index (q_front q))) = r_index (q_rear q) + 1 + N"
    using assms by (simp add: aq_inv_def)
  then have "(f_index (q_front q) + aq_count N q) mod N = (r_index (q_rear q) + 1 + N) mod N"
    unfolding aq_count_def by (metis mod_add_right_eq)
  then show "(f_index (q_front q) + aq_count N q) mod N = (r_index (q_rear q) + 1) mod N"
    by (simp only: mod_add_self2)
  show "aq_count N q < N" using assms by (simp add: aq_count_def aq_inv_def)
qed

lemma aq_count_unique:
  assumes "aq_inv N q" "c < N" "(f_index (q_front q) + c) mod N = (r_index (q_rear q) + 1) mod N"
  shows "aq_count N q = c"
  using mod_cancel_less [of "f_index (q_front q)" "aq_count N q" N c] aq_count_char [OF assms(1)] assms
  by simp

lemma aq_empty_iff:
  assumes "aq_inv N q"
  shows "f_index (q_front q) = (r_index (q_rear q) + 1) mod N \<longleftrightarrow> aq_count N q = 0"
proof
  assume "f_index (q_front q) = (r_index (q_rear q) + 1) mod N"
  then show "aq_count N q = 0" using assms by (intro aq_count_unique) (auto simp: aq_inv_def)
next
  assume "aq_count N q = 0"
  then show "f_index (q_front q) = (r_index (q_rear q) + 1) mod N"
    using aq_count_char(2) [OF assms] assms by (simp add: aq_inv_def)
qed

lemma aq_full_iff:
  assumes "aq_inv N q"
  shows "f_index (q_front q) = (r_index (q_rear q) + 2) mod N \<longleftrightarrow> aq_count N q = N - 1"
proof
  assume f: "f_index (q_front q) = (r_index (q_rear q) + 2) mod N"
  have "(f_index (q_front q) + (N - 1)) mod N = (r_index (q_rear q) + 2 + (N - 1)) mod N"
    unfolding f by (rule mod_add_left_eq)
  also have "r_index (q_rear q) + 2 + (N - 1) = r_index (q_rear q) + 1 + N" using assms by (simp add: aq_inv_def)
  finally have "(f_index (q_front q) + (N - 1)) mod N = (r_index (q_rear q) + 1) mod N"
    by (simp only: mod_add_self2)
  moreover have "N - 1 < N" using assms by (simp add: aq_inv_def)
  ultimately show "aq_count N q = N - 1" using aq_count_unique [OF assms] by blast
next
  assume c: "aq_count N q = N - 1"
  have "(f_index (q_front q) + (N - 1) + 1) mod N = (r_index (q_rear q) + 1 + 1) mod N"
    using aq_count_char(2) [OF assms] unfolding c by (rule mod_add_cong) simp
  then show "f_index (q_front q) = (r_index (q_rear q) + 2) mod N"
    using assms by (simp add: aq_inv_def)
qed

text \<open>Only the last live position is the one of \<open>rear\<close>.\<close>

lemma aq_rear_pos:
  assumes "aq_inv N q" "k < aq_count N q"
  shows "(f_index (q_front q) + k) mod N = r_index (q_rear q) \<longleftrightarrow> Suc k = aq_count N q"
proof
  assume "(f_index (q_front q) + k) mod N = r_index (q_rear q)"
  then have "(f_index (q_front q) + Suc k) mod N = (r_index (q_rear q) + 1) mod N"
    by (metis add_Suc_right mod_Suc_eq Suc_eq_plus1)
  moreover have "Suc k < N" using assms aq_count_char(1) [OF assms(1)] by simp
  ultimately show "Suc k = aq_count N q" using aq_count_unique [OF assms(1)] by simp
next
  assume "Suc k = aq_count N q"
  then have "(f_index (q_front q) + k + 1) mod N = (r_index (q_rear q) + 1) mod N"
    using aq_count_char(2) [OF assms(1)] by (metis add_Suc_right Suc_eq_plus1)
  then have "(1 + (f_index (q_front q) + k)) mod N = (1 + r_index (q_rear q)) mod N" by simp
  then have "(1 + (f_index (q_front q) + k) mod N) mod N = (1 + r_index (q_rear q)) mod N"
    by (simp only: mod_add_right_eq)
  then show "(f_index (q_front q) + k) mod N = r_index (q_rear q)"
    by (rule mod_cancel_less) (use assms(1) in \<open>auto simp: aq_inv_def\<close>)
qed

section \<open>Refinement of the bounded FIFO\<close>

lemma aq_push_spurious: "aq_inv N q \<Longrightarrow> aq_push N n q v = aq_push N 0 q v"
proof (induction n arbitrary: q)
  case 0
  then show ?case by simp
next
  case (Suc n)
  let ?r = "q_rear q"
  let ?q = "q\<lparr>q_nodes := (q_nodes q)[r_index ?r := Node (r_value ?r) (r_counter ?r)]\<rparr>"
  have inv: "aq_inv N ?q" using Suc.prems by (simp add: aq_inv_def)
  have same: "push_round N ?q v = push_round N q v"
    using Suc.prems by (simp add: push_round_def finish_enqueue_eq aq_inv_def Let_def)
  show ?case
  proof (cases "push_round N q v")
    case (Inl e)
    then show ?thesis by simp
  next
    case (Inr p)
    then have "snd p = ?q"
      using Suc.prems by (auto simp: push_round_def finish_enqueue_eq aq_inv_def Let_def split: if_splits)
    then show ?thesis using Inr Suc.IH [OF inv] same by (cases p) simp
  qed
qed

lemma aq_push_full:
  assumes "aq_inv N q" "aq_count N q = N - 1"
  shows "aq_push N n q v = Inl (AssertFailed ''queue is full!'')"
  using assms aq_full_iff [OF assms(1)]
  by (simp add: aq_push_spurious push_round_def finish_enqueue_eq aq_inv_def Let_def assertE_def)

lemma aq_push_room:
  assumes "aq_inv N q" "aq_count N q < N - 1"
  obtains q' where "aq_push N n q v = Inr q'" "aq_inv N q'" "queue_abs N q' = queue_abs N q @ [v]"
proof -
  let ?r = "q_rear q" and ?f = "f_index (q_front q)" and ?c = "aq_count N q"
  let ?nodes = "(q_nodes q)[r_index ?r := Node (r_value ?r) (r_counter ?r)]"
  let ?idx = "(r_index ?r + 1) mod N"
  define q' where "q' = q\<lparr>q_nodes := ?nodes,
    q_rear := \<lparr>r_value = v, r_index = ?idx, r_counter = ucast (n_counter (?nodes ! ?idx) + 1)\<rparr>\<rparr>"
  have N: "3 \<le> N" "length (q_nodes q) = N" "r_index ?r < N" "?f < N" using assms(1) by (auto simp: aq_inv_def)
  have notfull: "?f \<noteq> (r_index ?r + 2) mod N" using assms aq_full_iff [OF assms(1)] by simp
  have ret: "aq_push N n q v = Inr q'"
    using N notfull mod_less_divisor [of N "r_index ?r + 1"]
    by (simp add: aq_push_spurious [OF assms(1)] push_round_def finish_enqueue_eq Let_def q'_def not_le)
  have inv: "aq_inv N q'" using N by (simp add: aq_inv_def q'_def)
  have cnt: "aq_count N q' = ?c + 1"
  proof (rule aq_count_unique [OF inv])
    show "?c + 1 < N" using assms(2) by simp
    have "(?f + ?c + 1) mod N = (r_index ?r + 1 + 1) mod N"
      using aq_count_char(2) [OF assms(1)] by (rule mod_add_cong) simp
    then show "(f_index (q_front q') + (?c + 1)) mod N = (r_index (q_rear q') + 1) mod N"
      by (simp add: q'_def mod_Suc_eq)
  qed
  have "aq_val q' ((?f + k) mod N) = (if k = ?c then v else aq_val q ((?f + k) mod N))" if "k < ?c + 1" for k
  proof (cases "k = ?c")
    case True
    then show ?thesis using aq_count_char(2) [OF assms(1)] by (simp add: aq_val_def q'_def)
  next
    case False
    then have k: "k < ?c" using that by simp
    have "(?f + k) mod N \<noteq> ?idx"
      using aq_rear_pos [OF inv, of k] cnt k by (auto simp: q'_def)
    then show ?thesis using False N by (simp add: aq_val_def q'_def nth_list_update Node_def)
  qed
  then have "queue_abs N q' = queue_abs N q @ [v]"
    unfolding queue_abs_def cnt by (simp add: q'_def)
  with ret inv show thesis by (rule that)
qed

lemma aq_pop_empty:
  assumes "aq_inv N q" "aq_count N q = 0"
  obtains q' where "aq_pop N q = Inr (None, q')" "aq_inv N q'" "queue_abs N q' = []"
proof -
  let ?r = "q_rear q"
  have e: "f_index (q_front q) = (r_index ?r + 1) mod N" using aq_empty_iff [OF assms(1)] assms(2) by simp
  have fr: "f_index (q_front q) \<noteq> r_index ?r"
  proof
    assume "f_index (q_front q) = r_index ?r"
    then have "r_index ?r = (r_index ?r + 1) mod N" using e by simp
    moreover have "(r_index ?r + 1) mod N = (if r_index ?r + 1 = N then 0 else r_index ?r + 1)"
      using assms(1) by (auto simp: aq_inv_def)
    ultimately show False using assms(1) by (auto simp: aq_inv_def split: if_splits)
  qed
  show thesis
    using e fr assms by (intro that [of q]) (simp_all add: aq_pop_def Let_def queue_abs_def)
qed

lemma aq_pop_some:
  assumes "aq_inv N q" "queue_abs N q = x # xs"
  obtains q' where "aq_pop N q = Inr (Some x, q')" "aq_inv N q'" "queue_abs N q' = xs"
proof -
  let ?r = "q_rear q" and ?f = "f_index (q_front q)" and ?c = "aq_count N q"
  define nodes where "nodes = (if ?f = r_index ?r then (q_nodes q)[r_index ?r := Node (r_value ?r) (r_counter ?r)] else q_nodes q)"
  define q' where "q' = q\<lparr>q_nodes := nodes, q_front := \<lparr>f_index = (?f + 1) mod N, f_counter = f_counter (q_front q) + 1\<rparr>\<rparr>"
  have N: "3 \<le> N" "length (q_nodes q) = N" "r_index ?r < N" "?f < N" using assms(1) by (auto simp: aq_inv_def)
  have c: "0 < ?c" using assms(2) length_queue_abs [of N q] by simp
  have ne: "?f \<noteq> (r_index ?r + 1) mod N" using c aq_empty_iff [OF assms(1)] by simp
  have x: "x = aq_val q ?f" and xs: "xs = map (\<lambda>k. aq_val q ((?f + k) mod N)) [1..<?c]"
    using assms(2) c N by (simp_all add: queue_abs_def upt_conv_Cons)
  have nv: "n_value (nodes ! j) = (if j = ?f then x else n_value (q_nodes q ! j))" if "j < N" for j
    using N that by (auto simp: nodes_def x aq_val_def nth_list_update Node_def)
  have ret: "aq_pop N q = Inr (Some x, q')"
    using N ne nv [of ?f]
    by (auto simp: aq_pop_def Let_def finish_enqueue_eq q'_def nodes_def)
  have inv: "aq_inv N q'" using N by (simp add: aq_inv_def q'_def nodes_def)
  have cnt: "aq_count N q' = ?c - 1"
  proof (rule aq_count_unique [OF inv])
    show "?c - 1 < N" using aq_count_char(1) [OF assms(1)] by simp
    have "((?f + 1) mod N + (?c - 1)) mod N = (?f + 1 + (?c - 1)) mod N" by (rule mod_add_left_eq)
    also have "?f + 1 + (?c - 1) = ?f + ?c" using c by simp
    finally show "(f_index (q_front q') + (?c - 1)) mod N = (r_index (q_rear q') + 1) mod N"
      using aq_count_char(2) [OF assms(1)] by (simp add: q'_def)
  qed
  have val: "aq_val q' ((?f + 1 + k) mod N) = aq_val q ((?f + Suc k) mod N)" if "k < ?c - 1" for k
  proof -
    have "(?f + Suc k) mod N \<noteq> ?f"
    proof
      assume "(?f + Suc k) mod N = ?f"
      then have "(?f + Suc k) mod N = (?f + 0) mod N" using N by simp
      moreover have "Suc k < N" using that aq_count_char(1) [OF assms(1)] by simp
      ultimately show False using mod_cancel_less [of ?f "Suc k" N 0] N by simp
    qed
    then show ?thesis using nv [of "(?f + Suc k) mod N"] N by (simp add: aq_val_def q'_def)
  qed
  have "queue_abs N q' = map (\<lambda>k. aq_val q' ((?f + 1 + k) mod N)) [0..<?c - 1]"
    by (simp add: queue_abs_def cnt) (simp add: q'_def mod_add_left_eq [of "Suc ?f", symmetric] mod_simps)
  also have "\<dots> = map (\<lambda>k. aq_val q ((?f + Suc k) mod N)) [0..<?c - 1]"
    using val by (intro map_cong) auto
  also have "\<dots> = xs"
  proof -
    have "[1..<?c] = map Suc [0..<?c - 1]" using c by (simp add: map_Suc_upt)
    then show ?thesis by (simp add: xs)
  qed
  finally show thesis using ret inv by (intro that)
qed

section \<open>The contract\<close>

text \<open>
  A bounded FIFO: what \<open>small_sb_alloc\<close> and \<open>organize_sb_list\<close> rely on.
\<close>

locale fifo =
  fixes inv :: "'q \<Rightarrow> bool"
    and contents :: "'q \<Rightarrow> u64 list"
    and push :: "'q \<Rightarrow> u64 \<Rightarrow> 'q result"
    and pop :: "'q \<Rightarrow> (u64 option \<times> 'q) result"
    and capacity :: nat
  assumes push_law: "inv q \<Longrightarrow> length (contents q) < capacity \<Longrightarrow>
      \<exists>q'. push q v = Inr q' \<and> inv q' \<and> contents q' = contents q @ [v]"
    and pop_nil: "inv q \<Longrightarrow> contents q = [] \<Longrightarrow> \<exists>q'. pop q = Inr (None, q') \<and> inv q' \<and> contents q' = []"
    and pop_cons: "inv q \<Longrightarrow> contents q = x # xs \<Longrightarrow> \<exists>q'. pop q = Inr (Some x, q') \<and> inv q' \<and> contents q' = xs"
begin

fun push_all :: "'q \<Rightarrow> u64 list \<Rightarrow> 'q result" where
  "push_all q [] = Inr q"
| "push_all q (v # vs) = bindE (push q v) (\<lambda>q. push_all q vs)"

fun pop_many :: "nat \<Rightarrow> 'q \<Rightarrow> (u64 option list \<times> 'q) result" where
  "pop_many 0 q = Inr ([], q)"
| "pop_many (Suc n) q = bindE (pop q) (\<lambda>(v, q). bindE (pop_many n q) (\<lambda>(vs, q). Inr (v # vs, q)))"

lemma push_all_contents:
  "inv q \<Longrightarrow> length (contents q) + length vs \<le> capacity \<Longrightarrow>
   \<exists>q'. push_all q vs = Inr q' \<and> inv q' \<and> contents q' = contents q @ vs"
proof (induction vs arbitrary: q)
  case Nil
  then show ?case by simp
next
  case (Cons v vs)
  then obtain q1 where q1: "push q v = Inr q1" "inv q1" "contents q1 = contents q @ [v]"
    using push_law [of q v] by auto
  then show ?case using Cons.IH [of q1] Cons.prems by auto
qed

lemma pop_many_contents:
  "inv q \<Longrightarrow> \<exists>q'. pop_many n q = Inr (map Some (take n (contents q)) @ replicate (n - length (contents q)) None, q')
     \<and> inv q' \<and> contents q' = drop n (contents q)"
proof (induction n arbitrary: q)
  case 0
  then show ?case by simp
next
  case (Suc n)
  show ?case
  proof (cases "contents q")
    case Nil
    then obtain q1 where "pop q = Inr (None, q1)" "inv q1" "contents q1 = []" using pop_nil Suc.prems by blast
    then show ?thesis using Suc.IH [of q1] Nil by auto
  next
    case (Cons x xs)
    then obtain q1 where "pop q = Inr (Some x, q1)" "inv q1" "contents q1 = xs" using pop_cons Suc.prems by blast
    then show ?thesis using Suc.IH [of q1] Cons by auto
  qed
qed

end

definition ring_inv :: "aqueue \<Rightarrow> bool" where
  "ring_inv = aq_inv QUEUE_CAP"

definition LockFreeQueue_push :: "aqueue \<Rightarrow> u64 \<Rightarrow> aqueue result" where
  "LockFreeQueue_push q v = aq_push QUEUE_CAP 0 q v"

definition LockFreeQueue_pop :: "aqueue \<Rightarrow> (u64 option \<times> aqueue) result" where
  "LockFreeQueue_pop q = aq_pop QUEUE_CAP q"

definition LockFreeQueue_cleanup :: "aqueue \<Rightarrow> aqueue" where
  "LockFreeQueue_cleanup q = q\<lparr>q_clean := True\<rparr>"

interpretation aq: fifo ring_inv "queue_abs QUEUE_CAP" LockFreeQueue_push LockFreeQueue_pop "QUEUE_CAP - 1"
proof
  show "\<exists>q'. LockFreeQueue_push q v = Inr q' \<and> ring_inv q' \<and> queue_abs QUEUE_CAP q' = queue_abs QUEUE_CAP q @ [v]"
    if "ring_inv q" "length (queue_abs QUEUE_CAP q) < QUEUE_CAP - 1" for q v
    using that aq_push_room [of QUEUE_CAP q 0 v] unfolding ring_inv_def LockFreeQueue_push_def length_queue_abs by metis
  show "\<exists>q'. LockFreeQueue_pop q = Inr (None, q') \<and> ring_inv q' \<and> queue_abs QUEUE_CAP q' = []"
    if "ring_inv q" "queue_abs QUEUE_CAP q = []" for q
    using that length_queue_abs [of QUEUE_CAP q]
    by (auto simp: ring_inv_def LockFreeQueue_pop_def intro: aq_pop_empty)
  show "\<exists>q'. LockFreeQueue_pop q = Inr (Some x, q') \<and> ring_inv q' \<and> queue_abs QUEUE_CAP q' = xs"
    if "ring_inv q" "queue_abs QUEUE_CAP q = x # xs" for q x xs
    using that by (auto simp: ring_inv_def LockFreeQueue_pop_def intro: aq_pop_some)
qed

section \<open>Properties\<close>

text \<open>C28: The array queue refines a bounded FIFO of capacity \<open>N - 1\<close>: a push appends its value
  however often its weak exchange fails spuriously, or stops with the queue-full assertion
  exactly when \<open>N - 1\<close> values are queued; a pop returns the oldest value, or nothing exactly
  when the queue is empty.  The pending value in \<open>rear\<close> is never lost.\<close>

theorem ArrayQueue_refines_fifo:
  assumes "aq_inv N q"
  shows "(if length (queue_abs N q) = N - 1
          then aq_push N spurious q v = Inl (AssertFailed ''queue is full!'')
          else \<exists>q'. aq_push N spurious q v = Inr q' \<and> aq_inv N q' \<and> queue_abs N q' = queue_abs N q @ [v])
    \<and> (case queue_abs N q of
         [] \<Rightarrow> \<exists>q'. aq_pop N q = Inr (None, q') \<and> aq_inv N q' \<and> queue_abs N q' = []
       | x # xs \<Rightarrow> \<exists>q'. aq_pop N q = Inr (Some x, q') \<and> aq_inv N q' \<and> queue_abs N q' = xs)"
proof
  show "if length (queue_abs N q) = N - 1
          then aq_push N spurious q v = Inl (AssertFailed ''queue is full!'')
          else \<exists>q'. aq_push N spurious q v = Inr q' \<and> aq_inv N q' \<and> queue_abs N q' = queue_abs N q @ [v]"
  proof (cases "aq_count N q = N - 1")
    case True
    then show ?thesis using aq_push_full [OF assms] by simp
  next
    case False
    then have "aq_count N q < N - 1" using aq_count_char(1) [OF assms] by simp
    then show ?thesis using False aq_push_room [OF assms] by (simp, metis)
  qed
  show "case queue_abs N q of
         [] \<Rightarrow> \<exists>q'. aq_pop N q = Inr (None, q') \<and> aq_inv N q' \<and> queue_abs N q' = []
       | x # xs \<Rightarrow> \<exists>q'. aq_pop N q = Inr (Some x, q') \<and> aq_inv N q' \<and> queue_abs N q' = xs"
  proof (cases "queue_abs N q")
    case Nil
    then have "aq_count N q = 0" using length_queue_abs [of N q] by simp
    then show ?thesis using aq_pop_empty [OF assms] Nil by (simp, metis)
  next
    case (Cons x xs)
    then show ?thesis using aq_pop_some [OF assms Cons] by (simp, metis)
  qed
qed

theorem ArrayQueue_refines_fifo_witness:
  "\<exists>q'. aq_push 4 2 (ArrayQueue_new 4) 7 = Inr q' \<and> aq_inv 4 q' \<and> queue_abs 4 q' = [7]"
  using ArrayQueue_refines_fifo [OF aq_inv_new, of 4 2 7] by (simp add: queue_abs_new)

text \<open>In every state of the superblock queue, pushing a batch of values that fits and then popping
  as many as are queued returns the earlier contents followed by the batch, in order, and
  one more pop reports an empty queue.\<close>

lemma LockFreeQueue_fifo_order:
  assumes "ring_inv q" "length (queue_abs QUEUE_CAP q) + length vs \<le> 79999"
  shows "\<exists>q1 q2. aq.push_all q vs = Inr q1
    \<and> aq.pop_many (length (queue_abs QUEUE_CAP q @ vs) + 1) q1
        = Inr (map Some (queue_abs QUEUE_CAP q @ vs) @ [None], q2)
    \<and> queue_abs QUEUE_CAP q2 = []"
proof -
  obtain q1 where q1: "aq.push_all q vs = Inr q1" "ring_inv q1"
    "queue_abs QUEUE_CAP q1 = queue_abs QUEUE_CAP q @ vs"
    using aq.push_all_contents [of q vs] assms by (auto simp: QUEUE_CAP_def)
  show ?thesis
    using aq.pop_many_contents [OF q1(2), of "length (queue_abs QUEUE_CAP q @ vs) + 1"] q1
    by auto
qed

lemma LockFreeQueue_fifo_order_witness:
  "\<exists>q1 q2. aq.push_all (ArrayQueue_new QUEUE_CAP) [5, 6] = Inr q1
    \<and> aq.pop_many 3 q1 = Inr ([Some 5, Some 6, None], q2)"
proof -
  have new: "queue_abs QUEUE_CAP (ArrayQueue_new QUEUE_CAP) = []" "ring_inv (ArrayQueue_new QUEUE_CAP)"
    by (simp_all add: queue_abs_new aq_inv_new ring_inv_def QUEUE_CAP_def)
  obtain q1 q2 where "aq.push_all (ArrayQueue_new QUEUE_CAP) [5, 6] = Inr q1"
    "aq.pop_many (length ([5, 6] :: u64 list) + 1) q1 = Inr (map Some [5, 6] @ [None], q2)"
    using LockFreeQueue_fifo_order [OF new(2), of "[5, 6]"] unfolding new(1) by auto
  then show ?thesis by (intro exI [of _ q1] exI [of _ q2]) (simp add: numeral_3_eq_3)
qed

text \<open>Completing an enqueue is not guarded by the counter of the node: from any node content the
  loop of \<open>finish_enqueue\<close> ends by overwriting it.  A helper that was delayed since it read
  \<open>rear\<close> therefore writes its stale value over a node that has been reused since.\<close>

lemma finish_enqueue_unguarded:
  "finish_enqueue (q\<lparr>q_nodes := (q_nodes q)[index := nd]\<rparr>) val index counter =
     (if index < length (q_nodes q)
      then Inr (q\<lparr>q_nodes := (q_nodes q)[index := Node val counter]\<rparr>)
      else Inl OutOfBounds)"
  by (simp add: finish_enqueue_eq) (simp add: finish_enqueue_def)

end
