(* ===== verification/Bx_BaseMeta.thy ===== *)
theory Bx_BaseMeta
  imports Bx_FreeList Bx_CrossPtr Bx_Queue
begin

unbundle bit_operations_syntax

text \<open>
  The allocator core (\<open>src/src/BaseMeta.hpp\<close>, \<open>src/src/BaseMeta.cpp\<close>): superblock descriptors, the
  per-class heaps with their partial lists, the refill and the flush of a thread cache,
  superblock allocation and retirement, and the entry points \<open>do_malloc\<close> and \<open>do_free\<close>, as
  functions on the state record \<open>world\<close> of one thread.  The bytes of the superblocks are a
  \<open>memory\<close>; descriptors are kept in a store indexed by their address in the descriptor region.
  A weak exchange that nobody interferes with succeeds here; interference is the subject of
  \<open>Bx_PartialList\<close>.  Cache-line flushes have no effect on this state.
\<close>

section \<open>Data\<close>

record descriptor =
  next_free :: u64
  next_partial :: u64
  danchor :: anchor
  dsuperblock :: u64
  dheap :: u64
  block_size :: u32
  maxcount :: u32

text \<open>\<open>new (desc) Descriptor()\<close>; the links are \<open>atomic_pptr\<close>s at \<open>desc\<close> and \<open>desc + 8\<close>.\<close>

definition Descriptor :: "u64 \<Rightarrow> descriptor" where
  "Descriptor a = \<lparr>next_free = atomic_pptr_store a 0, next_partial = atomic_pptr_store (a + 8) 0,
     danchor = Anchor 0, dsuperblock = 0, dheap = 0, block_size = 0, maxcount = 0\<rparr>"

record procheap =
  partial_list :: u64
  sc_idx :: u64

record world =
  w_mem :: memory
  w_rgs :: regions
  w_queue :: aqueue
  w_desc :: "u64 \<Rightarrow> descriptor"
  w_heaps :: "procheap list"
  w_roots :: "u64 list"
  w_flist :: "freelist list"

definition SB_SHIFT :: nat where "SB_SHIFT = 16"
definition DESC_SHIFT :: nat where "DESC_SHIFT = 6"
definition DESCSIZE :: u64 where "DESCSIZE = 64"
definition SB_REGION_EXPAND_SIZE :: u64 where "SB_REGION_EXPAND_SIZE = 1 * 1024 * 1024 * 1024"
definition MAX_ROOTS :: nat where "MAX_ROOTS = 1024"

lemmas bm_consts = SB_SHIFT_def DESC_SHIFT_def DESCSIZE_def

section \<open>Addresses\<close>

definition desc_lookup :: "regions \<Rightarrow> u64 \<Rightarrow> u64" where
  "desc_lookup R ptr =
     (let sb_index = drop_bit SB_SHIFT ptr - drop_bit SB_SHIFT (Regions_lookup R SB_IDX)
      in Regions_lookup R DESC_IDX + sb_index * DESCSIZE)"

definition desc_index :: "regions \<Rightarrow> u64 \<Rightarrow> u64" where
  "desc_index R desc = drop_bit DESC_SHIFT desc - drop_bit DESC_SHIFT (Regions_lookup R DESC_IDX)"

definition sb_lookup :: "regions \<Rightarrow> u64 \<Rightarrow> u64" where
  "sb_lookup R desc = Regions_lookup R SB_IDX + push_bit SB_SHIFT (desc_index R desc)"

text \<open>
  \<open>&heaps[i]\<close>: the array follows the mutex and its attribute in \<open>BaseMeta\<close>, aligned to a cache
  line, and each \<open>ProcHeap\<close> is one line.  \<open>heap_at\<close> is the element that an address denotes.
\<close>

definition heap_addr :: "regions \<Rightarrow> nat \<Rightarrow> u64" where
  "heap_addr R i = Regions_lookup R META_IDX + 64 + 64 * of_nat i"

definition heap_at :: "regions \<Rightarrow> u64 \<Rightarrow> nat result" where
  "heap_at R a =
     (if a = 0 then Inl NullDeref else
      let d = a - Regions_lookup R META_IDX - 64; i = unat d div 64 in
      if unat d mod 64 = 0 \<and> i \<le> NLIST then Inr i else Inl OutOfBounds)"

definition compute_idx :: "u64 \<Rightarrow> u64 \<Rightarrow> nat \<Rightarrow> u32 result" where
  "compute_idx superblock block sc =
     (if sc \<ge> NLIST then Inl OutOfBounds else
      let sc_block_size = (ucast (indextosize myclasssize ! sc) :: u32);
          diff = (ucast (block - superblock) :: u32)
      in Inr (diff div sc_block_size))"

definition round_up :: "u64 \<Rightarrow> u64 \<Rightarrow> u64 result" where
  "round_up numToRound multiple =
     bindE (assertE ''multiple && ((multiple & (multiple - 1)) == 0)''
       (multiple \<noteq> 0 \<and> multiple AND (multiple - 1) = 0)) (\<lambda>_.
     Inr ((numToRound + multiple - 1) AND NOT (multiple - 1)))"

section \<open>Partial lists\<close>

definition upd_desc :: "u64 \<Rightarrow> (descriptor \<Rightarrow> descriptor) \<Rightarrow> world \<Rightarrow> world" where
  "upd_desc a f w = w\<lparr>w_desc := (w_desc w)(a := f (w_desc w a))\<rparr>"

definition set_partial :: "nat \<Rightarrow> u64 \<Rightarrow> world \<Rightarrow> world" where
  "set_partial h v w = w\<lparr>w_heaps := (w_heaps w)[h := (w_heaps w ! h)\<lparr>partial_list := v\<rparr>]\<rparr>"

definition heap_push_partial :: "world \<Rightarrow> u64 \<Rightarrow> world result" where
  "heap_push_partial w desc =
     bindE (heap_at (w_rgs w) (crossptr_get (w_rgs w) META_IDX (dheap (w_desc w desc)))) (\<lambda>h.
     let R = w_rgs w;
         cell = partial_list (w_heaps w ! h);
         oldhead = acpc_load R DESC_IDX cell;
         newhead = ptr_cnt_set desc (pc_cnt oldhead + 1);
         w = upd_desc desc (\<lambda>d. d\<lparr>next_partial := atomic_pptr_store (desc + 8) (pc_ptr oldhead)\<rparr>) w
     in case acpc_compare_exchange_weak R DESC_IDX False cell oldhead newhead of
          (True, cell', _) \<Rightarrow> Inr (set_partial h cell' w)
        | (False, _, _) \<Rightarrow> Inl NoProgress)"

definition heap_pop_partial :: "world \<Rightarrow> nat \<Rightarrow> (u64 \<times> world) result" where
  "heap_pop_partial w h =
     (let R = w_rgs w;
          cell = partial_list (w_heaps w ! h);
          oldhead = acpc_load R DESC_IDX cell;
          olddesc = pc_ptr oldhead
      in if olddesc = 0 then Inr (0, w)
         else
           let desc = atomic_pptr_load (olddesc + 8) (next_partial (w_desc w olddesc));
               newhead = ptr_cnt_set desc (pc_cnt oldhead)
           in case acpc_compare_exchange_weak R DESC_IDX False cell oldhead newhead of
                (True, cell', _) \<Rightarrow> Inr (olddesc, set_partial h cell' w)
              | (False, _, _) \<Rightarrow> Inl NoProgress)"

section \<open>Superblocks\<close>

text \<open>The loop of \<open>organize_sb_list\<close>, over the descriptors after the first.\<close>

fun organize_loop :: "nat \<Rightarrow> u64 \<Rightarrow> world \<Rightarrow> world result" where
  "organize_loop 0 desc w = Inr w"
| "organize_loop (Suc n) desc w =
     (let desc = desc + DESCSIZE;
          w = upd_desc desc (\<lambda>_. Descriptor desc) w
      in bindE (LockFreeQueue_push (w_queue w) (desc_index (w_rgs w) desc)) (\<lambda>q.
         organize_loop n desc (w\<lparr>w_queue := q\<rparr>)))"

definition organize_sb_list :: "world \<Rightarrow> u64 \<Rightarrow> u64 \<Rightarrow> world result" where
  "organize_sb_list w start count =
     (let desc = desc_lookup (w_rgs w) start;
          w = upd_desc desc (\<lambda>_. Descriptor desc) w
      in bindE (LockFreeQueue_push (w_queue w) (desc_index (w_rgs w) desc)) (\<lambda>q.
         organize_loop (unat count - 1) desc (w\<lparr>w_queue := q\<rparr>)))"

definition set_region :: "region_index \<Rightarrow> region \<Rightarrow> regions \<Rightarrow> regions" where
  "set_region i r R = R\<lparr>rgs := (rgs R)[idx_no i := Some r]\<rparr>"

definition small_sb_alloc :: "world \<Rightarrow> u64 \<Rightarrow> (u64 \<times> world) result" where
  "small_sb_alloc w sz =
     (if sz \<noteq> SBSIZE then Inl (AssertFailed ''0'') else
      bindE (LockFreeQueue_pop (w_queue w)) (\<lambda>(res, q).
      let w = w\<lparr>w_queue := q\<rparr>; R = w_rgs w in
      case res of
        Some i \<Rightarrow> Inr (sb_lookup R (Regions_lookup R DESC_IDX + i * DESCSIZE), w)
      | None \<Rightarrow>
          (case rgs R ! idx_no SB_IDX of
             None \<Rightarrow> Inl NullDeref
           | Some r \<Rightarrow>
               let old_curr_addr = curr_addr r;
                   aln_adj = old_curr_addr AND (PAGESIZE - 1);
                   res = (if aln_adj \<noteq> 0 then old_curr_addr + (PAGESIZE - aln_adj) else old_curr_addr);
                   next = res + SB_REGION_EXPAND_SIZE
               in if next > base_addr r + FILESIZE r then Inl (AssertFailed ''0'')
                  else case atomic_pptr_compare_exchange_strong (base_addr r) (rf_curr (rfile r)) old_curr_addr next of
                    (True, new, _) \<Rightarrow>
                      let w = w\<lparr>w_rgs := set_region SB_IDX (r\<lparr>rfile := (rfile r)\<lparr>rf_curr := new\<rparr>\<rparr>) R\<rparr>
                      in bindE (organize_sb_list w (res + SBSIZE) (SB_REGION_EXPAND_SIZE div SBSIZE - 1)) (\<lambda>w.
                         let desc = desc_lookup (w_rgs w) res in
                         Inr (res, upd_desc desc (\<lambda>_. Descriptor desc) w))
                  | (False, _, _) \<Rightarrow> Inl NoProgress)))"

definition small_sb_retire :: "world \<Rightarrow> u64 \<Rightarrow> u64 \<Rightarrow> world result" where
  "small_sb_retire w sb sz =
     bindE (assertE ''size == SBSIZE'' (sz = SBSIZE)) (\<lambda>_.
     let desc = desc_lookup (w_rgs w) sb in Inr (upd_desc desc (\<lambda>_. Descriptor desc) w))"

definition large_sb_retire :: "world \<Rightarrow> u64 \<Rightarrow> u64 \<Rightarrow> world result" where
  "large_sb_retire w sb sz =
     bindE (assertE ''size%SBSIZE == 0'' (sz mod SBSIZE = 0)) (\<lambda>_.
     organize_sb_list w sb (sz div SBSIZE))"

definition expand_get_large_sb :: "world \<Rightarrow> u64 \<Rightarrow> (u64 \<times> world) result" where
  "expand_get_large_sb w sz =
     (case rgs (w_rgs w) ! idx_no SB_IDX of
        None \<Rightarrow> Inl NullDeref
      | Some r \<Rightarrow>
          bindE (Regions_expand (w_rgs w) SB_IDX (rf_curr (rfile r)) PAGESIZE sz) (\<lambda>(res, a, R).
          bindE (assertE ''space runs out!'' (res \<noteq> -1)) (\<lambda>_.
          case a of
            None \<Rightarrow> Inl NoProgress
          | Some ret \<Rightarrow>
              let w = w\<lparr>w_rgs := R\<rparr>; desc = desc_lookup R ret
              in Inr (ret, upd_desc desc (\<lambda>_. Descriptor desc) w))))"

definition large_sb_alloc :: "world \<Rightarrow> u64 \<Rightarrow> (u64 \<times> world) result" where
  "large_sb_alloc w sz = expand_get_large_sb w sz"

definition alloc_large_block :: "world \<Rightarrow> u64 \<Rightarrow> (u64 \<times> world) result" where
  "alloc_large_block w sz = large_sb_alloc w sz"

section \<open>Refilling a thread cache\<close>

text \<open>
  The walk that cuts a batch off a free chain: at most \<open>n\<close> blocks from \<open>cur\<close>, giving the last
  block taken, the block after it and the number taken.
\<close>

fun walk :: "memory \<Rightarrow> nat \<Rightarrow> u64 \<Rightarrow> u64 \<Rightarrow> u32 \<Rightarrow> u64 \<times> u64 \<times> u32" where
  "walk m 0 prev cur num = (prev, cur, num)"
| "walk m (Suc n) prev cur num =
     (if cur = 0 then (prev, cur, num) else walk m n cur (pptr_get m cur) (num + 1))"

definition grow_maxsize :: "freelist \<Rightarrow> u32 \<Rightarrow> u32 \<Rightarrow> freelist" where
  "grow_maxsize f max_flist_num maxcnt =
     (if max_flist_num * 2 < maxcnt then SetMaxSize f (max_flist_num * 2) else SetMaxSize f maxcnt)"

definition set_flist :: "nat \<Rightarrow> freelist \<Rightarrow> world \<Rightarrow> world" where
  "set_flist sc f w = w\<lparr>w_flist := (w_flist w)[sc := f]\<rparr>"

text \<open>\<open>anchor.avail * block_size\<close> is computed in 32 bits before it is added to the pointer.\<close>

definition block_at :: "u64 \<Rightarrow> 31 word \<Rightarrow> u32 \<Rightarrow> u64" where
  "block_at superblock av bsize = superblock + ucast ((ucast av :: u32) * bsize)"

text \<open>
  \<open>malloc_from_partial\<close>.  Each \<open>goto retry\<close> follows a pop from the partial list; \<open>fuel\<close> bounds
  the pops.
\<close>

fun malloc_from_partial :: "nat \<Rightarrow> nat \<Rightarrow> world \<Rightarrow> u64 \<Rightarrow> (u64 \<times> world) result" where
  "malloc_from_partial 0 sc w block_num = Inl NoProgress"
| "malloc_from_partial (Suc fuel) sc w block_num =
     bindE (heap_pop_partial w sc) (\<lambda>(desc, w).
     if desc = 0 then Inr (block_num, w) else
     let oldanchor = danchor (w_desc w desc);
         maxcnt = maxcount (w_desc w desc);
         bsize = block_size (w_desc w desc);
         superblock = crossptr_get (w_rgs w) SB_IDX (dsuperblock (w_desc w desc));
         cache = w_flist w ! sc;
         max_flist_num = Maxsize cache
     in if astate oldanchor = SB_EMPTY then
          bindE (small_sb_retire w superblock SBSIZE) (\<lambda>w. malloc_from_partial fuel sc w block_num)
        else if ucast (acount oldanchor) \<le> max_flist_num then
          bindE (assertE ''oldanchor.state == SB_PARTIAL'' (astate oldanchor = SB_PARTIAL)) (\<lambda>_.
          let newanchor = \<lparr>avail = ucast maxcnt, acount = 0, astate = SB_FULL\<rparr>;
              w = upd_desc desc (\<lambda>d. d\<lparr>danchor := newanchor\<rparr>) w;
              block_take = (ucast (acount oldanchor) :: u32);
              block = block_at superblock (avail oldanchor) bsize
          in Inr (block_num + ucast block_take, set_flist sc (PushList cache block block_take) w))
        else
          let head = block_at superblock (avail oldanchor) bsize;
              (prev, cur, num) = walk (w_mem w) (unat max_flist_num) head head 0;
              w = w\<lparr>w_mem := pptr_set (w_mem w) prev 0\<rparr>
          in bindE (compute_idx superblock cur sc) (\<lambda>idx.
             let newanchor = \<lparr>avail = ucast idx, acount = ucast ((ucast (acount oldanchor) :: u32) - num), astate = SB_PARTIAL\<rparr>;
                 w = upd_desc desc (\<lambda>d. d\<lparr>danchor := newanchor\<rparr>) w
             in bindE (heap_push_partial w desc) (\<lambda>w.
                let block_num = block_num + ucast num
                in Inr (block_num, set_flist sc (grow_maxsize (PushList cache head (ucast block_num)) max_flist_num maxcnt) w))))"

text \<open>The loop that links the blocks of a new superblock.\<close>

definition link_blocks :: "memory \<Rightarrow> u64 \<Rightarrow> u32 \<Rightarrow> nat \<Rightarrow> memory" where
  "link_blocks m superblock bsize n =
     foldl (\<lambda>m idx. pptr_set m (superblock + ucast ((of_nat idx :: u32) * bsize))
                              (superblock + ucast ((of_nat idx + 1 :: u32) * bsize))) m [0..<n]"

definition malloc_from_newsb :: "nat \<Rightarrow> world \<Rightarrow> u64 \<Rightarrow> (u64 \<times> world) result" where
  "malloc_from_newsb sc w block_num =
     (if sc \<ge> NLIST then Inl OutOfBounds else
      let bsize = (ucast (indextosize myclasssize ! sc) :: u32);
          maxcnt = (ucast (SBSIZE div ucast bsize) :: u32)
      in bindE (small_sb_alloc w SBSIZE) (\<lambda>(superblock, w).
      let R = w_rgs w;
          desc = desc_lookup R superblock;
          w = upd_desc desc (\<lambda>d. d\<lparr>dheap := crossptr_assign R META_IDX (heap_addr R sc),
                 block_size := bsize, maxcount := maxcnt,
                 dsuperblock := crossptr_assign R SB_IDX superblock\<rparr>) w;
          cache = w_flist w ! sc;
          max_flist_num = Maxsize cache;
          w = w\<lparr>w_mem := link_blocks (w_mem w) superblock bsize (unat (maxcnt - 1))\<rparr>
      in if max_flist_num \<ge> maxcnt then
           let anchor = \<lparr>avail = ucast maxcnt, acount = 0, astate = SB_FULL\<rparr>;
               w = upd_desc desc (\<lambda>d. d\<lparr>danchor := anchor\<rparr>) w
           in Inr (block_num + ucast maxcnt,
                   set_flist sc (grow_maxsize (PushList cache superblock maxcnt) max_flist_num maxcnt) w)
         else
           let (prev, cur, num) = walk (w_mem w) (unat max_flist_num) superblock superblock 0;
               w = w\<lparr>w_mem := pptr_set (w_mem w) prev 0\<rparr>
           in bindE (compute_idx superblock cur sc) (\<lambda>idx.
              let anchor = \<lparr>avail = ucast idx, acount = ucast (maxcnt - num), astate = SB_PARTIAL\<rparr>;
                  w = upd_desc desc (\<lambda>d. d\<lparr>danchor := anchor\<rparr>) w
              in bindE (heap_push_partial w desc) (\<lambda>w.
                 Inr (block_num + ucast max_flist_num,
                      set_flist sc (grow_maxsize (PushList cache superblock max_flist_num) max_flist_num maxcnt) w)))))"

text \<open>More pops than there are descriptors.\<close>

definition RETRY_FUEL :: nat where "RETRY_FUEL = 2 ^ MAX_DESC_AMOUNT_BITS"

definition fill_cache :: "nat \<Rightarrow> world \<Rightarrow> world result" where
  "fill_cache sc w =
     bindE (malloc_from_partial RETRY_FUEL sc w 0) (\<lambda>(block_num, w).
     if block_num = 0 then bindE (malloc_from_newsb sc w block_num) (\<lambda>(_, w). Inr w) else Inr w)"

section \<open>Flushing a thread cache\<close>

text \<open>
  The inner loop: how many blocks at the front of the cache lie in the superblock of its head,
  and the last of them.  \<open>n\<close> is the number of blocks the cache holds beyond \<open>block_count\<close>.
\<close>

fun flush_span :: "memory \<Rightarrow> u64 \<Rightarrow> nat \<Rightarrow> u64 \<Rightarrow> u32 \<Rightarrow> u64 \<times> u32" where
  "flush_span m superblock 0 tail block_count = (tail, block_count)"
| "flush_span m superblock (Suc n) tail block_count =
     (let ptr = pptr_get m tail in
      if ptr < superblock \<or> ptr \<ge> superblock + SBSIZE then (tail, block_count)
      else flush_span m superblock n ptr (block_count + 1))"

definition flush_anchor :: "anchor \<Rightarrow> u32 \<Rightarrow> u32 \<Rightarrow> u32 \<Rightarrow> anchor" where
  "flush_anchor oldanchor idx block_count maxcnt =
     (let newanchor = oldanchor\<lparr>avail := ucast idx\<rparr>;
          newanchor = (if astate oldanchor = SB_FULL then newanchor\<lparr>astate := SB_PARTIAL\<rparr> else newanchor)
      in if ucast (acount oldanchor) + block_count = maxcnt
         then newanchor\<lparr>acount := ucast (maxcnt - 1), astate := SB_EMPTY\<rparr>
         else newanchor\<lparr>acount := acount oldanchor + ucast block_count\<rparr>)"

text \<open>One iteration of the outer loop, and the loop; each iteration takes at least one block.\<close>

definition flush_step :: "nat \<Rightarrow> world \<Rightarrow> world result" where
  "flush_step sc w =
     (let R = w_rgs w;
          cache = w_flist w ! sc;
          bsize = (ucast (indextosize myclasssize ! sc) :: u32);
          head = head_list cache;
          desc = desc_lookup R head;
          superblock = crossptr_get R SB_IDX (dsuperblock (w_desc w desc));
          (tail, block_count) = flush_span (w_mem w) superblock (unat (Size cache) - 1) head 1;
          w = set_flist sc (PopList cache (pptr_get (w_mem w) tail) (ucast block_count)) w
      in bindE (compute_idx superblock head sc) (\<lambda>idx.
      let oldanchor = danchor (w_desc w desc);
          next = block_at superblock (avail oldanchor) bsize;
          newanchor = flush_anchor oldanchor idx block_count (maxcount (w_desc w desc));
          w = w\<lparr>w_mem := pptr_set (w_mem w) tail next\<rparr>;
          w = upd_desc desc (\<lambda>d. d\<lparr>danchor := newanchor\<rparr>) w
      in if astate oldanchor = SB_FULL
         then if astate newanchor = SB_EMPTY then small_sb_retire w superblock SBSIZE
              else heap_push_partial w desc
         else Inr w))"

fun flush_loop :: "nat \<Rightarrow> nat \<Rightarrow> world \<Rightarrow> world result" where
  "flush_loop 0 sc w = (if Size (w_flist w ! sc) > 0 then Inl NoProgress else Inr w)"
| "flush_loop (Suc fuel) sc w =
     (if Size (w_flist w ! sc) > 0 then bindE (flush_step sc w) (flush_loop fuel sc) else Inr w)"

definition flush_cache :: "nat \<Rightarrow> world \<Rightarrow> world result" where
  "flush_cache sc w =
     (if sc \<ge> NLIST then Inl OutOfBounds else flush_loop (unat (Size (w_flist w ! sc))) sc w)"

fun flush_upto :: "nat \<Rightarrow> world \<Rightarrow> world result" where
  "flush_upto 0 w = Inr w"
| "flush_upto (Suc i) w = bindE (flush_upto i w) (flush_cache i)"

definition public_flush_cache :: "bool \<Rightarrow> world \<Rightarrow> world result" where
  "public_flush_cache initialized w = (if initialized then flush_upto NLIST w else Inr w)"

section \<open>Entry points\<close>

definition do_malloc :: "world \<Rightarrow> u64 \<Rightarrow> (u64 \<times> world) result" where
  "do_malloc w sz =
     (if sz > MAX_SZ then
        bindE (assertE ''size<=SBSIZE'' (sz \<le> SBSIZE)) (\<lambda>_.
        bindE (round_up sz SBSIZE) (\<lambda>sbs.
        bindE (assertE ''sbs<=SBSIZE'' (sbs \<le> SBSIZE)) (\<lambda>_.
        bindE (small_sb_alloc w sbs) (\<lambda>(ptr, w).
        bindE (assertE ''ptr'' (ptr \<noteq> 0)) (\<lambda>_.
        let R = w_rgs w; desc = desc_lookup R ptr in
        Inr (ptr, upd_desc desc (\<lambda>d. d\<lparr>dheap := crossptr_assign R META_IDX (heap_addr R NLIST),
             block_size := ucast sbs, maxcount := 1, dsuperblock := crossptr_assign R SB_IDX ptr,
             danchor := \<lparr>avail = 0, acount = 0, astate = SB_FULL\<rparr>\<rparr>) w))))))
      else
        bindE (RoundUp sz) (\<lambda>sz.
        case sizetoindex myclasssize sz of
          None \<Rightarrow> Inl NullDeref
        | Some i \<Rightarrow>
            let sc = unat i in
            if sc \<ge> NLIST then Inl OutOfBounds else
            bindE (if Size (w_flist w ! sc) = 0 then fill_cache sc w else Inr w) (\<lambda>w.
            bindE (Pop (w_mem w, w_flist w ! sc)) (\<lambda>(obj, m, f).
            Inr (obj, set_flist sc f (w\<lparr>w_mem := m\<rparr>))))))"

definition do_free :: "world \<Rightarrow> u64 \<Rightarrow> world result" where
  "do_free w ptr =
     (if ptr = 0 then Inr w else
      bindE (Regions_in_range (w_rgs w) SB_IDX ptr) (\<lambda>b.
      bindE (assertE ''_rgs->in_range(SB_IDX,ptr)'' b) (\<lambda>_.
      let R = w_rgs w; desc = desc_lookup R ptr in
      bindE (heap_at R (crossptr_deref R META_IDX (dheap (w_desc w desc)))) (\<lambda>h.
      let sc = unat (sc_idx (w_heaps w ! h)) in
      if sc = NLIST then
        large_sb_retire w (crossptr_get R SB_IDX (dsuperblock (w_desc w desc))) (ucast (block_size (w_desc w desc)))
      else if sc > NLIST then Inl OutOfBounds
      else
        let cache = w_flist w ! sc in
        bindE (if Size cache > Maxsize cache then flush_cache sc w else Inr w) (\<lambda>w.
        case Push (w_mem w, w_flist w ! sc) ptr of
          (m, f) \<Rightarrow> Inr (set_flist sc f (w\<lparr>w_mem := m\<rparr>)))))))"

section \<open>Roots\<close>

definition set_root :: "world \<Rightarrow> u64 \<Rightarrow> nat \<Rightarrow> (u64 \<times> world) result" where
  "set_root w ptr i =
     bindE (assertE ''i<MAX_ROOTS'' (i < MAX_ROOTS)) (\<lambda>_.
     let res = (if \<not> crossptr_is_null (w_roots w ! i) then crossptr_get (w_rgs w) SB_IDX (w_roots w ! i) else 0)
     in Inr (res, w\<lparr>w_roots := (w_roots w)[i := crossptr_assign (w_rgs w) SB_IDX ptr]\<rparr>))"

definition get_root :: "world \<Rightarrow> nat \<Rightarrow> u64 result" where
  "get_root w i =
     bindE (assertE ''i<MAX_ROOTS'' (i < MAX_ROOTS)) (\<lambda>_.
     Inr (crossptr_get (w_rgs w) SB_IDX (w_roots w ! i)))"

section \<open>Construction\<close>

text \<open>
  \<open>BaseMeta::BaseMeta\<close> without the mutex: the heaps and the roots, then the first expansion of
  the superblock region, whose first superblock is left out so that no offset is zero.
\<close>

definition BaseMeta_new :: "world \<Rightarrow> world result" where
  "BaseMeta_new w =
     (let R = w_rgs w;
          w = w\<lparr>w_heaps := map (\<lambda>idx. \<lparr>partial_list = acpc_store R DESC_IDX (ptr_cnt_set 0 0), sc_idx = of_nat idx\<rparr>) [0..<NLIST + 1],
                 w_roots := replicate MAX_ROOTS 0\<rparr>
      in case rgs R ! idx_no SB_IDX of
           None \<Rightarrow> Inl NullDeref
         | Some r \<Rightarrow>
             bindE (Regions_expand R SB_IDX (rf_curr (rfile r)) SBSIZE SB_REGION_EXPAND_SIZE) (\<lambda>(res, a, R).
             bindE (assertE ''warmup sb allocation fails!'' (res \<noteq> -1)) (\<lambda>_.
             case a of
               None \<Rightarrow> Inl NoProgress
             | Some tmp_sec_start \<Rightarrow>
                 (case rgs R ! idx_no SB_IDX of
                    None \<Rightarrow> Inl NullDeref
                  | Some r \<Rightarrow>
                      let R = set_region SB_IDX (store_heap_start r tmp_sec_start) R;
                          R = R\<lparr>regions_address := (regions_address R)[idx_no SB_IDX := tmp_sec_start]\<rparr>
                      in organize_sb_list (w\<lparr>w_rgs := R\<rparr>) (tmp_sec_start + SBSIZE)
                           (SB_REGION_EXPAND_SIZE div SBSIZE - 1)))))"

end
