(* ===== verification/Bx_Geometry.thy ===== *)
theory Bx_Geometry
  imports Bx_BaseMeta
begin

unbundle bit_operations_syntax

text \<open>
  The layout of superblocks, descriptors and blocks: where the \<open>k\<close>-th superblock, its
  descriptor and the \<open>j\<close>-th block of a class lie, that the address computations of
  \<open>BaseMeta.cpp\<close> (\<open>desc_lookup\<close>, \<open>sb_lookup\<close>, \<open>compute_idx\<close>) are exact on them, and that the byte
  ranges of distinct blocks do not meet.  Class \<open>NLIST\<close> stands for superblocks that are used as
  one large block.
\<close>

section \<open>Layout\<close>

definition sb_addr :: "regions \<Rightarrow> nat \<Rightarrow> u64" where
  "sb_addr R k = Regions_lookup R SB_IDX + of_nat (k * 65536)"

definition desc_addr :: "regions \<Rightarrow> nat \<Rightarrow> u64" where
  "desc_addr R k = Regions_lookup R DESC_IDX + of_nat (k * 64)"

definition cls_size :: "nat \<Rightarrow> nat" where
  "cls_size c = (if c < NLIST then class_bytes c else 65536)"

definition cls_count :: "nat \<Rightarrow> nat" where
  "cls_count c = 65536 div cls_size c"

definition blk :: "regions \<Rightarrow> nat \<Rightarrow> nat \<Rightarrow> nat \<Rightarrow> u64" where
  "blk R k c j = sb_addr R k + of_nat (j * cls_size c)"

definition sb_region :: "regions \<Rightarrow> region" where
  "sb_region R = the (rgs R ! idx_no SB_IDX)"

definition nsb :: "regions \<Rightarrow> nat" where
  "nsb R = (unat (curr_addr (sb_region R)) - unat (Regions_lookup R SB_IDX)) div 65536"

text \<open>
  The regions are placed as \<open>_BXP_init\<close> and the constructor of \<open>BaseMeta\<close> leave them: the
  superblock region starts on a superblock boundary and holds a whole number of them, at most
  \<open>2^24\<close>; descriptors start on a cache line; all addresses have 48 bits.
\<close>

definition geom :: "regions \<Rightarrow> bool" where
  "geom R \<longleftrightarrow>
     length (rgs R) = LAST_IDX \<and> rgs R ! idx_no SB_IDX \<noteq> None \<and> region_ok (sb_region R)
     \<and> 0 < unat (Regions_lookup R SB_IDX) \<and> unat (Regions_lookup R SB_IDX) mod 65536 = 0
     \<and> unat (curr_addr (sb_region R)) = unat (Regions_lookup R SB_IDX) + nsb R * 65536 \<and> 0 < nsb R
     \<and> unat (base_addr (sb_region R)) + unat (FILESIZE (sb_region R)) \<le> unat (Regions_lookup R SB_IDX) + 2 ^ 40
     \<and> unat (Regions_lookup R DESC_IDX) mod 64 = 0 \<and> 0 < unat (Regions_lookup R DESC_IDX)
     \<and> unat (Regions_lookup R DESC_IDX) + 2 ^ 31 < 2 ^ 48
     \<and> unat (Regions_lookup R META_IDX) + 2 ^ 20 < 2 ^ 48"

lemma geom_nsb:
  assumes "geom R"
  shows "nsb R \<le> 2 ^ 24" "unat (Regions_lookup R SB_IDX) + nsb R * 65536 < 2 ^ 48"
proof -
  have r: "region_ok (sb_region R)" and c: "unat (curr_addr (sb_region R)) = unat (Regions_lookup R SB_IDX) + nsb R * 65536"
    and f: "unat (base_addr (sb_region R)) + unat (FILESIZE (sb_region R)) \<le> unat (Regions_lookup R SB_IDX) + 2 ^ 40"
    using assms by (auto simp: geom_def)
  show "unat (Regions_lookup R SB_IDX) + nsb R * 65536 < 2 ^ 48"
    using r c by (simp add: region_ok_def)
  have "nsb R * 65536 \<le> 2 ^ 40" using r c f by (simp add: region_ok_def)
  then show "nsb R \<le> 2 ^ 24" by simp
qed

lemma unat_sb_addr:
  assumes "geom R" "k \<le> nsb R"
  shows "unat (sb_addr R k) = unat (Regions_lookup R SB_IDX) + k * 65536"
  unfolding sb_addr_def using geom_nsb(2) [OF assms(1)] assms(2)
  by (intro unat_plus_of_nat) (simp add: le_less_trans)

lemma unat_desc_addr:
  assumes "geom R" "k \<le> 2 ^ 24"
  shows "unat (desc_addr R k) = unat (Regions_lookup R DESC_IDX) + k * 64"
  unfolding desc_addr_def using assms by (intro unat_plus_of_nat) (simp add: geom_def)

section \<open>Classes\<close>

lemma cls_size_bounds: "8 \<le> cls_size c" "cls_size c \<le> 65536" "8 dvd cls_size c"
  using class_bytes_bounds [of c] by (auto simp: cls_size_def NLIST_def)

lemma cls_size_small: "c < NLIST \<Longrightarrow> cls_size c \<le> 24576"
  using class_bytes_bounds [of c] by (simp add: cls_size_def NLIST_def)

lemma cls_count_bounds: "1 \<le> cls_count c" "cls_count c \<le> 8192"
proof -
  have "0 < cls_size c" using cls_size_bounds(1) [of c] by simp
  then show "1 \<le> cls_count c"
    using cls_size_bounds(2) [of c] by (simp add: cls_count_def less_eq_div_iff_mult_less_eq)
  have "65536 div cls_size c \<le> 65536 div 8" by (rule div_le_mono2) (use cls_size_bounds(1) in auto)
  then show "cls_count c \<le> 8192" by (simp add: cls_count_def)
qed

lemma cls_count_small: "c < NLIST \<Longrightarrow> 2 \<le> cls_count c"
  using cls_size_small [of c] cls_size_bounds(1) [of c]
  by (simp add: cls_count_def less_eq_div_iff_mult_less_eq)

lemma cls_count_NLIST [simp]: "cls_count NLIST = 1" "cls_size NLIST = 65536"
  by (simp_all add: cls_count_def cls_size_def)

lemma cls_extent: "j < cls_count c \<Longrightarrow> j * cls_size c + cls_size c \<le> 65536"
proof -
  assume "j < cls_count c"
  then have "Suc j \<le> 65536 div cls_size c" by (simp add: cls_count_def)
  then have "Suc j * cls_size c \<le> 65536"
    using cls_size_bounds(1) [of c] by (simp add: less_eq_div_iff_mult_less_eq)
  then show ?thesis by simp
qed

lemma block_words:
  assumes "c < NLIST"
  shows "unat (ucast (indextosize myclasssize ! c) :: u32) = cls_size c"
    "unat (ucast (SBSIZE div ucast (ucast (indextosize myclasssize ! c) :: u32)) :: u32) = cls_count c"
proof -
  have u: "unat (indextosize myclasssize ! c) = cls_size c"
    using assms by (simp add: indextosize_class cls_size_def NLIST_def)
  moreover have small: "cls_size c < 2 ^ 32" using cls_size_bounds(2) [of c] by simp
  ultimately show u32: "unat (ucast (indextosize myclasssize ! c) :: u32) = cls_size c"
    by (simp add: unsigned_ucast_eq take_bit_nat_eq_self)
  have "unat (ucast (ucast (indextosize myclasssize ! c) :: u32) :: u64) = cls_size c"
    by (subst unat_ucast_lt) (use small in \<open>simp_all only: u32, simp\<close>)
  then have "unat (SBSIZE div ucast (ucast (indextosize myclasssize ! c) :: u32)) = cls_count c"
    by (simp add: unat_div_distrib SBSIZE_eq cls_count_def)
  moreover have "cls_count c < 2 ^ 32" using cls_count_bounds(2) [of c] by simp
  ultimately show "unat (ucast (SBSIZE div ucast (ucast (indextosize myclasssize ! c) :: u32)) :: u32) = cls_count c"
    by (simp add: unsigned_ucast_eq take_bit_nat_eq_self)
qed

section \<open>Blocks\<close>

lemma unat_blk:
  assumes "geom R" "k < nsb R" "j < cls_count c"
  shows "unat (blk R k c j) = unat (Regions_lookup R SB_IDX) + k * 65536 + j * cls_size c"
proof -
  have "k * 65536 + 65536 \<le> nsb R * 65536" using assms(2) by simp
  then have "unat (Regions_lookup R SB_IDX) + k * 65536 + j * cls_size c < 2 ^ 48"
    using cls_extent [OF assms(3)] geom_nsb(2) [OF assms(1)] cls_size_bounds(1) [of c] by linarith
  then have "unat (Regions_lookup R SB_IDX) + k * 65536 + j * cls_size c < 2 ^ 64" by simp
  then show ?thesis
    unfolding blk_def using unat_sb_addr [OF assms(1), of k] assms(2)
    by (subst unat_plus_of_nat) auto
qed

lemma blk_0: "blk R k c 0 = sb_addr R k"
  by (simp add: blk_def)

lemma blk_block_addr:
  assumes "geom R" "k < nsb R" "j < cls_count c"
  shows "block_addr (blk R k c j)"
proof -
  let ?S = "unat (Regions_lookup R SB_IDX)"
  have "k * 65536 + 65536 \<le> nsb R * 65536" using assms(2) by simp
  then have "?S + k * 65536 + j * cls_size c < 2 ^ 48"
    using cls_extent [OF assms(3)] geom_nsb(2) [OF assms(1)] cls_size_bounds(1) [of c] by linarith
  moreover have "(?S + k * 65536 + j * cls_size c) mod 8 = 0"
  proof -
    have "65536 dvd ?S" using assms(1) by (auto simp: geom_def)
    then have "8 dvd ?S" by (rule dvd_trans [rotated]) simp
    moreover have "8 dvd k * (65536 :: nat)" by simp
    ultimately have "8 dvd ?S + k * 65536 + j * cls_size c" using cls_size_bounds(3) [of c] by simp
    then show ?thesis by simp
  qed
  moreover have "0 < ?S" using assms(1) by (simp add: geom_def)
  ultimately show ?thesis
    unfolding block_addr_def aligned8_def canonical_def unat_blk [OF assms]
    by (auto simp: word_unat_eq_iff unat_blk [OF assms])
qed

lemma blk_inj:
  assumes "geom R" "k < nsb R" "j < cls_count c" "k' < nsb R" "j' < cls_count c'"
    "blk R k c j = blk R k' c' j'"
  shows "k = k'" "c = c' \<Longrightarrow> j = j'"
proof -
  have eq: "k * 65536 + j * cls_size c = k' * 65536 + j' * cls_size c'"
    using assms unat_blk [of R k j c] unat_blk [of R k' j' c'] by simp
  moreover have "j * cls_size c < 65536" "j' * cls_size c' < 65536"
    using cls_extent [OF assms(3)] cls_extent [OF assms(5)] cls_size_bounds(1) [of c] cls_size_bounds(1) [of c']
    by linarith+
  ultimately show k: "k = k'" by linarith
  show "j = j'" if "c = c'" using eq k that cls_size_bounds(1) [of c] by simp
qed

text \<open>The byte at offset \<open>d\<close> of one block does not lie in the first \<open>e\<close> bytes of another.\<close>

lemma blk_bytes_disjoint:
  assumes "geom R" "k < nsb R" "j < cls_count c" "k' < nsb R" "j' < cls_count c'"
    "k = k' \<longrightarrow> c = c'" "blk R k c j \<noteq> blk R k' c' j'"
    "unat (a - blk R k c j) < cls_size c" "unat (a - blk R k' c' j') < cls_size c'"
  shows False
proof -
  let ?x = "blk R k c j" and ?y = "blk R k' c' j'"
  have e: "unat a = unat x + unat (a - x)" if "unat x + unat (a - x) < 2 ^ 64" for x
    using unat_add_lt [of x "a - x"] that by simp
  have c: "unat ?x < 2 ^ 48" "unat ?y < 2 ^ 48"
    using blk_block_addr [OF assms(1-3)] blk_block_addr [OF assms(1,4,5)]
    by (auto simp: block_addr_def canonical_def)
  have a: "unat a = unat ?x + unat (a - ?x)" "unat a = unat ?y + unat (a - ?y)"
    using e [of ?x] e [of ?y] c assms(8,9) cls_size_bounds(2) [of c] cls_size_bounds(2) [of c'] by auto
  let ?d = "unat (a - ?x)" and ?d' = "unat (a - ?y)"
  have eq: "k * 65536 + (j * cls_size c + ?d) = k' * 65536 + (j' * cls_size c' + ?d')"
    using a unat_blk [OF assms(1-3)] unat_blk [OF assms(1,4,5)] by linarith
  have lt: "j * cls_size c + ?d < 65536" "j' * cls_size c' + ?d' < 65536"
    using cls_extent [OF assms(3)] cls_extent [OF assms(5)] assms(8,9) by linarith+
  have k: "k = k'" using eq lt by linarith
  then have c': "c = c'" using assms(6) by simp
  have "j * cls_size c + ?d = j' * cls_size c + ?d'" using eq k c' by simp
  moreover have "(i * cls_size c + d) div cls_size c = i" if "d < cls_size c" for i d
    using that by simp
  ultimately have "j = j'" using assms(8,9) c' by metis
  then show False using assms(7) k c' by simp
qed

section \<open>Exactness of the address computations\<close>

lemma desc_lookup_in_sb:
  assumes "geom R" "unat x = unat (Regions_lookup R SB_IDX) + k * 65536 + d" "d < 65536"
  shows "desc_lookup R x = desc_addr R k"
proof -
  let ?S = "unat (Regions_lookup R SB_IDX)"
  obtain s where s: "?S = s * 65536" using assms(1) by (auto simp: geom_def mod_eq_0_iff_dvd elim: dvdE)
  have "unat (drop_bit 16 x) = s + k" using assms(2,3) by (simp add: unat_drop_bit s)
  moreover have "unat (drop_bit 16 (Regions_lookup R SB_IDX)) = s" by (simp add: unat_drop_bit s)
  ultimately have "unat (drop_bit 16 x - drop_bit 16 (Regions_lookup R SB_IDX)) = k"
    by (simp add: unat_sub_le word_le_nat_alt)
  then have "drop_bit 16 x - drop_bit 16 (Regions_lookup R SB_IDX) = of_nat k"
    by (rule unat_eq_of_nat)
  then show ?thesis by (simp add: desc_lookup_def desc_addr_def bm_consts)
qed

lemma desc_lookup_blk:
  "geom R \<Longrightarrow> k < nsb R \<Longrightarrow> j < cls_count c \<Longrightarrow> desc_lookup R (blk R k c j) = desc_addr R k"
  using unat_blk [of R k j c] cls_extent [of j c] cls_size_bounds(1) [of c]
  by (intro desc_lookup_in_sb [where d = "j * cls_size c"]) auto

lemma desc_lookup_sb: "geom R \<Longrightarrow> k < nsb R \<Longrightarrow> desc_lookup R (sb_addr R k) = desc_addr R k"
  using unat_sb_addr [of R k] by (intro desc_lookup_in_sb [where d = 0]) auto

lemma desc_index_addr:
  assumes "geom R" "k \<le> 2 ^ 24"
  shows "desc_index R (desc_addr R k) = of_nat k"
proof -
  obtain s where s: "unat (Regions_lookup R DESC_IDX) = s * 64"
    using assms(1) by (auto simp: geom_def mod_eq_0_iff_dvd elim: dvdE)
  have "unat (drop_bit 6 (desc_addr R k)) = s + k"
    by (simp add: unat_drop_bit unat_desc_addr [OF assms] s)
  moreover have "unat (drop_bit 6 (Regions_lookup R DESC_IDX)) = s" by (simp add: unat_drop_bit s)
  ultimately have "unat (drop_bit 6 (desc_addr R k) - drop_bit 6 (Regions_lookup R DESC_IDX)) = k"
    by (simp add: unat_sub_le word_le_nat_alt)
  then show ?thesis unfolding desc_index_def DESC_SHIFT_def by (rule unat_eq_of_nat)
qed

lemma sb_lookup_addr: "geom R \<Longrightarrow> k \<le> 2 ^ 24 \<Longrightarrow> sb_lookup R (desc_addr R k) = sb_addr R k"
  by (simp add: sb_lookup_def desc_index_addr sb_addr_def SB_SHIFT_def push_bit_eq_mult)

lemma desc_addr_inj:
  "geom R \<Longrightarrow> k \<le> 2 ^ 24 \<Longrightarrow> k' \<le> 2 ^ 24 \<Longrightarrow> desc_addr R k = desc_addr R k' \<longleftrightarrow> k = k'"
  using unat_desc_addr [of R k] unat_desc_addr [of R k'] by (metis add_left_cancel mult_right_cancel zero_neq_numeral)

lemma desc_addr_nonzero: "geom R \<Longrightarrow> k \<le> 2 ^ 24 \<Longrightarrow> desc_addr R k \<noteq> 0"
  using unat_desc_addr [of R k] by (auto simp: geom_def)

lemma desc_addr_canonical: "geom R \<Longrightarrow> k \<le> 2 ^ 24 \<Longrightarrow> canonical (desc_addr R k) \<and> canonical (desc_addr R k + 8)"
proof -
  assume a: "geom R" "k \<le> 2 ^ 24"
  then have "unat (desc_addr R k) + 8 < 2 ^ 48" using unat_desc_addr [OF a] by (simp add: geom_def)
  moreover from this have "unat (desc_addr R k + 8) = unat (desc_addr R k) + 8" by (subst unat_add_lt) auto
  ultimately show ?thesis by (simp add: canonical_def)
qed

lemma compute_idx_blk:
  assumes "geom R" "k < nsb R" "c < NLIST" "j < cls_count c"
  shows "compute_idx (sb_addr R k) (blk R k c j) c = Inr (of_nat j)"
proof -
  have lt: "j * cls_size c < 65536" using cls_extent [OF assms(4)] cls_size_bounds(1) [of c] by linarith
  have j: "j < 8192" using assms(4) cls_count_bounds(2) [of c] by simp
  have "unat (blk R k c j - sb_addr R k) = j * cls_size c"
    using lt by (simp add: blk_def unsigned_of_nat take_bit_nat_eq_self del: of_nat_mult)
  then have d: "unat (ucast (blk R k c j - sb_addr R k) :: u32) = j * cls_size c"
    using lt by (simp add: unsigned_ucast_eq take_bit_nat_eq_self)
  have "unat ((ucast (blk R k c j - sb_addr R k) :: u32) div ucast (indextosize myclasssize ! c)) = j"
    using block_words(1) [OF assms(3)] cls_size_bounds(1) [of c] by (simp add: unat_div_distrib d)
  then have "(ucast (blk R k c j - sb_addr R k) :: u32) div ucast (indextosize myclasssize ! c) = of_nat j"
    by (rule unat_eq_of_nat)
  then show ?thesis using assms(3) by (simp add: compute_idx_def)
qed

lemma block_at_blk:
  assumes "c < NLIST" "unat av < cls_count c" "unat bs = cls_size c"
  shows "block_at (sb_addr R k) av bs = blk R k c (unat av)"
proof -
  have lt: "unat av * cls_size c < 65536" using cls_extent [OF assms(2)] cls_size_bounds(1) [of c] by linarith
  have "unat (ucast av :: u32) = unat av"
    using assms(2) cls_count_bounds(2) [of c] by (simp add: unsigned_ucast_eq take_bit_nat_eq_self)
  then have "unat ((ucast av :: u32) * bs) = unat av * cls_size c"
    using lt assms(3) by (subst unat_mult_lem [THEN iffD1]) auto
  then have "unat (ucast ((ucast av :: u32) * bs) :: u64) = unat av * cls_size c"
    using lt by (simp add: unsigned_ucast_eq take_bit_nat_eq_self)
  then have "(ucast ((ucast av :: u32) * bs) :: u64) = of_nat (unat av * cls_size c)"
    by (rule unat_eq_of_nat)
  then show ?thesis by (simp add: block_at_def blk_def)
qed

lemma heap_at_addr:
  assumes "geom R" "c \<le> NLIST"
  shows "heap_at R (crossptr_get R META_IDX (crossptr_assign R META_IDX (heap_addr R c))) = Inr c"
    "heap_at R (crossptr_deref R META_IDX (crossptr_assign R META_IDX (heap_addr R c))) = Inr c"
proof -
  let ?M = "Regions_lookup R META_IDX"
  have c: "c \<le> 160" using assms(2) by (simp add: NLIST_def)
  have h: "heap_addr R c = ?M + of_nat (64 + 64 * c)" by (simp add: heap_addr_def)
  have u: "unat (heap_addr R c) = unat ?M + (64 + 64 * c)"
    unfolding h using assms(1) c by (intro unat_plus_of_nat) (simp add: geom_def)
  have ne: "heap_addr R c \<noteq> 0" "heap_addr R c \<noteq> ?M" using u by auto
  have get: "crossptr_get R META_IDX (crossptr_assign R META_IDX (heap_addr R c)) = heap_addr R c"
    using ne(2) by (rule crossptr_get_assign)
  have deref: "crossptr_deref R META_IDX (crossptr_assign R META_IDX (heap_addr R c)) = heap_addr R c"
    by (simp add: crossptr_deref_def crossptr_assign_def Regions_translate_def Regions_untranslate_def)
  have "heap_addr R c - ?M - 64 = of_nat (64 * c)" by (simp add: heap_addr_def)
  then have "unat (heap_addr R c - ?M - 64) = 64 * c"
    using c by (simp add: unsigned_of_nat take_bit_nat_eq_self del: of_nat_mult)
  then have "heap_at R (heap_addr R c) = Inr c"
    using ne(1) assms(2) by (simp add: heap_at_def Let_def)
  then show "heap_at R (crossptr_get R META_IDX (crossptr_assign R META_IDX (heap_addr R c))) = Inr c"
    "heap_at R (crossptr_deref R META_IDX (crossptr_assign R META_IDX (heap_addr R c))) = Inr c"
    by (simp_all add: get deref)
qed

lemma crossptr_sb:
  assumes "geom R" "0 < k" "k < nsb R"
  shows "crossptr_get R SB_IDX (crossptr_assign R SB_IDX (sb_addr R k)) = sb_addr R k"
  using assms unat_sb_addr [of R k] by (intro crossptr_get_assign) auto

text \<open>The head of a partial list survives the packing whatever the counter is.\<close>

lemma acpc_pack_unpack:
  assumes "geom R"
  shows "acpc_pack R DESC_IDX (acpc_unpack R DESC_IDX cell) = cell"
proof -
  have join: "cell AND mask 30 OR push_bit 30 (drop_bit 30 cell) = cell"
    by (rule bit_word_eqI) (auto simp: bit_simps, metis le_add_diff_inverse not_less)
  then have zero: "push_bit 30 (drop_bit 30 cell) = cell" if "cell AND mask 30 = 0" using that by simp
  have "unat (cell AND mask 30) < 2 ^ 30" unfolding unat_and_mask by simp
  moreover have D: "0 < unat (Regions_lookup R DESC_IDX)" "unat (Regions_lookup R DESC_IDX) + 2 ^ 31 < 2 ^ 48"
    using assms by (simp_all add: geom_def)
  ultimately have "unat (Regions_lookup R DESC_IDX + (cell AND mask 30)) = unat (Regions_lookup R DESC_IDX) + unat (cell AND mask 30)"
    by (intro unat_add_lt) simp
  then have "Regions_lookup R DESC_IDX + (cell AND mask 30) \<noteq> 0" using D(1) by auto
  then show ?thesis
    using join zero
    by (auto simp: acpc_pack_def acpc_unpack_def Let_def MAX_DESC_OFFSET_MASK_eq
        Regions_translate_def Regions_untranslate_def Regions_lookup_def)
qed

lemma take_30_push: "take_bit 30 (push_bit 30 (c :: u64)) = 0"
  by (rule bit_word_eqI) (auto simp: bit_simps)

lemma acpc_head_desc:
  assumes "geom R" "0 < k" "k < 2 ^ 24"
  shows "pc_ptr (acpc_unpack R DESC_IDX (acpc_pack R DESC_IDX (ptr_cnt_set (desc_addr R k) c))) = desc_addr R k"
proof -
  define x :: u64 where "x = of_nat (k * 64)"
  have ux: "unat x = k * 64" using assms(3) by (simp add: x_def unsigned_of_nat take_bit_nat_eq_self del: of_nat_mult)
  have "k * 64 < 2 ^ 30" using assms(3) by simp
  then have "take_bit 30 x = x" using ux by (intro take_bit_30_id) simp
  moreover have "x \<noteq> 0" using ux assms(2) by auto
  moreover have "Regions_untranslate R DESC_IDX (desc_addr R k) = x"
    by (simp add: Regions_untranslate_def desc_addr_def Regions_lookup_def x_def)
  moreover have "Regions_translate R DESC_IDX x = desc_addr R k"
    by (simp add: Regions_translate_def desc_addr_def Regions_lookup_def x_def)
  ultimately show ?thesis
    using desc_addr_nonzero [OF assms(1), of k] assms(3)
    by (simp add: acpc_pack_def acpc_unpack_def ptr_cnt_set_def Let_def MAX_DESC_OFFSET_MASK_eq
        take_30_push flip: take_bit_eq_mask)
qed

lemma acpc_head_null:
  "pc_ptr (acpc_unpack R i (acpc_pack R i (ptr_cnt_set 0 c))) = 0"
  using take_30_push [of c]
  by (simp add: acpc_pack_def acpc_unpack_def ptr_cnt_set_def Let_def MAX_DESC_OFFSET_MASK_eq
      flip: take_bit_eq_mask)

end
