(* ===== verification/Bx_Heap.thy ===== *)
theory Bx_Heap
  imports Bx_Geometry
begin

unbundle bit_operations_syntax

text \<open>
  The heap invariant and the operations on partial lists and superblocks.  A \<open>ghost\<close> says which
  class owns each superblock, which blocks are on each superblock's free chain and in each
  thread-cache list, in which order the partial lists hold the superblocks, and which blocks
  are live; \<open>heap_inv\<close> relates it to the state of the code.
\<close>

section \<open>The invariant\<close>

record ghost =
  g_owner :: "nat \<Rightarrow> nat option"
  g_free :: "nat \<Rightarrow> u64 list"
  g_cache :: "nat \<Rightarrow> u64 list"
  g_part :: "nat \<Rightarrow> nat list"
  g_live :: "u64 set"

definition sb_blocks :: "regions \<Rightarrow> nat \<Rightarrow> nat \<Rightarrow> u64 set" where
  "sb_blocks R k c = (\<lambda>j. blk R k c j) ` {..<cls_count c}"

definition anchor_ok :: "anchor \<Rightarrow> nat \<Rightarrow> nat \<Rightarrow> bool" where
  "anchor_ok a c n \<longleftrightarrow>
     (astate a = SB_FULL \<and> n = 0 \<and> acount a = 0)
     \<or> (astate a = SB_PARTIAL \<and> 0 < n \<and> n < cls_count c \<and> unat (acount a) = n)
     \<or> (astate a = SB_EMPTY \<and> n = cls_count c \<and> unat (acount a) = n - 1)"

definition desc_ok :: "regions \<Rightarrow> descriptor \<Rightarrow> nat \<Rightarrow> nat \<Rightarrow> u64 list \<Rightarrow> bool" where
  "desc_ok R d k c fs \<longleftrightarrow>
     dheap d = crossptr_assign R META_IDX (heap_addr R c)
     \<and> unat (block_size d) = cls_size c \<and> unat (maxcount d) = cls_count c
     \<and> dsuperblock d = crossptr_assign R SB_IDX (sb_addr R k)
     \<and> anchor_ok (danchor d) c (length fs)
     \<and> (fs \<noteq> [] \<longrightarrow> unat (avail (danchor d)) < cls_count c \<and> hd fs = blk R k c (unat (avail (danchor d))))"

lemma desc_ok_next_partial [simp]: "desc_ok R (d\<lparr>next_partial := x\<rparr>) k c fs = desc_ok R d k c fs"
  by (simp add: desc_ok_def)

fun pchain :: "regions \<Rightarrow> (u64 \<Rightarrow> descriptor) \<Rightarrow> u64 \<Rightarrow> nat list \<Rightarrow> bool" where
  "pchain R ds a [] \<longleftrightarrow> a = 0"
| "pchain R ds a (k # ks) \<longleftrightarrow> a = desc_addr R k \<and> pchain R ds (atomic_pptr_load (a + 8) (next_partial (ds a))) ks"

definition phead :: "world \<Rightarrow> nat \<Rightarrow> u64" where
  "phead w c = pc_ptr (acpc_load (w_rgs w) DESC_IDX (partial_list (w_heaps w ! c)))"

definition inv_owner :: "regions \<Rightarrow> ghost \<Rightarrow> bool" where
  "inv_owner R g \<longleftrightarrow> (\<forall>k c. g_owner g k = Some c \<longrightarrow> 0 < k \<and> k < nsb R \<and> c \<le> NLIST)
     \<and> (\<forall>k. g_owner g k = None \<longrightarrow> g_free g k = [])"

definition inv_desc :: "regions \<Rightarrow> (u64 \<Rightarrow> descriptor) \<Rightarrow> ghost \<Rightarrow> bool" where
  "inv_desc R ds g \<longleftrightarrow> (\<forall>k c. g_owner g k = Some c \<longrightarrow>
     desc_ok R (ds (desc_addr R k)) k c (g_free g k) \<and> (c = NLIST \<longrightarrow> g_free g k = []))"

definition inv_free :: "regions \<Rightarrow> memory \<Rightarrow> ghost \<Rightarrow> bool" where
  "inv_free R m g \<longleftrightarrow> (\<forall>k c. g_owner g k = Some c \<longrightarrow>
     distinct (g_free g k) \<and> set (g_free g k) \<subseteq> sb_blocks R k c
     \<and> (\<exists>z. chain m (hd (g_free g k)) (g_free g k) z))"

definition inv_queue :: "regions \<Rightarrow> aqueue \<Rightarrow> ghost \<Rightarrow> bool" where
  "inv_queue R q g \<longleftrightarrow> ring_inv q \<and> distinct (queue_abs QUEUE_CAP q)
     \<and> (\<forall>i\<in>set (queue_abs QUEUE_CAP q). 0 < unat i \<and> unat i < nsb R \<and> g_owner g (unat i) = None)"

definition inv_cache :: "regions \<Rightarrow> memory \<Rightarrow> freelist list \<Rightarrow> ghost \<Rightarrow> bool" where
  "inv_cache R m fl g \<longleftrightarrow> length fl = NLIST \<and> (\<forall>c<NLIST.
     flist_rep (m, fl ! c) (g_cache g c)
     \<and> 1 \<le> unat (Maxsize (fl ! c)) \<and> unat (Maxsize (fl ! c)) \<le> cls_count c
     \<and> length (g_cache g c) \<le> unat (Maxsize (fl ! c)) + 1
     \<and> (\<forall>x\<in>set (g_cache g c). \<exists>k. g_owner g k = Some c \<and> x \<in> sb_blocks R k c \<and> x \<notin> set (g_free g k)))"

definition inv_part :: "world \<Rightarrow> ghost \<Rightarrow> bool" where
  "inv_part w g \<longleftrightarrow> length (w_heaps w) = NLIST + 1 \<and> (\<forall>c\<le>NLIST. sc_idx (w_heaps w ! c) = of_nat c)
     \<and> (\<forall>c<NLIST. distinct (g_part g c) \<and> pchain (w_rgs w) (w_desc w) (phead w c) (g_part g c)
         \<and> set (g_part g c) = {k. g_owner g k = Some c \<and> g_free g k \<noteq> []})"

definition inv_live :: "regions \<Rightarrow> ghost \<Rightarrow> bool" where
  "inv_live R g \<longleftrightarrow> (\<forall>x\<in>g_live g. \<exists>k c. g_owner g k = Some c \<and> x \<in> sb_blocks R k c
     \<and> x \<notin> set (g_free g k) \<and> (c < NLIST \<longrightarrow> x \<notin> set (g_cache g c)))"

definition heap_inv :: "world \<Rightarrow> ghost \<Rightarrow> bool" where
  "heap_inv w g \<longleftrightarrow> geom (w_rgs w) \<and> inv_owner (w_rgs w) g \<and> inv_desc (w_rgs w) (w_desc w) g
     \<and> inv_free (w_rgs w) (w_mem w) g \<and> inv_queue (w_rgs w) (w_queue w) g
     \<and> inv_cache (w_rgs w) (w_mem w) (w_flist w) g \<and> inv_part w g \<and> inv_live (w_rgs w) g"

lemmas inv_defs = inv_owner_def inv_desc_def inv_free_def inv_queue_def inv_cache_def inv_part_def inv_live_def

lemma heap_invD:
  assumes "heap_inv w g"
  shows "geom (w_rgs w)" "inv_owner (w_rgs w) g" "inv_desc (w_rgs w) (w_desc w) g"
    "inv_free (w_rgs w) (w_mem w) g" "inv_queue (w_rgs w) (w_queue w) g"
    "inv_cache (w_rgs w) (w_mem w) (w_flist w) g" "inv_part w g" "inv_live (w_rgs w) g"
  using assms by (simp_all add: heap_inv_def)

lemma heap_invI:
  "geom (w_rgs w) \<Longrightarrow> inv_owner (w_rgs w) g \<Longrightarrow> inv_desc (w_rgs w) (w_desc w) g \<Longrightarrow>
   inv_free (w_rgs w) (w_mem w) g \<Longrightarrow> inv_queue (w_rgs w) (w_queue w) g \<Longrightarrow>
   inv_cache (w_rgs w) (w_mem w) (w_flist w) g \<Longrightarrow> inv_part w g \<Longrightarrow> inv_live (w_rgs w) g \<Longrightarrow> heap_inv w g"
  by (simp add: heap_inv_def)

section \<open>Blocks of owned superblocks\<close>

lemma sb_blocksI: "j < cls_count c \<Longrightarrow> blk R k c j \<in> sb_blocks R k c"
  by (simp add: sb_blocks_def)

lemma card_sb_blocks:
  assumes "geom R" "k < nsb R"
  shows "card (sb_blocks R k c) = cls_count c"
proof -
  have "inj_on (\<lambda>j. blk R k c j) {..<cls_count c}"
    using blk_inj(2) [OF assms(1,2) _ assms(2)] by (auto intro!: inj_onI)
  then show ?thesis by (simp add: sb_blocks_def card_image)
qed

lemma sb_blocks_addr: "geom R \<Longrightarrow> k < nsb R \<Longrightarrow> x \<in> sb_blocks R k c \<Longrightarrow> block_addr x"
  by (auto simp: sb_blocks_def blk_block_addr)

lemma sb_blocks_same:
  "geom R \<Longrightarrow> k < nsb R \<Longrightarrow> k' < nsb R \<Longrightarrow> x \<in> sb_blocks R k c \<Longrightarrow> x \<in> sb_blocks R k' c' \<Longrightarrow> k = k'"
  by (auto simp: sb_blocks_def dest: blk_inj(1))

lemma desc_lookup_block: "geom R \<Longrightarrow> k < nsb R \<Longrightarrow> x \<in> sb_blocks R k c \<Longrightarrow> desc_lookup R x = desc_addr R k"
  by (auto simp: sb_blocks_def desc_lookup_blk)

lemma ownerD: "inv_owner R g \<Longrightarrow> g_owner g k = Some c \<Longrightarrow> 0 < k \<and> k < nsb R \<and> c \<le> NLIST"
  by (simp add: inv_owner_def)

lemma owner_small: "geom R \<Longrightarrow> inv_owner R g \<Longrightarrow> g_owner g k = Some c \<Longrightarrow> k < 2 ^ 24"
  using ownerD [of R g k c] geom_nsb(1) [of R] by simp

text \<open>
  The bytes of the live blocks, and that a link written into a block that is not live leaves
  them alone.
\<close>

definition live_bytes :: "regions \<Rightarrow> ghost \<Rightarrow> u64 set" where
  "live_bytes R g = {a. \<exists>x\<in>g_live g. \<exists>k c. g_owner g k = Some c \<and> x \<in> sb_blocks R k c \<and> unat (a - x) < cls_size c}"

definition keeps_live :: "regions \<Rightarrow> ghost \<Rightarrow> memory \<Rightarrow> memory \<Rightarrow> bool" where
  "keeps_live R g m m' \<longleftrightarrow> (\<forall>a\<in>live_bytes R g. m' a = m a)"

lemma keeps_live_refl [simp]: "keeps_live R g m m"
  by (simp add: keeps_live_def)

lemma keeps_live_trans: "keeps_live R g m m' \<Longrightarrow> keeps_live R g m' m'' \<Longrightarrow> keeps_live R g m m''"
  by (simp add: keeps_live_def)

lemma keeps_live_set:
  assumes "geom R" "inv_owner R g" "y \<in> sb_blocks R k c" "k < nsb R"
    "\<And>c'. g_owner g k = Some c' \<Longrightarrow> c' = c" "y \<notin> g_live g"
  shows "keeps_live R g m (pptr_set m y v)"
  unfolding keeps_live_def
proof
  fix a assume "a \<in> live_bytes R g"
  then obtain x k1 c1 where x: "x \<in> g_live g" "g_owner g k1 = Some c1" "x \<in> sb_blocks R k1 c1" "unat (a - x) < cls_size c1"
    by (auto simp: live_bytes_def)
  obtain j1 j where b: "j1 < cls_count c1" "x = blk R k1 c1 j1" "j < cls_count c" "y = blk R k c j"
    using x(3) assms(3) by (auto simp: sb_blocks_def)
  have k1: "k1 < nsb R" using ownerD [OF assms(2) x(2)] by simp
  have ok: "k1 = k \<longrightarrow> c1 = c" using assms(5) x(2) by auto
  have ne: "x \<noteq> y" using x(1) assms(6) by blast
  have "\<not> a - y < 8"
  proof
    assume "a - y < 8"
    then have "unat (a - y) < cls_size c" using cls_size_bounds(1) [of c] by (simp add: word_less_nat_alt)
    then show False
      using blk_bytes_disjoint [OF assms(1) k1 b(1) assms(4) b(3) ok, of a] x(4) ne b by simp
  qed
  then show "pptr_set m y v a = m a" by (simp add: pptr_set_def store64_def)
qed

section \<open>Frames\<close>

text \<open>
  A memory change that keeps the links of all blocks on free chains and in caches keeps the
  invariant; so does any change of the roots.
\<close>

definition linked :: "ghost \<Rightarrow> u64 set" where
  "linked g = (\<Union>k. set (g_free g k)) \<union> (\<Union>c\<in>{..<NLIST}. set (g_cache g c))"

lemma inv_free_frame:
  assumes "inv_free R m g" "\<And>x. x \<in> linked g \<Longrightarrow> pptr_get m x = pptr_get m' x"
  shows "inv_free R m' g"
  unfolding inv_free_def
proof (intro allI impI)
  fix k c assume "g_owner g k = Some c"
  then have "distinct (g_free g k) \<and> set (g_free g k) \<subseteq> sb_blocks R k c \<and> (\<exists>z. chain m (hd (g_free g k)) (g_free g k) z)"
    using assms(1) by (simp add: inv_free_def)
  moreover have "chain m a (g_free g k) z = chain m' a (g_free g k) z" for a z
    using assms(2) by (intro chain_cong) (auto simp: linked_def)
  ultimately show "distinct (g_free g k) \<and> set (g_free g k) \<subseteq> sb_blocks R k c \<and> (\<exists>z. chain m' (hd (g_free g k)) (g_free g k) z)"
    by simp
qed

lemma inv_cache_frame:
  assumes "inv_cache R m fl g" "\<And>x. x \<in> linked g \<Longrightarrow> pptr_get m x = pptr_get m' x"
  shows "inv_cache R m' fl g"
  unfolding inv_cache_def
proof (intro conjI allI impI)
  show "length fl = NLIST" using assms(1) by (simp add: inv_cache_def)
  fix c assume c: "c < NLIST"
  then show "flist_rep (m', fl ! c) (g_cache g c)"
    using assms by (intro flist_rep_frame [of m _ _ m']) (auto simp: inv_cache_def linked_def)
qed (use assms(1) in \<open>auto simp: inv_cache_def\<close>)

lemma linked_blocks:
  assumes "heap_inv w g" "x \<in> linked g"
  obtains k c where "g_owner g k = Some c" "x \<in> sb_blocks (w_rgs w) k c" "block_addr x" "x \<notin> g_live g"
proof -
  note i = heap_invD [OF assms(1)]
  from assms(2) consider k where "x \<in> set (g_free g k)" | c where "c < NLIST" "x \<in> set (g_cache g c)"
    by (auto simp: linked_def)
  then show thesis
  proof cases
    case 1
    then obtain c where c: "g_owner g k = Some c" using i(2) by (cases "g_owner g k") (auto simp: inv_owner_def)
    have b: "x \<in> sb_blocks (w_rgs w) k c" using 1 c i(4) by (auto simp: inv_free_def)
    have "x \<notin> g_live g"
    proof
      assume "x \<in> g_live g"
      then obtain k' c' where "g_owner g k' = Some c'" "x \<in> sb_blocks (w_rgs w) k' c'" "x \<notin> set (g_free g k')"
        using i(8) by (auto simp: inv_live_def)
      then show False using sb_blocks_same [OF i(1) _ _ b] ownerD [OF i(2)] c 1 by blast
    qed
    then show ?thesis using that [OF c b] sb_blocks_addr [OF i(1) _ b] ownerD [OF i(2) c] by blast
  next
    case 2
    then obtain k where k: "g_owner g k = Some c" "x \<in> sb_blocks (w_rgs w) k c" using i(6) by (auto simp: inv_cache_def)
    have "x \<notin> g_live g"
    proof
      assume "x \<in> g_live g"
      then obtain k' c' where "g_owner g k' = Some c'" "x \<in> sb_blocks (w_rgs w) k' c'" "c' < NLIST \<longrightarrow> x \<notin> set (g_cache g c')"
        using i(8) by (auto simp: inv_live_def)
      moreover from this have "k' = k" using sb_blocks_same [OF i(1) _ _ k(2)] ownerD [OF i(2)] k(1) by blast
      ultimately show False using k(1) 2 by simp
    qed
    then show ?thesis using that [OF k] sb_blocks_addr [OF i(1) _ k(2)] ownerD [OF i(2) k(1)] by blast
  qed
qed

lemma pptr_get_set_block:
  "block_addr x \<Longrightarrow> block_addr y \<Longrightarrow> x \<noteq> y \<Longrightarrow> pptr_get (pptr_set m y v) x = pptr_get m x"
  by (rule pptr_get_set_other) (auto simp: block_addr_def)

section \<open>Partial lists\<close>

lemma pchain_upd_other:
  assumes "geom R" "k \<notin> set ks" "k < 2 ^ 24" "\<forall>k\<in>set ks. k < 2 ^ 24"
  shows "pchain R (ds(desc_addr R k := d)) a ks = pchain R ds a ks"
  using assms(2,4)
proof (induction ks arbitrary: a)
  case Nil
  then show ?case by simp
next
  case (Cons k' ks)
  have "desc_addr R k \<noteq> desc_addr R k'" using assms(1,3) Cons.prems by (subst desc_addr_inj) auto
  then show ?case using Cons by auto
qed

lemma pchain_cong:
  "(\<And>k. k \<in> set ks \<Longrightarrow> next_partial (ds (desc_addr R k)) = next_partial (ds' (desc_addr R k))) \<Longrightarrow>
   pchain R ds a ks = pchain R ds' a ks"
  by (induction ks arbitrary: a) auto

lemma pchain_head:
  "geom R \<Longrightarrow> \<forall>k\<in>set ks. k < 2 ^ 24 \<Longrightarrow> pchain R ds a ks \<Longrightarrow> canonical a \<and> (ks = [] \<longleftrightarrow> a = 0)"
  by (cases ks) (use desc_addr_canonical desc_addr_nonzero in \<open>auto simp: less_imp_le\<close>)

lemma heap_push_partial_spec:
  assumes "geom (w_rgs w)" "length (w_heaps w) = NLIST + 1" "c < NLIST"
    "dheap (w_desc w (desc_addr (w_rgs w) k)) = crossptr_assign (w_rgs w) META_IDX (heap_addr (w_rgs w) c)"
    "0 < k" "k < 2 ^ 24" "pchain (w_rgs w) (w_desc w) (phead w c) ks" "k \<notin> set ks" "\<forall>k\<in>set ks. k < 2 ^ 24"
  obtains cell np where
    "heap_push_partial w (desc_addr (w_rgs w) k) =
       Inr (set_partial c cell (upd_desc (desc_addr (w_rgs w) k) (\<lambda>d. d\<lparr>next_partial := np\<rparr>) w))"
    "pc_ptr (acpc_load (w_rgs w) DESC_IDX cell) = desc_addr (w_rgs w) k"
    "pchain (w_rgs w) ((w_desc w)(desc_addr (w_rgs w) k := (w_desc w (desc_addr (w_rgs w) k))\<lparr>next_partial := np\<rparr>))
       (desc_addr (w_rgs w) k) (k # ks)"
proof -
  let ?R = "w_rgs w"
  let ?a = "desc_addr ?R k"
  define old where "old = acpc_load ?R DESC_IDX (partial_list (w_heaps w ! c))"
  define cell where "cell = acpc_pack ?R DESC_IDX (ptr_cnt_set ?a (pc_cnt old + 1))"
  define np where "np = atomic_pptr_store (?a + 8) (pc_ptr old)"
  have old: "pc_ptr old = phead w c" by (simp add: old_def phead_def)
  have "heap_push_partial w ?a = Inr (set_partial c cell (upd_desc ?a (\<lambda>d. d\<lparr>next_partial := np\<rparr>) w))"
    using assms(1-4)
    by (simp add: heap_push_partial_def heap_at_addr acpc_compare_exchange_weak_def Let_def
        acpc_load_def acpc_pack_unpack cell_def np_def old_def)
  moreover have "pc_ptr (acpc_load ?R DESC_IDX cell) = ?a"
    using acpc_head_desc [OF assms(1,5,6)] by (simp add: acpc_load_def cell_def)
  moreover have "atomic_pptr_load (?a + 8) np = phead w c"
  proof -
    have "canonical (phead w c)" using pchain_head [OF assms(1,9,7)] by simp
    then show ?thesis
      using desc_addr_canonical [OF assms(1), of k] assms(6)
      by (simp add: np_def old atomic_pptr_load_def atomic_pptr_store_def)
  qed
  then have "pchain ?R ((w_desc w)(?a := (w_desc w ?a)\<lparr>next_partial := np\<rparr>)) ?a (k # ks)"
    using pchain_upd_other [OF assms(1,8,6,9)] assms(7) by simp
  ultimately show thesis by (rule that)
qed

lemma heap_pop_partial_nil: "phead w c = 0 \<Longrightarrow> heap_pop_partial w c = Inr (0, w)"
  by (simp add: heap_pop_partial_def phead_def Let_def)

lemma heap_pop_partial_cons:
  assumes "geom (w_rgs w)" "pchain (w_rgs w) (w_desc w) (phead w c) (k # ks)" "\<forall>k\<in>set (k # ks). 0 < k \<and> k < 2 ^ 24"
  obtains cell where
    "heap_pop_partial w c = Inr (desc_addr (w_rgs w) k, set_partial c cell w)"
    "pchain (w_rgs w) (w_desc w) (pc_ptr (acpc_load (w_rgs w) DESC_IDX cell)) ks"
proof -
  let ?R = "w_rgs w"
  let ?a = "desc_addr ?R k"
  define old where "old = acpc_load ?R DESC_IDX (partial_list (w_heaps w ! c))"
  define nxt where "nxt = atomic_pptr_load (?a + 8) (next_partial (w_desc w ?a))"
  define cell where "cell = acpc_pack ?R DESC_IDX (ptr_cnt_set nxt (pc_cnt old))"
  have old: "pc_ptr old = ?a" using assms(2) by (simp add: old_def phead_def)
  have nz: "?a \<noteq> 0" using desc_addr_nonzero [OF assms(1), of k] assms(3) by simp
  have ch: "pchain ?R (w_desc w) nxt ks" using assms(2) by (auto simp: nxt_def)
  have "heap_pop_partial w c = Inr (?a, set_partial c cell w)"
    using nz old assms(1)
    by (simp add: heap_pop_partial_def Let_def acpc_compare_exchange_weak_def cell_def nxt_def
        flip: old_def) (simp add: old_def acpc_load_def acpc_pack_unpack)
  moreover have "pc_ptr (acpc_load ?R DESC_IDX cell) = nxt"
  proof (cases ks)
    case Nil
    then show ?thesis using ch by (simp add: acpc_load_def cell_def acpc_head_null)
  next
    case (Cons k' ks')
    then show ?thesis using ch acpc_head_desc [OF assms(1), of k'] assms(3) by (simp add: acpc_load_def cell_def)
  qed
  ultimately show thesis using ch that by metis
qed

section \<open>Superblocks\<close>

text \<open>
  Everything about addresses depends on the start addresses of the regions only, so that it is
  unchanged when the superblock region grows.
\<close>

lemma same_addresses:
  assumes "regions_address R' = regions_address R"
  shows "Regions_lookup R' = Regions_lookup R" "sb_addr R' = sb_addr R" "desc_addr R' = desc_addr R"
    "blk R' = blk R" "sb_blocks R' = sb_blocks R" "desc_lookup R' = desc_lookup R" "desc_index R' = desc_index R"
    "sb_lookup R' = sb_lookup R" "crossptr_assign R' = crossptr_assign R" "heap_addr R' = heap_addr R"
    "acpc_load R' = acpc_load R" "pchain R' = pchain R" "desc_ok R' = desc_ok R" "live_bytes R' = live_bytes R"
proof -
  show l: "Regions_lookup R' = Regions_lookup R" by (simp add: Regions_lookup_def assms fun_eq_iff)
  show "sb_addr R' = sb_addr R" and d: "desc_addr R' = desc_addr R" and "desc_lookup R' = desc_lookup R"
    "desc_index R' = desc_index R" "sb_lookup R' = sb_lookup R" "heap_addr R' = heap_addr R"
    by (simp_all add: sb_addr_def desc_addr_def desc_lookup_def desc_index_def sb_lookup_def heap_addr_def l fun_eq_iff)
  then show b: "blk R' = blk R" by (simp add: blk_def fun_eq_iff)
  then show sb: "sb_blocks R' = sb_blocks R" by (simp add: sb_blocks_def fun_eq_iff)
  show "crossptr_assign R' = crossptr_assign R" "acpc_load R' = acpc_load R"
    by (simp_all add: crossptr_assign_def Regions_untranslate_def acpc_load_def acpc_unpack_def Regions_translate_def Let_def assms fun_eq_iff)
  then show "desc_ok R' = desc_ok R"
    by (simp add: desc_ok_def \<open>heap_addr R' = heap_addr R\<close> \<open>sb_addr R' = sb_addr R\<close> b fun_eq_iff)
  show "pchain R' = pchain R"
  proof (intro ext)
    fix ds a ks
    show "pchain R' ds a ks = pchain R ds a ks" by (induction ks arbitrary: a) (simp_all add: d)
  qed
  show "live_bytes R' = live_bytes R" by (simp add: live_bytes_def sb fun_eq_iff)
qed

lemma heap_inv_grow:
  assumes "heap_inv w g" "regions_address R' = regions_address (w_rgs w)" "geom R'" "nsb (w_rgs w) \<le> nsb R'"
  shows "heap_inv (w\<lparr>w_rgs := R'\<rparr>) g"
proof -
  note i = heap_invD [OF assms(1)]
  note same = same_addresses [OF assms(2)]
  have "inv_owner R' g" using i(2) assms(4) by (fastforce simp: inv_owner_def)
  moreover have "inv_desc R' (w_desc w) g" using i(3) by (simp add: inv_desc_def same)
  moreover have "inv_free R' (w_mem w) g" using i(4) by (simp add: inv_free_def same)
  moreover have "inv_queue R' (w_queue w) g" using i(5) assms(4) by (fastforce simp: inv_queue_def)
  moreover have "inv_cache R' (w_mem w) (w_flist w) g" using i(6) by (simp add: inv_cache_def same)
  moreover have "inv_part (w\<lparr>w_rgs := R'\<rparr>) g" using i(7) by (simp add: inv_part_def same phead_def)
  moreover have "inv_live R' g" using i(8) by (simp add: inv_live_def same)
  ultimately show ?thesis using assms(3) by (simp add: heap_inv_def)
qed

text \<open>Rewriting the descriptor of a superblock that no class owns keeps the invariant.\<close>

lemma heap_inv_upd_unowned:
  assumes "heap_inv w g" "g_owner g k = None" "k < 2 ^ 24"
  shows "heap_inv (upd_desc (desc_addr (w_rgs w) k) f w) g"
proof -
  note i = heap_invD [OF assms(1)]
  have ne: "desc_addr (w_rgs w) k' \<noteq> desc_addr (w_rgs w) k" if "g_owner g k' = Some c" for k' c
    using owner_small [OF i(1,2) that] assms(2,3) that by (subst desc_addr_inj [OF i(1)]) auto
  have "inv_desc (w_rgs w) ((w_desc w)(desc_addr (w_rgs w) k := f (w_desc w (desc_addr (w_rgs w) k)))) g"
    using i(3) ne by (simp add: inv_desc_def)
  moreover have "inv_part (upd_desc (desc_addr (w_rgs w) k) f w) g"
  proof -
    have "pchain (w_rgs w) ((w_desc w)(desc_addr (w_rgs w) k := d)) a (g_part g c)
        = pchain (w_rgs w) (w_desc w) a (g_part g c)" if "c < NLIST" for c a d
      using i(7) that ne by (intro pchain_cong) (auto simp: inv_part_def)
    then show ?thesis using i(7) by (simp add: inv_part_def upd_desc_def phead_def)
  qed
  ultimately show ?thesis using i by (simp add: heap_inv_def upd_desc_def)
qed

lemma heap_inv_push:
  assumes "heap_inv w g" "LockFreeQueue_push (w_queue w) v = Inr q'" "ring_inv q'"
    "queue_abs QUEUE_CAP q' = queue_abs QUEUE_CAP (w_queue w) @ [v]" "v \<notin> set (queue_abs QUEUE_CAP (w_queue w))"
    "0 < unat v" "unat v < nsb (w_rgs w)" "g_owner g (unat v) = None"
  shows "heap_inv (w\<lparr>w_queue := q'\<rparr>) g"
  using heap_invD [OF assms(1)] assms(3-8)
  by (intro heap_invI) (auto simp: inv_queue_def inv_part_def phead_def)

lemma unat_of_nat_small: "k < 2 ^ 24 \<Longrightarrow> unat (of_nat k :: u64) = k"
  by (simp add: unsigned_of_nat take_bit_nat_eq_self)

definition same_blocks :: "world \<Rightarrow> world \<Rightarrow> bool" where
  "same_blocks w w' \<longleftrightarrow> w_mem w' = w_mem w \<and> w_flist w' = w_flist w \<and> w_heaps w' = w_heaps w
     \<and> w_roots w' = w_roots w \<and> regions_address (w_rgs w') = regions_address (w_rgs w) \<and> nsb (w_rgs w) \<le> nsb (w_rgs w')"

lemma same_blocks_refl [simp]: "same_blocks w w" by (simp add: same_blocks_def)
lemma same_blocks_upd [simp]: "same_blocks w (upd_desc a f w)" by (simp add: same_blocks_def upd_desc_def)
lemma same_blocks_queue [simp]: "same_blocks w (w\<lparr>w_queue := q\<rparr>)" by (simp add: same_blocks_def)
lemma same_blocks_trans: "same_blocks w w' \<Longrightarrow> same_blocks w' w'' \<Longrightarrow> same_blocks w w''"
  by (simp add: same_blocks_def)

text \<open>One descriptor constructed and its index queued.\<close>

lemma queue_one:
  assumes "heap_inv w g" "0 < k" "k < nsb (w_rgs w)" "g_owner g k = None"
    "of_nat k \<notin> set (queue_abs QUEUE_CAP (w_queue w))" "length (queue_abs QUEUE_CAP (w_queue w)) < QUEUE_CAP - 1"
    "k < 2 ^ 24"
  obtains q' where
    "LockFreeQueue_push (w_queue w) (desc_index (w_rgs w) (desc_addr (w_rgs w) k)) = Inr q'"
    "heap_inv ((upd_desc (desc_addr (w_rgs w) k) f w)\<lparr>w_queue := q'\<rparr>) g"
    "queue_abs QUEUE_CAP q' = queue_abs QUEUE_CAP (w_queue w) @ [of_nat k]"
proof -
  have geom: "geom (w_rgs w)" and ring: "ring_inv (w_queue w)"
    using heap_invD [OF assms(1)] by (auto simp: inv_queue_def)
  have idx: "desc_index (w_rgs w) (desc_addr (w_rgs w) k) = of_nat k"
    using desc_index_addr [OF geom, of k] assms(7) by simp
  obtain q' where q': "LockFreeQueue_push (w_queue w) (of_nat k) = Inr q'" "ring_inv q'"
    "queue_abs QUEUE_CAP q' = queue_abs QUEUE_CAP (w_queue w) @ [of_nat k]"
    using aq.push_law [OF ring assms(6), of "of_nat k"] by blast
  have "heap_inv (upd_desc (desc_addr (w_rgs w) k) f w) g"
    by (rule heap_inv_upd_unowned [OF assms(1,4,7)])
  then have "heap_inv ((upd_desc (desc_addr (w_rgs w) k) f w)\<lparr>w_queue := q'\<rparr>) g"
    by (rule heap_inv_push [where v = "of_nat k"])
      (use q' assms in \<open>simp_all add: upd_desc_def unat_of_nat_small\<close>)
  then show thesis using q' by (intro that) (simp_all add: idx)
qed

lemma desc_addr_Suc: "desc_addr R k + DESCSIZE = desc_addr R (Suc k)"
  by (simp add: desc_addr_def DESCSIZE_def)

lemma organize_loop_inv:
  assumes "heap_inv w g" "k + n < nsb (w_rgs w)" "\<forall>i. k < i \<and> i \<le> k + n \<longrightarrow> g_owner g i = None"
    "\<forall>x\<in>set (queue_abs QUEUE_CAP (w_queue w)). unat x \<le> k"
    "length (queue_abs QUEUE_CAP (w_queue w)) + n \<le> QUEUE_CAP - 1"
  shows "\<exists>w'. organize_loop n (desc_addr (w_rgs w) k) w = Inr w' \<and> heap_inv w' g \<and> same_blocks w w' \<and> w_rgs w' = w_rgs w
     \<and> (\<forall>x\<in>set (queue_abs QUEUE_CAP (w_queue w')). unat x \<le> k + n)
     \<and> set (queue_abs QUEUE_CAP (w_queue w')) = set (queue_abs QUEUE_CAP (w_queue w)) \<union> of_nat ` {k<..k + n}"
  using assms
proof (induction n arbitrary: k w)
  case 0
  then show ?case by simp
next
  case (Suc n)
  have geom: "geom (w_rgs w)" using Suc.prems(1) by (rule heap_invD)
  have small: "Suc k < 2 ^ 24" using geom_nsb(1) [OF geom] Suc.prems(2) by linarith
  let ?a = "desc_addr (w_rgs w) (Suc k)"
  let ?w1 = "upd_desc ?a (\<lambda>_. Descriptor ?a) w"
  obtain q' where q': "LockFreeQueue_push (w_queue w) (desc_index (w_rgs w) ?a) = Inr q'"
    "heap_inv (?w1\<lparr>w_queue := q'\<rparr>) g" "queue_abs QUEUE_CAP q' = queue_abs QUEUE_CAP (w_queue w) @ [of_nat (Suc k)]"
  proof (rule queue_one [OF Suc.prems(1), of "Suc k" "\<lambda>_. Descriptor ?a"])
    show "of_nat (Suc k) \<notin> set (queue_abs QUEUE_CAP (w_queue w))"
      using Suc.prems(4) unat_of_nat_small [OF small] by fastforce
  qed (use Suc.prems small in auto)
  let ?w2 = "?w1\<lparr>w_queue := q'\<rparr>"
  have r2: "w_rgs ?w2 = w_rgs w" "w_queue ?w1 = w_queue w" "w_rgs ?w1 = w_rgs w" by (simp_all add: upd_desc_def)
  have "\<exists>w'. organize_loop n (desc_addr (w_rgs ?w2) (Suc k)) ?w2 = Inr w' \<and> heap_inv w' g \<and> same_blocks ?w2 w' \<and> w_rgs w' = w_rgs ?w2
     \<and> (\<forall>x\<in>set (queue_abs QUEUE_CAP (w_queue w')). unat x \<le> Suc k + n)
     \<and> set (queue_abs QUEUE_CAP (w_queue w')) = set (queue_abs QUEUE_CAP (w_queue ?w2)) \<union> of_nat ` {Suc k<..Suc k + n}"
  proof (rule Suc.IH [OF q'(2)])
    show "\<forall>x\<in>set (queue_abs QUEUE_CAP (w_queue ?w2)). unat x \<le> Suc k"
      using Suc.prems(4) q'(3) unat_of_nat_small [OF small] by (auto simp del: of_nat_Suc)
  qed (use Suc.prems q'(3) in \<open>auto simp: upd_desc_def\<close>)
  then obtain w' where w': "organize_loop n ?a ?w2 = Inr w'" "heap_inv w' g" "same_blocks ?w2 w'" "w_rgs w' = w_rgs w"
     "\<forall>x\<in>set (queue_abs QUEUE_CAP (w_queue w')). unat x \<le> Suc k + n"
     "set (queue_abs QUEUE_CAP (w_queue w')) = set (queue_abs QUEUE_CAP (w_queue ?w2)) \<union> of_nat ` {Suc k<..Suc k + n}"
    by (auto simp: r2)
  have "organize_loop (Suc n) (desc_addr (w_rgs w) k) w = Inr w'"
    using q'(1) w'(1) r2 by (simp add: desc_addr_Suc Let_def)
  moreover have "same_blocks w w'"
    using w'(3) same_blocks_upd same_blocks_queue same_blocks_trans by blast
  moreover have "{k<..k + Suc n} = insert (Suc k) {Suc k<..Suc k + n}" by auto
  then have "set (queue_abs QUEUE_CAP (w_queue w')) = set (queue_abs QUEUE_CAP (w_queue w)) \<union> of_nat ` {k<..k + Suc n}"
    using w'(6) q'(3) by auto
  ultimately show ?case using w'(2,4,5) by auto
qed

text \<open>
  The expansion that is written out in \<open>small_sb_alloc\<close> is the region allocator's, and on a
  region that holds whole superblocks it needs no alignment adjustment.
\<close>

lemma sb_page: "(S + n * 65536) mod 4096 = (0::nat)" if "S mod 65536 = 0"
proof -
  have "65536 dvd S" using that by (simp add: dvd_eq_mod_eq_0)
  then obtain s where "S = 65536 * s" by (elim dvdE)
  then have "S + n * 65536 = 4096 * (16 * s + 16 * n)" by simp
  then show ?thesis by (simp only: mod_mult_self1_is_0)
qed

lemma expansion:
  fixes R :: regions
  defines "r \<equiv> sb_region R"
  assumes "geom R" "\<not> curr_addr r + SB_REGION_EXPAND_SIZE > base_addr r + FILESIZE r"
  defines "r' \<equiv> r\<lparr>rfile := (rfile r)\<lparr>rf_curr := atomic_pptr_store (base_addr r) (curr_addr r + SB_REGION_EXPAND_SIZE)\<rparr>\<rparr>"
  defines "R' \<equiv> set_region SB_IDX r' R"
  shows "geom R'" "nsb R' = nsb R + 16384" "regions_address R' = regions_address R"
proof -
  have ok: "region_ok r" and S: "unat (Regions_lookup R SB_IDX) mod 65536 = 0"
    and c: "unat (curr_addr r) = unat (Regions_lookup R SB_IDX) + nsb R * 65536"
    and len: "length (rgs R) = LAST_IDX"
    using assms(2) by (auto simp: geom_def r_def)
  have p: "PAGESIZE = 2 ^ 12" by (simp add: PAGESIZE_def)
  have "(unat (Regions_lookup R SB_IDX) + nsb R * 65536) mod 4096 = 0" using S by (rule sb_page)
  then have up: "align_up (curr_addr r) 12 = curr_addr r"
    using ok by (intro align_up_self) (simp_all add: c region_ok_def)
  have E: "unat SB_REGION_EXPAND_SIZE = 2 ^ 30" "0 < SB_REGION_EXPAND_SIZE" by (simp_all add: SB_REGION_EXPAND_SIZE_def)
  have alloc: "nvm_region_allocator r (rf_curr (rfile r)) PAGESIZE SB_REGION_EXPAND_SIZE = (1, Some (curr_addr r), r')"
    using allocator_cases [OF p _ _ E(2), of r "rf_curr (rfile r)"] assms(3) ok
    by (simp add: up Let_def r'_def region_ok_def)
  note r' = region_ok_success [OF ok p _ _ E(2) _ alloc]
  have addr: "regions_address R' = regions_address R" by (simp add: R'_def set_region_def)
  then show "regions_address R' = regions_address R" .
  have l: "Regions_lookup R' = Regions_lookup R" using same_addresses(1) [OF addr] .
  have sb: "sb_region R' = r'" using len by (simp add: sb_region_def R'_def set_region_def LAST_IDX_def)
  have c': "unat (curr_addr r') = unat (curr_addr r) + 2 ^ 30" using r'(3) E by simp
  have "nsb R' = (unat (Regions_lookup R SB_IDX) + nsb R * 65536 + 2 ^ 30 - unat (Regions_lookup R SB_IDX)) div 65536"
    unfolding nsb_def [of R'] sb l c' c ..
  then show n: "nsb R' = nsb R + 16384" by simp
  have fields: "base_addr r' = base_addr r" "FILESIZE r' = FILESIZE r" by (simp_all add: r'_def)
  have "region_ok r'" using r'(1) E by simp
  then show "geom R'"
    using assms(2) c c' n len
    by (simp add: geom_def sb l fields r_def [symmetric]) (simp add: R'_def set_region_def LAST_IDX_def)
qed

definition exhausted :: "world \<Rightarrow> bool" where
  "exhausted w \<longleftrightarrow> queue_abs QUEUE_CAP (w_queue w) = []
     \<and> (let r = sb_region (w_rgs w) in curr_addr r + SB_REGION_EXPAND_SIZE > base_addr r + FILESIZE r)"

definition out_of_space :: fault where "out_of_space = AssertFailed ''0''"

lemma queue_pop_inv:
  assumes "heap_inv w g"
  obtains (none) q' where "LockFreeQueue_pop (w_queue w) = Inr (None, q')" "heap_inv (w\<lparr>w_queue := q'\<rparr>) g"
      "queue_abs QUEUE_CAP q' = []" "queue_abs QUEUE_CAP (w_queue w) = []"
    | (some) i q' where "LockFreeQueue_pop (w_queue w) = Inr (Some i, q')" "heap_inv (w\<lparr>w_queue := q'\<rparr>) g"
      "i \<notin> set (queue_abs QUEUE_CAP q')" "0 < unat i" "unat i < nsb (w_rgs w)" "g_owner g (unat i) = None"
proof (cases "queue_abs QUEUE_CAP (w_queue w)")
  note i = heap_invD [OF assms]
  have ring: "ring_inv (w_queue w)" using i(5) by (simp add: inv_queue_def)
  case Nil
  then obtain q' where "LockFreeQueue_pop (w_queue w) = Inr (None, q')" "ring_inv q'" "queue_abs QUEUE_CAP q' = []"
    using aq.pop_nil [OF ring] by blast
  then show thesis using i Nil by (intro none) (auto simp: heap_inv_def inv_queue_def inv_part_def phead_def)
next
  note i = heap_invD [OF assms]
  have ring: "ring_inv (w_queue w)" using i(5) by (simp add: inv_queue_def)
  case (Cons x xs)
  then obtain q' where "LockFreeQueue_pop (w_queue w) = Inr (Some x, q')" "ring_inv q'" "queue_abs QUEUE_CAP q' = xs"
    using aq.pop_cons [OF ring] by blast
  then show thesis using i Cons by (intro some) (auto simp: heap_inv_def inv_queue_def inv_part_def phead_def)
qed

lemma organize_sb_list_inv:
  assumes "heap_inv w g" "0 < k" "0 < n" "k + n \<le> nsb (w_rgs w)" "\<forall>i. k \<le> i \<and> i < k + n \<longrightarrow> g_owner g i = None"
    "\<forall>x\<in>set (queue_abs QUEUE_CAP (w_queue w)). n = 1 \<or> unat x < k" "of_nat k \<notin> set (queue_abs QUEUE_CAP (w_queue w))"
    "length (queue_abs QUEUE_CAP (w_queue w)) + n \<le> QUEUE_CAP - 1"
  shows "\<exists>w'. organize_sb_list w (sb_addr (w_rgs w) k) (of_nat n) = Inr w' \<and> heap_inv w' g \<and> same_blocks w w' \<and> w_rgs w' = w_rgs w
     \<and> set (queue_abs QUEUE_CAP (w_queue w')) = set (queue_abs QUEUE_CAP (w_queue w)) \<union> of_nat ` {k..<k + n}"
proof -
  have geom: "geom (w_rgs w)" using assms(1) by (rule heap_invD)
  have small: "k + n \<le> 2 ^ 24" "k < 2 ^ 24" "n \<le> 2 ^ 24" using geom_nsb(1) [OF geom] assms(3,4) by linarith+
  have un: "unat (of_nat n :: u64) = n" using small(3) by (simp add: unsigned_of_nat take_bit_nat_eq_self)
  let ?a = "desc_addr (w_rgs w) k"
  let ?w1 = "upd_desc ?a (\<lambda>_. Descriptor ?a) w"
  have kn: "k < nsb (w_rgs w)" using assms(3,4) by linarith
  obtain q' where q': "LockFreeQueue_push (w_queue w) (desc_index (w_rgs w) ?a) = Inr q'"
    "heap_inv (?w1\<lparr>w_queue := q'\<rparr>) g" "queue_abs QUEUE_CAP q' = queue_abs QUEUE_CAP (w_queue w) @ [of_nat k]"
    by (rule queue_one [OF assms(1,2) kn _ assms(7) _ small(2), of "\<lambda>_. Descriptor ?a"]) (use assms in auto)
  let ?w2 = "?w1\<lparr>w_queue := q'\<rparr>"
  have r2: "w_rgs ?w2 = w_rgs w" "w_queue ?w1 = w_queue w" "w_rgs ?w1 = w_rgs w" by (simp_all add: upd_desc_def)
  have unfold: "organize_sb_list w (sb_addr (w_rgs w) k) (of_nat n) = organize_loop (n - 1) ?a ?w2"
    using q'(1) by (simp add: organize_sb_list_def Let_def desc_lookup_sb [OF geom kn] un upd_desc_def)
  have sb2: "same_blocks w ?w2" using same_blocks_upd same_blocks_queue same_blocks_trans by blast
  show ?thesis
  proof (cases "n = 1")
    case True
    have "set (queue_abs QUEUE_CAP q') = set (queue_abs QUEUE_CAP (w_queue w)) \<union> of_nat ` {k..<k + n}"
      using q'(3) True by auto
    then show ?thesis using unfold sb2 r2 q'(2) True by simp
  next
    case False
    have "\<exists>w'. organize_loop (n - 1) (desc_addr (w_rgs ?w2) k) ?w2 = Inr w' \<and> heap_inv w' g \<and> same_blocks ?w2 w' \<and> w_rgs w' = w_rgs ?w2
     \<and> (\<forall>x\<in>set (queue_abs QUEUE_CAP (w_queue w')). unat x \<le> k + (n - 1))
     \<and> set (queue_abs QUEUE_CAP (w_queue w')) = set (queue_abs QUEUE_CAP (w_queue ?w2)) \<union> of_nat ` {k<..k + (n - 1)}"
    proof (rule organize_loop_inv [OF q'(2)])
      show "\<forall>x\<in>set (queue_abs QUEUE_CAP (w_queue ?w2)). unat x \<le> k"
        using assms(6) q'(3) False unat_of_nat_small [OF small(2)] by auto
    qed (use assms q'(3) r2 in auto)
    then obtain w' where w': "organize_loop (n - 1) ?a ?w2 = Inr w'" "heap_inv w' g" "same_blocks ?w2 w'" "w_rgs w' = w_rgs w"
      "set (queue_abs QUEUE_CAP (w_queue w')) = set (queue_abs QUEUE_CAP q') \<union> of_nat ` {k<..k + (n - 1)}"
      unfolding r2 by auto
    have "{k..<k + n} = insert k {k<..k + (n - 1)}" using assms(3) by auto
    then have "set (queue_abs QUEUE_CAP (w_queue w')) = set (queue_abs QUEUE_CAP (w_queue w)) \<union> of_nat ` {k..<k + n}"
      using w'(5) q'(3) by auto
    then show ?thesis using unfold w' sb2 same_blocks_trans by auto
  qed
qed

text \<open>A superblock that no class owns is returned, or the region is exhausted.\<close>

lemma small_sb_alloc_inv:
  assumes "heap_inv w g"
  shows "small_sb_alloc w SBSIZE = Inl out_of_space \<and> exhausted w \<or>
    (\<exists>k w'. small_sb_alloc w SBSIZE = Inr (sb_addr (w_rgs w) k, w') \<and> heap_inv w' g \<and> same_blocks w w'
       \<and> 0 < k \<and> k < nsb (w_rgs w') \<and> g_owner g k = None \<and> of_nat k \<notin> set (queue_abs QUEUE_CAP (w_queue w')))"
  using assms
proof (cases rule: queue_pop_inv)
  case (some i q')
  have geom: "geom (w_rgs w)" using assms by (rule heap_invD)
  have small: "unat i < 2 ^ 24" using some(5) geom_nsb(1) [OF geom] by linarith
  have "Regions_lookup (w_rgs w) DESC_IDX + i * DESCSIZE = desc_addr (w_rgs w) (unat i)"
    by (simp add: desc_addr_def DESCSIZE_def)
  then have "small_sb_alloc w SBSIZE = Inr (sb_addr (w_rgs w) (unat i), w\<lparr>w_queue := q'\<rparr>)"
    using some(1) small by (simp add: small_sb_alloc_def Let_def sb_lookup_addr [OF geom])
  then show ?thesis using some by (intro disjI2 exI [of _ "unat i"] exI [of _ "w\<lparr>w_queue := q'\<rparr>"]) simp
next
  case (none q')
  let ?R = "w_rgs w"
  let ?r = "sb_region ?R"
  have geom: "geom ?R" using assms by (rule heap_invD)
  have r: "rgs ?R ! idx_no SB_IDX = Some ?r" using geom by (auto simp: geom_def sb_region_def)
  have ok: "region_ok ?r" using geom by (simp add: geom_def)
  have cur: "curr_addr ?r = sb_addr ?R (nsb ?R)"
    using geom unat_sb_addr [OF geom, of "nsb ?R"] by (simp add: geom_def word_unat_eq_iff)
  have "(unat (Regions_lookup ?R SB_IDX) + nsb ?R * 65536) mod 4096 = 0"
    using geom by (intro sb_page) (simp add: geom_def)
  then have "unat (curr_addr ?r AND mask 12) = 0" using geom unfolding unat_and_mask by (simp add: geom_def)
  then have noadj: "curr_addr ?r AND (PAGESIZE - 1) = 0" by (simp add: PAGESIZE_def mask_eq_exp_minus_1 unat_0_iff)
  show ?thesis
  proof (cases "curr_addr ?r + SB_REGION_EXPAND_SIZE > base_addr ?r + FILESIZE ?r")
    case True
    then have "small_sb_alloc w SBSIZE = Inl out_of_space"
      using none(1) r noadj by (simp add: small_sb_alloc_def Let_def out_of_space_def)
    then show ?thesis using True none(4) by (simp add: exhausted_def Let_def)
  next
    case False
    define new where "new = atomic_pptr_store (base_addr ?r) (curr_addr ?r + SB_REGION_EXPAND_SIZE)"
    define R' where "R' = set_region SB_IDX (?r\<lparr>rfile := (rfile ?r)\<lparr>rf_curr := new\<rparr>\<rparr>) ?R"
    have R': "geom R'" "nsb R' = nsb ?R + 16384" "regions_address R' = regions_address ?R"
      using expansion [OF geom False] by (simp_all add: R'_def new_def)
    note same = same_addresses [OF R'(3)]
    define w1 where "w1 = w\<lparr>w_queue := q', w_rgs := R'\<rparr>"
    have inv1: "heap_inv w1 g"
      using heap_inv_grow [OF none(2), of R'] R' by (simp add: w1_def)
    have noown: "g_owner g i = None" if "nsb ?R \<le> i" for i
      using ownerD [OF heap_invD(2) [OF assms], of i] that by (cases "g_owner g i") auto
    have c0: "aq_count QUEUE_CAP q' = 0" using none(3) length_queue_abs [of QUEUE_CAP q'] by simp
    obtain w2 where w2: "organize_sb_list w1 (sb_addr ?R (nsb ?R + 1)) (of_nat 16383) = Inr w2"
      "heap_inv w2 g" "same_blocks w1 w2" "w_rgs w2 = R'"
      "set (queue_abs QUEUE_CAP (w_queue w2)) = of_nat ` {nsb ?R + 1..<nsb ?R + 1 + 16383}"
      using organize_sb_list_inv [OF inv1, of "nsb ?R + 1" 16383] R'(2) noown none(3) c0
      by (auto simp: w1_def same QUEUE_CAP_def)
    let ?a = "desc_addr ?R (nsb ?R)"
    have res: "curr_addr ?r + SBSIZE = sb_addr ?R (nsb ?R + 1)"
      by (simp add: cur sb_addr_def SBSIZE_eq)
    have cas: "atomic_pptr_compare_exchange_strong (base_addr ?r) (rf_curr (rfile ?r)) (curr_addr ?r)
        (curr_addr ?r + SB_REGION_EXPAND_SIZE) = (True, new, curr_addr ?r)"
      using ok by (simp add: atomic_pptr_compare_exchange_strong_def Let_def region_ok_def atomic_pptr_store_def new_def)
    have cnt: "SB_REGION_EXPAND_SIZE div SBSIZE - 1 = of_nat 16383"
      by (simp add: SB_REGION_EXPAND_SIZE_def SBSIZE_eq)
    have dl: "desc_lookup (w_rgs w2) (curr_addr ?r) = ?a"
      using desc_lookup_sb [OF R'(1), of "nsb ?R"] R'(2) by (simp add: w2(4) same cur)
    have ret: "small_sb_alloc w SBSIZE = Inr (curr_addr ?r, upd_desc ?a (\<lambda>_. Descriptor ?a) w2)"
      using none(1) r noadj False w2(1)
      by (simp add: small_sb_alloc_def Let_def cas res cnt dl w1_def R'_def del: of_nat_numeral)
    have pos: "0 < nsb ?R" using geom by (simp add: geom_def)
    have small: "nsb ?R + 16384 \<le> 2 ^ 24" using geom_nsb(1) [OF R'(1)] R'(2) by simp
    have "of_nat (nsb ?R) \<notin> (of_nat :: nat \<Rightarrow> u64) ` {nsb ?R + 1..<nsb ?R + 1 + 16383}"
    proof
      assume "of_nat (nsb ?R) \<in> (of_nat :: nat \<Rightarrow> u64) ` {nsb ?R + 1..<nsb ?R + 1 + 16383}"
      then obtain i where "i \<in> {nsb ?R + 1..<nsb ?R + 1 + 16383}" "unat (of_nat (nsb ?R) :: u64) = unat (of_nat i :: u64)" by auto
      then show False using small unat_of_nat_small [of i] unat_of_nat_small [of "nsb ?R"] by auto
    qed
    moreover have "heap_inv (upd_desc ?a (\<lambda>_. Descriptor ?a) w2) g"
      using heap_inv_upd_unowned [OF w2(2) noown, of "nsb ?R" "\<lambda>_. Descriptor ?a"] small by (simp add: w2(4) same)
    moreover have "same_blocks w (upd_desc ?a (\<lambda>_. Descriptor ?a) w2)"
      using w2(3) R'(2,3) by (simp add: same_blocks_def w1_def upd_desc_def)
    ultimately show ?thesis
      using ret pos R'(2) w2(4,5) noown [of "nsb ?R"]
      by (intro disjI2 exI [of _ "nsb ?R"] exI [of _ "upd_desc ?a (\<lambda>_. Descriptor ?a) w2"])
        (simp add: cur upd_desc_def)
  qed
qed

end
