(* ===== verification/Bx_Malloc.thy ===== *)
theory Bx_Malloc
  imports Bx_Heap
begin

unbundle bit_operations_syntax

text \<open>
  Correctness of the allocator's entry points over the heap invariant: refilling and flushing a
  thread cache move blocks between superblocks and caches without losing or duplicating one,
  \<open>do_malloc\<close> returns a block that nobody holds, \<open>do_free\<close> takes one back, and neither writes
  into a block that is in use.
\<close>

section \<open>Replacing the state of one superblock\<close>

definition g_move :: "ghost \<Rightarrow> nat \<Rightarrow> nat \<Rightarrow> u64 list \<Rightarrow> u64 list \<Rightarrow> nat list \<Rightarrow> ghost" where
  "g_move g k c fs cs ps = g\<lparr>g_owner := (g_owner g)(k := Some c), g_free := (g_free g)(k := fs),
     g_cache := (g_cache g)(c := cs), g_part := (g_part g)(c := ps)\<rparr>"

lemma g_move_simps [simp]:
  "g_owner (g_move g k c fs cs ps) = (g_owner g)(k := Some c)" "g_free (g_move g k c fs cs ps) = (g_free g)(k := fs)"
  "g_cache (g_move g k c fs cs ps) = (g_cache g)(c := cs)" "g_part (g_move g k c fs cs ps) = (g_part g)(c := ps)"
  "g_live (g_move g k c fs cs ps) = g_live g"
  by (simp_all add: g_move_def)

text \<open>
  The blocks that are linked somewhere other than on the chain of superblock \<open>k\<close> and in the
  cache of class \<open>c\<close>.
\<close>

definition linked_else :: "ghost \<Rightarrow> nat \<Rightarrow> nat \<Rightarrow> u64 set" where
  "linked_else g k c = (\<Union>k'\<in>-{k}. set (g_free g k')) \<union> (\<Union>c'\<in>{..<NLIST} - {c}. set (g_cache g c'))"

lemma linked_else_sub: "linked_else g k c \<subseteq> linked g"
  by (auto simp: linked_else_def linked_def)

lemma linked_else_not_in_sb:
  assumes "heap_inv w g" "c < NLIST" "g_owner g k = None \<or> g_owner g k = Some c" "k < nsb (w_rgs w)"
    "x \<in> linked_else g k c"
  shows "x \<notin> sb_blocks (w_rgs w) k c"
proof
  assume b: "x \<in> sb_blocks (w_rgs w) k c"
  note i = heap_invD [OF assms(1)]
  from assms(5) consider k' where "k' \<noteq> k" "x \<in> set (g_free g k')" | c' where "c' < NLIST" "c' \<noteq> c" "x \<in> set (g_cache g c')"
    by (auto simp: linked_else_def)
  then show False
  proof cases
    case 1
    then obtain c' where c': "g_owner g k' = Some c'" using i(2) by (cases "g_owner g k'") (auto simp: inv_owner_def)
    then have "x \<in> sb_blocks (w_rgs w) k' c'" using 1 i(4) by (auto simp: inv_free_def)
    then show False using 1 sb_blocks_same [OF i(1) _ assms(4) _ b, of k' c'] ownerD [OF i(2) c'] by simp
  next
    case 2
    then obtain k' where k': "g_owner g k' = Some c'" "x \<in> sb_blocks (w_rgs w) k' c'" using i(6) by (auto simp: inv_cache_def)
    then have "k' = k" using sb_blocks_same [OF i(1) _ assms(4) _ b, of k' c'] ownerD [OF i(2) k'(1)] by simp
    then show False using k'(1) assms(3) 2 by auto
  qed
qed

lemma heap_inv_move:
  assumes "heap_inv w g" "c < NLIST" "0 < k" "k < nsb (w_rgs w)"
    and own: "g_owner g k = Some c \<or> (g_owner g k = None \<and> of_nat k \<notin> set (queue_abs QUEUE_CAP (w_queue w)))"
    and same: "w_rgs w' = w_rgs w" "w_queue w' = w_queue w"
    and desc: "w_desc w' = (w_desc w)(desc_addr (w_rgs w) k := d)" "desc_ok (w_rgs w) d k c fs"
    and free: "distinct fs" "set fs \<subseteq> sb_blocks (w_rgs w) k c" "\<exists>z. chain (w_mem w') (hd fs) fs z"
    and fl: "w_flist w' = (w_flist w)[c := f]" "flist_rep (w_mem w', f) cs" "1 \<le> unat (Maxsize f)"
      "unat (Maxsize f) \<le> cls_count c" "length cs \<le> unat (Maxsize f) + 1"
    and cs: "\<And>x. x \<in> set cs \<Longrightarrow> x \<in> sb_blocks (w_rgs w) k c \<and> x \<notin> set fs \<or> x \<in> set (g_cache g c) \<and> x \<notin> sb_blocks (w_rgs w) k c"
    and live: "g_live g \<inter> set fs = {}" "g_live g \<inter> set cs = {}"
    and mem: "\<And>x. x \<in> linked_else g k c \<Longrightarrow> pptr_get (w_mem w) x = pptr_get (w_mem w') x"
    and part: "length (w_heaps w') = NLIST + 1" "\<forall>c'\<le>NLIST. sc_idx (w_heaps w' ! c') = of_nat c'"
      "\<And>c'. c' < NLIST \<Longrightarrow> c' \<noteq> c \<Longrightarrow> phead w' c' = phead w c'"
      "pchain (w_rgs w) (w_desc w') (phead w' c) ps" "distinct ps"
      "set ps = {k'. g_owner g k' = Some c \<and> g_free g k' \<noteq> [] \<and> k' \<noteq> k} \<union> (if fs = [] then {} else {k})"
  shows "heap_inv w' (g_move g k c fs cs ps)"
proof -
  note i = heap_invD [OF assms(1)]
  let ?R = "w_rgs w" and ?g = "g_move g k c fs cs ps"
  have small: "k < 2 ^ 24" using assms(4) geom_nsb(1) [OF i(1)] by linarith
  have ne: "desc_addr ?R k' \<noteq> desc_addr ?R k" if "g_owner g k' = Some c'" "k' \<noteq> k" for k' c'
    using owner_small [OF i(1,2) that(1)] small that(2) by (subst desc_addr_inj [OF i(1)]) auto
  have "inv_owner ?R ?g" using i(2) assms(2-4) by (auto simp: inv_owner_def)
  moreover have "inv_desc ?R (w_desc w') ?g"
    using i(3) desc assms(2) ne by (auto simp: inv_desc_def)
  moreover have "inv_free ?R (w_mem w') ?g"
    unfolding inv_free_def
  proof (intro allI impI)
    fix k' c' assume o: "g_owner ?g k' = Some c'"
    show "distinct (g_free ?g k') \<and> set (g_free ?g k') \<subseteq> sb_blocks ?R k' c' \<and> (\<exists>z. chain (w_mem w') (hd (g_free ?g k')) (g_free ?g k') z)"
    proof (cases "k' = k")
      case True
      then show ?thesis using o free by auto
    next
      case False
      have "chain (w_mem w) a (g_free g k') z = chain (w_mem w') a (g_free g k') z" for a z
        using mem False by (intro chain_cong) (auto simp: linked_else_def)
      moreover have "g_owner g k' = Some c'" using o False by simp
      then have "distinct (g_free g k') \<and> set (g_free g k') \<subseteq> sb_blocks ?R k' c'
          \<and> (\<exists>z. chain (w_mem w) (hd (g_free g k')) (g_free g k') z)"
        using i(4) unfolding inv_free_def by blast
      ultimately show ?thesis using False by simp
    qed
  qed
  moreover have "inv_queue ?R (w_queue w') ?g"
    using i(5) own by (auto simp: inv_queue_def same)
  moreover have "inv_cache ?R (w_mem w') (w_flist w') ?g"
    unfolding inv_cache_def
  proof (intro conjI allI impI ballI)
    show "length (w_flist w') = NLIST" using i(6) fl(1) by (simp add: inv_cache_def)
    fix c' assume c': "c' < NLIST"
    have len: "length (w_flist w) = NLIST" using i(6) by (simp add: inv_cache_def)
    show "flist_rep (w_mem w', w_flist w' ! c') (g_cache ?g c')"
    proof (cases "c' = c")
      case True
      then show ?thesis using fl c' len by simp
    next
      case False
      have "flist_rep (w_mem w, w_flist w ! c') (g_cache g c')" using i(6) c' by (simp add: inv_cache_def)
      then show ?thesis using False fl(1) mem c'
        by (auto intro!: flist_rep_frame [of "w_mem w" _ _ "w_mem w'"] simp: linked_else_def)
    qed
    show "1 \<le> unat (Maxsize (w_flist w' ! c'))" "unat (Maxsize (w_flist w' ! c')) \<le> cls_count c'"
      "length (g_cache ?g c') \<le> unat (Maxsize (w_flist w' ! c')) + 1"
      using i(6) fl c' len by (cases "c' = c"; simp add: inv_cache_def)+
    fix x assume x: "x \<in> set (g_cache ?g c')"
    have old: "\<exists>k'. k' \<noteq> k \<and> g_owner g k' = Some c' \<and> x \<in> sb_blocks ?R k' c' \<and> x \<notin> set (g_free g k')"
      if "x \<in> set (g_cache g c')" "c' = c \<longrightarrow> x \<notin> sb_blocks ?R k c"
    proof -
      obtain k' where k': "g_owner g k' = Some c'" "x \<in> sb_blocks ?R k' c'" "x \<notin> set (g_free g k')"
        using i(6) c' \<open>x \<in> set (g_cache g c')\<close> by (auto simp: inv_cache_def)
      moreover have "k' \<noteq> k" using k' own that(2) by auto
      ultimately show ?thesis by blast
    qed
    show "\<exists>k'. g_owner ?g k' = Some c' \<and> x \<in> sb_blocks ?R k' c' \<and> x \<notin> set (g_free ?g k')"
    proof (cases "c' = c \<and> x \<in> sb_blocks ?R k c")
      case True
      then have "x \<notin> set fs" using cs x by auto
      then show ?thesis using True by (intro exI [of _ k]) simp
    next
      case False
      then have "x \<in> set (g_cache g c')" using x cs by (auto split: if_splits)
      then obtain k' where "k' \<noteq> k" "g_owner g k' = Some c'" "x \<in> sb_blocks ?R k' c'" "x \<notin> set (g_free g k')"
        using old False by blast
      then show ?thesis by (intro exI [of _ k']) simp
    qed
  qed
  moreover have "inv_part w' ?g"
    unfolding inv_part_def
  proof (intro conjI allI impI)
    show "length (w_heaps w') = NLIST + 1" by (rule part(1))
    fix c'
    show "sc_idx (w_heaps w' ! c') = of_nat c'" if "c' \<le> NLIST" using part(2) that by simp
    assume c': "c' < NLIST"
    have p: "distinct (g_part g c')" "pchain ?R (w_desc w) (phead w c') (g_part g c')"
      "set (g_part g c') = {k. g_owner g k = Some c' \<and> g_free g k \<noteq> []}"
      using i(7) c' by (simp_all add: inv_part_def)
    show "distinct (g_part ?g c')" using p(1) part(5) by simp
    show "set (g_part ?g c') = {k. g_owner ?g k = Some c' \<and> g_free ?g k \<noteq> []}"
      using p(3) part(6) own by auto
    show "pchain (w_rgs w') (w_desc w') (phead w' c') (g_part ?g c')"
    proof (cases "c' = c")
      case True
      then show ?thesis using part(4) same by simp
    next
      case False
      have "k \<notin> set (g_part g c')" using p(3) own False by auto
      moreover have "\<forall>k\<in>set (g_part g c'). k < 2 ^ 24" using p(3) owner_small [OF i(1,2)] by auto
      ultimately have "pchain ?R (w_desc w') (phead w c') (g_part g c')"
        unfolding desc(1) using p(2) small by (subst pchain_upd_other [OF i(1)]) auto
      then show ?thesis using False part(3) c' same by simp
    qed
  qed
  moreover have "inv_live ?R ?g"
    unfolding inv_live_def
  proof
    fix x assume x: "x \<in> g_live ?g"
    then obtain k' c' where o: "g_owner g k' = Some c'" "x \<in> sb_blocks ?R k' c'" "x \<notin> set (g_free g k')"
      "c' < NLIST \<longrightarrow> x \<notin> set (g_cache g c')"
      using i(8) by (auto simp: inv_live_def)
    then have "g_owner ?g k' = Some c'" using own by auto
    moreover have "x \<notin> set (g_free ?g k')" "c' < NLIST \<longrightarrow> x \<notin> set (g_cache ?g c')" using o live x by auto
    ultimately show "\<exists>k c. g_owner ?g k = Some c \<and> x \<in> sb_blocks ?R k c \<and> x \<notin> set (g_free ?g k) \<and> (c < NLIST \<longrightarrow> x \<notin> set (g_cache ?g c))"
      using o(2) by blast
  qed
  ultimately show ?thesis using i(1) by (simp add: heap_inv_def same)
qed

section \<open>Chains\<close>

lemma walk_chain:
  "chain m a xs b \<Longrightarrow> 0 \<notin> set xs \<Longrightarrow> xs \<noteq> [] \<Longrightarrow>
   walk m (length xs) prev a num = (last xs, b, num + of_nat (length xs))"
proof (induction xs arbitrary: a prev num)
  case Nil
  then show ?case by simp
next
  case (Cons x xs)
  then show ?case by (cases "xs = []") (auto simp: add.assoc)
qed

lemma chain_cut:
  assumes "chain m a xs b" "blocks xs" "xs \<noteq> []"
  shows "\<exists>z. chain (pptr_set m (last xs) v) a xs z"
proof -
  obtain ys y where xs: "xs = ys @ [y]" using assms(3) by (metis append_butlast_last_id)
  have "chain m a ys y" using assms(1) by (auto simp: xs)
  then have "chain (pptr_set m y v) a ys y"
    using assms(2) by (subst chain_set_other) (auto simp: xs blocks_def)
  then show ?thesis by (simp add: xs)
qed

text \<open>The addresses of the loop in \<open>malloc_from_newsb\<close>, and the chain it builds.\<close>

definition sb_list :: "regions \<Rightarrow> nat \<Rightarrow> nat \<Rightarrow> u64 list" where
  "sb_list R k c = map (blk R k c) [0..<cls_count c]"

lemma length_sb_list [simp]: "length (sb_list R k c) = cls_count c"
  by (simp add: sb_list_def)

lemma set_sb_list [simp]: "set (sb_list R k c) = sb_blocks R k c"
  by (simp add: sb_list_def sb_blocks_def atLeast0LessThan)

lemma distinct_sb_list: "geom R \<Longrightarrow> k < nsb R \<Longrightarrow> distinct (sb_list R k c)"
  by (auto simp: sb_list_def distinct_map intro!: inj_onI dest: blk_inj(2))

lemma blocks_sb_list: "geom R \<Longrightarrow> k < nsb R \<Longrightarrow> blocks (sb_list R k c)"
  using distinct_sb_list sb_blocks_addr by (auto simp: blocks_def)

lemma loop_addr:
  assumes "c < NLIST" "unat bs = cls_size c" "j < cls_count c"
  shows "sb_addr R k + ucast ((of_nat j :: u32) * bs) = blk R k c j"
proof -
  have lt: "j * cls_size c < 65536" using cls_extent [OF assms(3)] cls_size_bounds(1) [of c] by linarith
  have "unat (of_nat j :: u32) = j"
    using assms(3) cls_count_bounds(2) [of c] by (simp add: unsigned_of_nat take_bit_nat_eq_self)
  then have "unat ((of_nat j :: u32) * bs) = j * cls_size c"
    using lt assms(2) by (subst unat_mult_lem [THEN iffD1]) auto
  then have "unat (ucast ((of_nat j :: u32) * bs) :: u64) = j * cls_size c"
    using lt by (subst unat_ucast_lt) auto
  then have "(ucast ((of_nat j :: u32) * bs) :: u64) = of_nat (j * cls_size c)"
    by (rule unat_eq_of_nat)
  then show ?thesis by (simp add: blk_def)
qed

lemma link_blocks_Suc:
  "link_blocks m sb bs (Suc n) = pptr_set (link_blocks m sb bs n) (sb + ucast ((of_nat n :: u32) * bs)) (sb + ucast ((of_nat (Suc n) :: u32) * bs))"
  by (simp add: link_blocks_def add.commute)

lemma link_blocks_spec:
  assumes "geom R" "k < nsb R" "c < NLIST" "unat bs = cls_size c" "n < cls_count c"
  shows "(\<forall>j<n. pptr_get (link_blocks m (sb_addr R k) bs n) (blk R k c j) = blk R k c (Suc j))
    \<and> (\<forall>x. block_addr x \<longrightarrow> x \<notin> sb_blocks R k c \<longrightarrow> pptr_get (link_blocks m (sb_addr R k) bs n) x = pptr_get m x)"
  using assms(5)
proof (induction n)
  case 0
  then show ?case by (simp add: link_blocks_def)
next
  case (Suc n)
  have n: "n < cls_count c" "Suc n < cls_count c" using Suc.prems by simp_all
  let ?m = "link_blocks m (sb_addr R k) bs n"
  have step: "link_blocks m (sb_addr R k) bs (Suc n) = pptr_set ?m (blk R k c n) (blk R k c (Suc n))"
    unfolding link_blocks_Suc loop_addr [OF assms(3,4) n(1)] loop_addr [OF assms(3,4) n(2)] ..
  have ba: "block_addr (blk R k c j)" if "j < cls_count c" for j
    using blk_block_addr [OF assms(1,2) that] .
  have "pptr_get (pptr_set ?m (blk R k c n) (blk R k c (Suc n))) (blk R k c j) = blk R k c (Suc j)" if "j < Suc n" for j
  proof (cases "j = n")
    case True
    then show ?thesis using ba [of n] ba [of "Suc n"] n by (simp add: block_addr_def)
  next
    case False
    then have j: "j < n" "j < cls_count c" using that n by auto
    then have "blk R k c j \<noteq> blk R k c n" using blk_inj(2) [OF assms(1,2) j(2) assms(2) n(1)] by auto
    then show ?thesis using Suc.IH n j ba by (simp add: pptr_get_set_block)
  qed
  moreover have "pptr_get (pptr_set ?m (blk R k c n) (blk R k c (Suc n))) x = pptr_get m x"
    if "block_addr x" "x \<notin> sb_blocks R k c" for x
  proof -
    have "x \<noteq> blk R k c n" using that n sb_blocksI by blast
    then show ?thesis using that Suc.IH n ba [of n] by (simp add: pptr_get_set_block)
  qed
  ultimately show ?case unfolding step by blast
qed

lemma link_blocks_keeps:
  assumes "geom R" "inv_owner R g" "k < nsb R" "c < NLIST" "unat bs = cls_size c" "n < cls_count c"
    "\<And>c'. g_owner g k = Some c' \<Longrightarrow> c' = c" "g_live g \<inter> sb_blocks R k c = {}"
  shows "keeps_live R g m (link_blocks m (sb_addr R k) bs n)"
  using assms(6)
proof (induction n)
  case 0
  then show ?case by (simp add: link_blocks_def)
next
  case (Suc n)
  have n: "n < cls_count c" using Suc.prems by simp
  have b: "blk R k c n \<in> sb_blocks R k c" using n by (rule sb_blocksI)
  then have "blk R k c n \<notin> g_live g" using assms(8) by auto
  then have "keeps_live R g (link_blocks m (sb_addr R k) bs n) (link_blocks m (sb_addr R k) bs (Suc n))"
    unfolding link_blocks_Suc loop_addr [OF assms(4,5) n]
    using keeps_live_set [OF assms(1,2) b assms(3,7)] by blast
  then show ?case using Suc.IH n keeps_live_trans by simp
qed

lemma chain_links:
  "\<forall>j. i \<le> j \<and> Suc j < n \<longrightarrow> pptr_get m (B j) = B (Suc j) \<Longrightarrow> i < n \<Longrightarrow>
   chain m (B i) (map B [i..<n]) (pptr_get m (B (n - 1)))"
proof (induction "n - i" arbitrary: i)
  case 0
  then show ?case by simp
next
  case (Suc d)
  show ?case
  proof (cases "Suc i = n")
    case True
    then show ?thesis by auto
  next
    case False
    then have "chain m (B (Suc i)) (map B [Suc i..<n]) (pptr_get m (B (n - 1)))" using Suc by (intro Suc.hyps) auto
    then show ?thesis using Suc.prems False by (simp add: upt_conv_Cons)
  qed
qed

lemma link_blocks_chain:
  assumes "geom R" "k < nsb R" "c < NLIST" "unat bs = cls_size c"
  shows "\<exists>z. chain (link_blocks m (sb_addr R k) bs (cls_count c - 1)) (sb_addr R k) (sb_list R k c) z"
proof -
  have M: "cls_count c - 1 < cls_count c" using cls_count_bounds(1) [of c] by simp
  show ?thesis
    using chain_links [of 0 "cls_count c" "link_blocks m (sb_addr R k) bs (cls_count c - 1)" "blk R k c"]
      link_blocks_spec [OF assms M, of m] cls_count_bounds(1) [of c]
    by (auto simp: sb_list_def blk_0)
qed

section \<open>Refilling a cache\<close>

text \<open>
  What a refill or a flush keeps: the live blocks, the superblocks that hold them and their
  contents.
\<close>

definition frame :: "world \<Rightarrow> ghost \<Rightarrow> world \<Rightarrow> ghost \<Rightarrow> bool" where
  "frame w g w' g' \<longleftrightarrow> g_live g' = g_live g \<and> regions_address (w_rgs w') = regions_address (w_rgs w)
     \<and> (\<forall>k c. g_owner g k = Some c \<longrightarrow> g_live g \<inter> sb_blocks (w_rgs w) k c \<noteq> {} \<longrightarrow> g_owner g' k = Some c)
     \<and> keeps_live (w_rgs w) g (w_mem w) (w_mem w')"

lemma frame_refl [simp]: "frame w g w g"
  by (simp add: frame_def)

lemma frame_live_bytes: "frame w g w' g' \<Longrightarrow> live_bytes (w_rgs w) g \<subseteq> live_bytes (w_rgs w') g'"
  using same_addresses(5) [of "w_rgs w'" "w_rgs w"] by (fastforce simp: frame_def live_bytes_def)

lemma frame_trans:
  assumes "frame w g w' g'" "frame w' g' w'' g''"
  shows "frame w g w'' g''"
proof -
  have "keeps_live (w_rgs w) g (w_mem w) (w_mem w'')"
    using frame_live_bytes [OF assms(1)] assms by (auto simp: keeps_live_def frame_def)
  then show ?thesis
    using assms same_addresses(5) [of "w_rgs w'" "w_rgs w"] by (auto simp: frame_def)
qed

lemma same_blocks_frame: "same_blocks w w' \<Longrightarrow> frame w g w' g"
  by (simp add: same_blocks_def frame_def)

lemma frame_move:
  assumes "g_owner g k = None \<or> g_owner g k = Some c" "w_rgs w' = w_rgs w" "keeps_live (w_rgs w) g (w_mem w) (w_mem w')"
  shows "frame w g w' (g_move g k c fs cs ps)"
  using assms by (auto simp: frame_def)

lemma unowned_not_live:
  assumes "heap_inv w g" "g_owner g k = None" "k < nsb (w_rgs w)"
  shows "g_live g \<inter> sb_blocks (w_rgs w) k c = {}"
proof -
  note i = heap_invD [OF assms(1)]
  have False if x: "x \<in> g_live g" "x \<in> sb_blocks (w_rgs w) k c" for x
  proof -
    obtain k' c' where o: "g_owner g k' = Some c'" "x \<in> sb_blocks (w_rgs w) k' c'"
      using i(8) x(1) by (auto simp: inv_live_def)
    then have "k' = k" using sb_blocks_same [OF i(1) _ assms(3) o(2) x(2)] ownerD [OF i(2) o(1)] by simp
    then show False using o(1) assms(2) by simp
  qed
  then show ?thesis by blast
qed

lemma grow_maxsize_bounds:
  assumes "1 \<le> unat mx" "unat mx \<le> unat cnt" "unat cnt \<le> 8192"
  shows "unat mx \<le> unat (Maxsize (grow_maxsize f mx cnt))" "unat (Maxsize (grow_maxsize f mx cnt)) \<le> unat cnt"
proof -
  have "unat (mx * 2) = unat mx * 2" using assms by (subst unat_mult_lem [THEN iffD1]) auto
  then show "unat mx \<le> unat (Maxsize (grow_maxsize f mx cnt))" "unat (Maxsize (grow_maxsize f mx cnt)) \<le> unat cnt"
    using assms by (auto simp: grow_maxsize_def Maxsize_def SetMaxSize_def word_less_nat_alt)
qed

lemma grow_maxsize_rep: "flist_rep (m, grow_maxsize f mx cnt) xs = flist_rep (m, f) xs"
  by (simp add: grow_maxsize_def SetMaxSize_def flist_rep_def)

lemma PushList_rep:
  assumes "chain m a xs z" "blocks xs" "unat n = length xs"
  shows "flist_rep (m, PushList f a n) xs"
  using assms by (auto simp: flist_rep_def PushList_def)

lemma Maxsize_PushList [simp]: "Maxsize (PushList f a n) = Maxsize f"
  by (simp add: Maxsize_def PushList_def)

lemma part_small:
  assumes "heap_inv w g" "c < NLIST"
  shows "\<forall>k\<in>set (g_part g c). 0 < k \<and> k < 2 ^ 24"
  using heap_invD(1,2,7) [OF assms(1)] assms(2) owner_small [of "w_rgs w" g] ownerD [of "w_rgs w" g]
  by (auto simp: inv_part_def)

lemma heaps_set_partial:
  assumes "length (w_heaps w) = NLIST + 1" "c < NLIST"
  shows "length (w_heaps (set_partial c cell w)) = NLIST + 1"
    "c' \<le> NLIST \<Longrightarrow> sc_idx (w_heaps (set_partial c cell w) ! c') = sc_idx (w_heaps w ! c')"
    "c' < NLIST \<Longrightarrow> c' \<noteq> c \<Longrightarrow> phead (set_partial c cell w) c' = phead w c'"
    "phead (set_partial c cell w) c = pc_ptr (acpc_load (w_rgs w) DESC_IDX cell)"
  using assms by (auto simp: set_partial_def phead_def nth_list_update)

lemma set_partial_simps [simp]:
  "w_rgs (set_partial c cell w) = w_rgs w" "w_queue (set_partial c cell w) = w_queue w" "w_mem (set_partial c cell w) = w_mem w"
  "w_desc (set_partial c cell w) = w_desc w" "w_flist (set_partial c cell w) = w_flist w"
  by (simp_all add: set_partial_def)

lemma upd_desc_simps [simp]:
  "w_rgs (upd_desc a f w) = w_rgs w" "w_queue (upd_desc a f w) = w_queue w" "w_mem (upd_desc a f w) = w_mem w"
  "w_desc (upd_desc a f w) = (w_desc w)(a := f (w_desc w a))" "w_flist (upd_desc a f w) = w_flist w"
  "w_heaps (upd_desc a f w) = w_heaps w" "phead (upd_desc a f w) c = phead w c"
  by (simp_all add: upd_desc_def phead_def)

lemma set_flist_simps [simp]:
  "w_rgs (set_flist c f w) = w_rgs w" "w_queue (set_flist c f w) = w_queue w" "w_mem (set_flist c f w) = w_mem w"
  "w_desc (set_flist c f w) = w_desc w" "w_flist (set_flist c f w) = (w_flist w)[c := f]"
  "w_heaps (set_flist c f w) = w_heaps w" "phead (set_flist c f w) c' = phead w c'"
  by (simp_all add: set_flist_def phead_def)

lemma phead_mem [simp]: "phead (w\<lparr>w_mem := m\<rparr>) c = phead w c"
  by (simp add: phead_def)

text \<open>A free chain cut after its first \<open>n\<close> blocks.\<close>

lemma cut_chain:
  assumes "chain m a xs z" "blocks xs" "0 < n" "n < length xs"
  shows "walk m n a a 0 = (last (take n xs), xs ! n, of_nat n)"
    "\<exists>z. chain (pptr_set m (last (take n xs)) v) a (take n xs) z"
    "\<exists>z. chain (pptr_set m (last (take n xs)) v) (xs ! n) (drop n xs) z"
proof -
  define ys zs where yz: "ys = take n xs" "zs = drop n xs"
  have split: "xs = ys @ zs" by (simp add: yz)
  have dr: "zs = xs ! n # drop (Suc n) xs" unfolding yz using assms(4) by (rule Cons_nth_drop_Suc [symmetric])
  obtain b where b: "chain m a ys b" "chain m b zs z" using assms(1) unfolding split by auto
  have "b = xs ! n" using b(2) by (simp add: dr)
  then have ch: "chain m a (take n xs) (xs ! n)" "chain m (xs ! n) (drop n xs) z" using b by (simp_all add: yz)
  have "blocks ys \<and> blocks zs \<and> set ys \<inter> set zs = {}" using assms(2) unfolding split blocks_simps .
  then have bl: "blocks (take n xs)" "blocks (drop n xs)" "set (take n xs) \<inter> set (drop n xs) = {}"
    by (simp_all only: yz)
  have ne: "take n xs \<noteq> []" using assms(3,4) by auto
  have "0 \<notin> set (take n xs)" using bl(1) by (auto simp: blocks_def block_addr_def)
  then show "walk m n a a 0 = (last (take n xs), xs ! n, of_nat n)"
    using walk_chain [OF ch(1) _ ne, of a 0] assms(4) by simp
  show "\<exists>z. chain (pptr_set m (last (take n xs)) v) a (take n xs) z"
    using chain_cut [OF ch(1) bl(1) ne] .
  have l: "last (take n xs) \<in> set (take n xs)" using ne by (rule last_in_set)
  then have "last (take n xs) \<notin> set (drop n xs)" "block_addr (last (take n xs))"
    using bl by (auto simp: blocks_def)
  then show "\<exists>z. chain (pptr_set m (last (take n xs)) v) (xs ! n) (drop n xs) z"
    using ch(2) bl(2) by (subst chain_set_other) (auto simp: blocks_def)
qed

text \<open>
  The common end of both refills: a batch has been cut off the chain \<open>L\<close> of superblock \<open>k\<close>, the
  rest stays with the superblock, which goes to the front of the partial list.
\<close>

lemma batch_inv:
  fixes w :: world and g :: ghost and m :: memory and L :: "u64 list"
  assumes inv: "heap_inv w g" "c < NLIST" "0 < k" "k < nsb (w_rgs w)" "g_cache g c = []"
    and own: "g_owner g k = Some c \<or> (g_owner g k = None \<and> of_nat k \<notin> set (queue_abs QUEUE_CAP (w_queue w)))"
    and L: "chain m (hd L) L z" "distinct L" "set L \<subseteq> sb_blocks (w_rgs w) k c" "0 < n" "n < length L" "g_live g \<inter> set L = {}"
    and d: "desc_ok (w_rgs w) (d\<lparr>danchor := A\<rparr>) k c (drop n L)"
    and mem: "\<And>x. x \<in> linked_else g k c \<Longrightarrow> pptr_get (w_mem w) x = pptr_get m x"
      "keeps_live (w_rgs w) g (w_mem w) m"
    and fl: "unat nw = n" "1 \<le> unat (Maxsize (F (PushList f0 (hd L) nw)))" "unat (Maxsize (F (PushList f0 (hd L) nw))) \<le> cls_count c"
      "n \<le> unat (Maxsize (F (PushList f0 (hd L) nw))) + 1" "\<And>m f xs. flist_rep (m, F f) xs = flist_rep (m, f) xs"
    and part: "pchain (w_rgs w) (w_desc w) p ps" "distinct ps" "k \<notin> set ps"
      "set ps = {k'. g_owner g k' = Some c \<and> g_free g k' \<noteq> [] \<and> k' \<noteq> k}"
    and w1: "w_rgs w1 = w_rgs w" "w_queue w1 = w_queue w" "w_mem w1 = pptr_set m (last (take n L)) 0" "w_flist w1 = w_flist w"
      "w_desc w1 = (w_desc w)(desc_addr (w_rgs w) k := d\<lparr>danchor := A\<rparr>)"
      "length (w_heaps w1) = NLIST + 1" "\<forall>c'\<le>NLIST. sc_idx (w_heaps w1 ! c') = of_nat c'"
      "\<And>c'. c' < NLIST \<Longrightarrow> c' \<noteq> c \<Longrightarrow> phead w1 c' = phead w c'" "phead w1 c = p"
  shows "\<exists>w2. heap_push_partial w1 (desc_addr (w_rgs w) k) = Inr w2
    \<and> heap_inv (set_flist c (F (PushList f0 (hd L) nw)) w2) (g_move g k c (drop n L) (take n L) (k # ps))
    \<and> frame w g (set_flist c (F (PushList f0 (hd L) nw)) w2) (g_move g k c (drop n L) (take n L) (k # ps))
    \<and> w_rgs w2 = w_rgs w \<and> w_queue w2 = w_queue w"
proof -
  let ?R = "w_rgs w"
  let ?a = "desc_addr ?R k"
  note i = heap_invD [OF inv(1)]
  have small: "k < 2 ^ 24" using inv(4) geom_nsb(1) [OF i(1)] by linarith
  have psm: "\<forall>k\<in>set ps. k < 2 ^ 24" using part(4) owner_small [OF i(1,2)] by auto
  have bl: "blocks L" using L(2,3) sb_blocks_addr [OF i(1) inv(4)] by (auto simp: blocks_def)
  have hd: "hd L \<in> set L" using L(5) by (intro hd_in_set) auto
  note cut = cut_chain [OF L(1) bl L(4,5)]
  let ?m = "pptr_set m (last (take n L)) 0"
  have lastb: "last (take n L) \<in> set L" using L(4,5) by (metis in_set_takeD last_in_set length_0_conv take_eq_Nil neq0_conv list.size(3) less_nat_zero_code)
  have ch1: "pchain (w_rgs w1) (w_desc w1) (phead w1 c) ps"
    using pchain_upd_other [OF i(1) part(3) small psm] part(1) by (simp add: w1)
  have dh: "dheap (w_desc w1 (desc_addr (w_rgs w1) k)) = crossptr_assign (w_rgs w1) META_IDX (heap_addr (w_rgs w1) c)"
    using d by (simp add: w1 desc_ok_def)
  obtain cell np where push: "heap_push_partial w1 ?a = Inr (set_partial c cell (upd_desc ?a (\<lambda>d. d\<lparr>next_partial := np\<rparr>) w1))"
    "pc_ptr (acpc_load ?R DESC_IDX cell) = ?a"
    "pchain ?R ((w_desc w1)(?a := (w_desc w1 ?a)\<lparr>next_partial := np\<rparr>)) ?a (k # ps)"
    using heap_push_partial_spec [OF _ w1(6) inv(2) dh inv(3) small ch1 part(3) psm] i(1) w1(1) by metis
  let ?w2 = "set_partial c cell (upd_desc ?a (\<lambda>d. d\<lparr>next_partial := np\<rparr>) w1)"
  let ?w' = "set_flist c (F (PushList f0 (hd L) nw)) ?w2"
  note hp = heaps_set_partial [of "upd_desc ?a (\<lambda>d. d\<lparr>next_partial := np\<rparr>) w1", simplified, OF w1(6) [simplified] inv(2)]
  have else_out: "x \<noteq> last (take n L) \<and> block_addr x" if "x \<in> linked_else g k c" for x
    using linked_else_not_in_sb [OF inv(1,2) _ inv(4) that] own lastb L(3) linked_blocks [OF inv(1)] linked_else_sub that by blast
  have keep: "keeps_live ?R g (w_mem w) ?m"
  proof -
    have "last (take n L) \<in> sb_blocks ?R k c" "last (take n L) \<notin> g_live g" using lastb L(3,6) by auto
    then show ?thesis
      using keeps_live_set [OF i(1,2) _ inv(4), of _ c m 0] own mem(2) keeps_live_trans by fastforce
  qed
  have "heap_inv ?w' (g_move g k c (drop n L) (take n L) (k # ps))"
  proof (rule heap_inv_move [OF inv(1-4) own, where d = "(d\<lparr>danchor := A\<rparr>)\<lparr>next_partial := np\<rparr>" and f = "F (PushList f0 (hd L) nw)"])
    show "w_desc ?w' = (w_desc w)(?a := (d\<lparr>danchor := A\<rparr>)\<lparr>next_partial := np\<rparr>)" by (simp add: w1)
    show "desc_ok ?R ((d\<lparr>danchor := A\<rparr>)\<lparr>next_partial := np\<rparr>) k c (drop n L)" using d by (simp only: desc_ok_next_partial)
    show "\<exists>z. chain (w_mem ?w') (hd (drop n L)) (drop n L) z"
      using cut(3) L(5) by (simp add: w1 hd_drop_conv_nth)
    show "flist_rep (w_mem ?w', F (PushList f0 (hd L) nw)) (take n L)"
    proof -
      obtain z where z: "chain ?m (hd L) (take n L) z" using cut(2) by blast
      have "blocks (take n L)" using bl by (auto simp: blocks_def dest: in_set_takeD)
      then show ?thesis using PushList_rep [OF z, of nw f0] fl(1) L(5) by (simp add: w1 fl(5))
    qed
    show "set (k # ps) = {k'. g_owner g k' = Some c \<and> g_free g k' \<noteq> [] \<and> k' \<noteq> k} \<union> (if drop n L = [] then {} else {k})"
      using part(4) L(5) by auto
    show "distinct (k # ps)" using part by simp
    show "pchain ?R (w_desc ?w') (phead ?w' c) (k # ps)" using push(2,3) by (simp add: hp w1)
    show "pptr_get (w_mem w) x = pptr_get (w_mem ?w') x" if "x \<in> linked_else g k c" for x
      using mem(1) [OF that] else_out [OF that] lastb bl by (simp add: w1 pptr_get_set_block blocks_def)
    show "x \<in> sb_blocks ?R k c \<and> x \<notin> set (drop n L) \<or> x \<in> set (g_cache g c) \<and> x \<notin> sb_blocks ?R k c"
      if "x \<in> set (take n L)" for x
      using that L(2,3) set_take_disj_set_drop_if_distinct [OF L(2), of n n] by (auto dest: in_set_takeD)
    show "g_live g \<inter> set (drop n L) = {}" "g_live g \<inter> set (take n L) = {}" "set (drop n L) \<subseteq> sb_blocks ?R k c"
      using L(3,6) by (auto dest: in_set_takeD in_set_dropD)
  qed (use L fl hp w1 in \<open>auto\<close>)
  moreover have "frame w g ?w' (g_move g k c (drop n L) (take n L) (k # ps))"
    using own keep by (intro frame_move) (auto simp: w1)
  moreover have "w_rgs ?w2 = w_rgs w \<and> w_queue ?w2 = w_queue w" by (simp add: w1)
  ultimately show ?thesis using push(1) by blast
qed

lemma part_facts:
  assumes "heap_inv w g" "c < NLIST"
  shows "distinct (g_part g c)" "pchain (w_rgs w) (w_desc w) (phead w c) (g_part g c)"
    "set (g_part g c) = {k. g_owner g k = Some c \<and> g_free g k \<noteq> []}"
    "length (w_heaps w) = NLIST + 1" "\<forall>c'\<le>NLIST. sc_idx (w_heaps w ! c') = of_nat c'"
  using heap_invD(7) [OF assms(1)] assms(2) by (auto simp: inv_part_def)

lemma cache_facts:
  assumes "heap_inv w g" "c < NLIST"
  shows "flist_rep (w_mem w, w_flist w ! c) (g_cache g c)" "1 \<le> unat (Maxsize (w_flist w ! c))"
    "unat (Maxsize (w_flist w ! c)) \<le> cls_count c" "length (w_flist w) = NLIST"
    "length (g_cache g c) \<le> unat (Maxsize (w_flist w ! c)) + 1"
  using heap_invD(6) [OF assms(1)] assms(2) by (auto simp: inv_cache_def)

text \<open>The anchor that a batch of \<open>n\<close> blocks leaves when it was cut off a chain of \<open>t\<close>.\<close>

lemma unat_31: "j \<le> 8192 \<Longrightarrow> unat (ucast (of_nat j :: u32) :: 31 word) = j"
  by (simp add: unsigned_ucast_eq unsigned_of_nat take_bit_nat_eq_self)

lemma anchor_partial:
  assumes "0 < n" "n < t" "t \<le> cls_count c" "unat (tw :: u32) = t" "unat (nw :: u32) = n"
  shows "anchor_ok \<lparr>avail = av, acount = ucast (tw - nw), astate = SB_PARTIAL\<rparr> c (t - n)"
proof -
  have "nw \<le> tw" using assms(2,4,5) by (simp add: word_le_nat_alt)
  then have "unat (tw - nw) = t - n" using assms(4,5) by (simp add: unat_sub_le)
  then have "unat (ucast (tw - nw) :: 31 word) = t - n"
    using assms(3) cls_count_bounds(2) [of c] by (subst unat_ucast_lt) auto
  then show ?thesis using assms by (simp add: anchor_ok_def)
qed

lemma malloc_from_newsb_inv:
  assumes "heap_inv w g" "c < NLIST" "g_cache g c = []"
  shows "malloc_from_newsb c w 0 = Inl out_of_space \<and> exhausted w \<or>
    (\<exists>n w' g'. malloc_from_newsb c w 0 = Inr (n, w') \<and> heap_inv w' g' \<and> g_cache g' c \<noteq> [] \<and> frame w g w' g')"
proof (cases "small_sb_alloc w SBSIZE = Inl out_of_space")
  case True
  then have "exhausted w" using small_sb_alloc_inv [OF assms(1)] by auto
  then show ?thesis using True assms(2) by (simp add: malloc_from_newsb_def Let_def)
next
  case False
  then obtain k w1 where alloc: "small_sb_alloc w SBSIZE = Inr (sb_addr (w_rgs w) k, w1)" and inv: "heap_inv w1 g"
    and sb: "same_blocks w w1" and k: "0 < k" "k < nsb (w_rgs w1)" "g_owner g k = None" "of_nat k \<notin> set (queue_abs QUEUE_CAP (w_queue w1))"
    using small_sb_alloc_inv [OF assms(1)] by blast
  let ?R = "w_rgs w1"
  let ?a = "desc_addr ?R k"
  have addr: "sb_addr (w_rgs w) k = sb_addr ?R k"
    using sb same_addresses(2) [of ?R "w_rgs w"] by (simp add: same_blocks_def)
  note i = heap_invD [OF inv] and cf = cache_facts [OF inv assms(2)] and pf = part_facts [OF inv assms(2)]
  define bs where "bs = (ucast (indextosize myclasssize ! c) :: u32)"
  define mc where "mc = (ucast (SBSIZE div ucast bs) :: u32)"
  have bw: "unat bs = cls_size c" "unat mc = cls_count c" using block_words [OF assms(2)] by (simp_all add: bs_def mc_def)
  define d where "d = (w_desc w1 ?a)\<lparr>dheap := crossptr_assign ?R META_IDX (heap_addr ?R c), block_size := bs, maxcount := mc,
    dsuperblock := crossptr_assign ?R SB_IDX (sb_addr ?R k)\<rparr>"
  have mc1: "unat (mc - 1) = cls_count c - 1"
    using bw(2) cls_count_bounds(1) [of c] by (simp add: unat_sub_le word_le_nat_alt)
  define m where "m = link_blocks (w_mem w1) (sb_addr ?R k) bs (cls_count c - 1)"
  have m_eq: "link_blocks (w_mem w1) (sb_addr ?R k) bs (unat (mc - 1)) = m" by (simp add: m_def mc1)
  define mx where "mx = Maxsize (w_flist w1 ! c)"
  have M: "cls_count c - 1 < cls_count c" using cls_count_bounds(1) [of c] by simp
  have nolive: "g_live g \<inter> sb_blocks ?R k c = {}" using unowned_not_live [OF inv k(3,2)] .
  have keep: "keeps_live ?R g (w_mem w1) m"
    unfolding m_def using link_blocks_keeps [OF i(1,2) k(2) assms(2) bw(1) M _ nolive] k(3) by simp
  have mem: "pptr_get (w_mem w1) x = pptr_get m x" if "x \<in> linked_else g k c" for x
    using link_blocks_spec [OF i(1) k(2) assms(2) bw(1) M, of "w_mem w1"] linked_else_not_in_sb [OF inv assms(2) _ k(2) that] k(3)
      linked_blocks [OF inv] linked_else_sub that by (metis m_def subsetD)
  have L: "distinct (sb_list ?R k c)" "blocks (sb_list ?R k c)" "hd (sb_list ?R k c) = sb_addr ?R k"
    using distinct_sb_list [OF i(1) k(2)] blocks_sb_list [OF i(1) k(2)] cls_count_bounds(1) [of c]
    by (auto simp: sb_list_def hd_map blk_0)
  obtain z where z: "chain m (sb_addr ?R k) (sb_list ?R k c) z"
    using link_blocks_chain [OF i(1) k(2) assms(2) bw(1)] by (auto simp: m_def)
  have dl: "desc_lookup ?R (sb_addr ?R k) = ?a" using desc_lookup_sb [OF i(1) k(2)] .
  let ?w2 = "(upd_desc ?a (\<lambda>_. d) w1)\<lparr>w_mem := m\<rparr>"
  have fr1: "frame w g w1 g" by (rule same_blocks_frame [OF sb])
  note bounds = grow_maxsize_bounds [of mx mc, unfolded bw(2), OF _ _ cls_count_bounds(2)]
  show ?thesis
  proof (cases "mx \<ge> mc")
    case True
    then have eq: "unat mx = cls_count c" using cf(3) bw(2) by (simp add: mx_def word_le_nat_alt)
    let ?A = "\<lparr>avail = ucast mc, acount = 0, astate = SB_FULL\<rparr>"
    let ?F = "grow_maxsize (PushList (w_flist w1 ! c) (sb_addr ?R k) mc) mx mc"
    let ?w' = "set_flist c ?F (upd_desc ?a (\<lambda>d. d\<lparr>danchor := ?A\<rparr>) ?w2)"
    let ?g = "g_move g k c [] (sb_list ?R k c) (g_part g c)"
    have ret: "malloc_from_newsb c w 0 = Inr (ucast mc, ?w')"
      using assms(2) True unfolding malloc_from_newsb_def Let_def bs_def [symmetric] mc_def [symmetric] alloc addr
      by (simp add: dl m_eq flip: mx_def) (simp add: upd_desc_def set_flist_def d_def mx_def)
    have "heap_inv ?w' ?g"
    proof (rule heap_inv_move [OF inv assms(2) k(1,2), where d = "d\<lparr>danchor := ?A\<rparr>" and f = ?F])
      show "desc_ok ?R (d\<lparr>danchor := ?A\<rparr>) k c []" by (simp add: desc_ok_def d_def bw anchor_ok_def)
      show "flist_rep (w_mem ?w', ?F) (sb_list ?R k c)"
        using PushList_rep [OF z L(2), of mc] bw(2) by (simp add: grow_maxsize_rep)
      show "1 \<le> unat (Maxsize ?F)" "unat (Maxsize ?F) \<le> cls_count c" "length (sb_list ?R k c) \<le> unat (Maxsize ?F) + 1"
        using bounds [of "PushList (w_flist w1 ! c) (sb_addr ?R k) mc"] eq cls_count_bounds(1) [of c] by auto
      show "pchain ?R (w_desc ?w') (phead ?w' c) (g_part g c)"
      proof -
        have "k \<notin> set (g_part g c)" using pf(3) k(3) by simp
        then show ?thesis
          using pf(2) part_small [OF inv assms(2)] k(2) geom_nsb(1) [OF i(1)]
          by (simp add: pchain_upd_other [OF i(1)] d_def)
      qed
    qed (use k pf mem nolive in \<open>auto simp: d_def\<close>)
    moreover have "frame w1 g ?w' ?g" using k(3) keep by (intro frame_move) auto
    moreover have "g_cache ?g c \<noteq> []" using cls_count_bounds(1) [of c] by (simp add: sb_list_def)
    ultimately show ?thesis using ret frame_trans [OF fr1] by blast
  next
    case False
    then have lt: "unat mx < cls_count c" using bw(2) by (simp add: word_le_nat_alt)
    have n0: "0 < unat mx" using cf(2) by (simp add: mx_def)
    let ?n = "unat mx"
    let ?L = "sb_list ?R k c"
    have nth: "?L ! ?n = blk ?R k c ?n" using lt by (simp add: sb_list_def)
    let ?A = "\<lparr>avail = ucast (of_nat ?n :: u32), acount = ucast (mc - mx), astate = SB_PARTIAL\<rparr>"
    let ?w1 = "upd_desc ?a (\<lambda>d. d\<lparr>danchor := ?A\<rparr>) (?w2\<lparr>w_mem := pptr_set m (last (take ?n ?L)) 0\<rparr>)"
    let ?F = "\<lambda>f. grow_maxsize f mx mc"
    have walk: "walk m ?n (sb_addr ?R k) (sb_addr ?R k) 0 = (last (take ?n ?L), blk ?R k c ?n, mx)"
      using cut_chain(1) [OF z L(2) n0] lt nth by simp
    have idx: "compute_idx (sb_addr ?R k) (blk ?R k c ?n) c = Inr (of_nat ?n)"
      using compute_idx_blk [OF i(1) k(2) assms(2) lt] .
    have "\<exists>w2. heap_push_partial ?w1 ?a = Inr w2
      \<and> heap_inv (set_flist c (?F (PushList (w_flist w1 ! c) (hd ?L) mx)) w2) (g_move g k c (drop ?n ?L) (take ?n ?L) (k # g_part g c))
      \<and> frame w1 g (set_flist c (?F (PushList (w_flist w1 ! c) (hd ?L) mx)) w2) (g_move g k c (drop ?n ?L) (take ?n ?L) (k # g_part g c))
      \<and> w_rgs w2 = ?R \<and> w_queue w2 = w_queue w1"
    proof (rule batch_inv [OF inv assms(2) k(1,2) assms(3), where m = m and d = d and A = ?A])
      have "unat (ucast mx :: 31 word) = ?n"
        by (rule unat_ucast_lt) (use lt cls_count_bounds(2) [of c] in simp)
      then show "desc_ok ?R (d\<lparr>danchor := ?A\<rparr>) k c (drop ?n ?L)"
        using anchor_partial [OF n0 lt order_refl bw(2) refl] lt nth
        by (simp add: desc_ok_def d_def bw hd_drop_conv_nth)
      show "chain m (hd ?L) ?L z" using z L(3) by simp
      show "1 \<le> unat (Maxsize (?F (PushList (w_flist w1 ! c) (hd ?L) mx)))"
        "unat (Maxsize (?F (PushList (w_flist w1 ! c) (hd ?L) mx))) \<le> cls_count c"
        "?n \<le> unat (Maxsize (?F (PushList (w_flist w1 ! c) (hd ?L) mx))) + 1"
        using bounds [of "PushList (w_flist w1 ! c) (hd ?L) mx"] lt n0 by auto
    qed (use k pf mem nolive keep L lt n0 in \<open>auto simp: grow_maxsize_rep d_def\<close>)
    then obtain w2 where w2: "heap_push_partial ?w1 ?a = Inr w2"
      "heap_inv (set_flist c (?F (PushList (w_flist w1 ! c) (sb_addr ?R k) mx)) w2) (g_move g k c (drop ?n ?L) (take ?n ?L) (k # g_part g c))"
      "frame w1 g (set_flist c (?F (PushList (w_flist w1 ! c) (sb_addr ?R k) mx)) w2) (g_move g k c (drop ?n ?L) (take ?n ?L) (k # g_part g c))"
      unfolding L(3) by blast
    have "malloc_from_newsb c w 0 = Inr (ucast mx, set_flist c (?F (PushList (w_flist w1 ! c) (sb_addr ?R k) mx)) w2)"
      using assms(2) False w2(1) unfolding malloc_from_newsb_def Let_def bs_def [symmetric] mc_def [symmetric] alloc addr
      by (simp add: dl m_eq walk idx flip: mx_def) (simp add: upd_desc_def d_def)
    moreover have "take ?n ?L \<noteq> []" using n0 lt by (auto simp: sb_list_def)
    ultimately show ?thesis using w2(2,3) frame_trans [OF fr1 w2(3)] by auto
  qed
qed

section \<open>Retiring a superblock\<close>

definition g_drop :: "ghost \<Rightarrow> nat \<Rightarrow> nat \<Rightarrow> u64 list \<Rightarrow> nat list \<Rightarrow> ghost" where
  "g_drop g k c cs ps = g\<lparr>g_owner := (g_owner g)(k := None), g_free := (g_free g)(k := []),
     g_cache := (g_cache g)(c := cs), g_part := (g_part g)(c := ps)\<rparr>"

lemma g_drop_simps [simp]:
  "g_owner (g_drop g k c cs ps) = (g_owner g)(k := None)" "g_free (g_drop g k c cs ps) = (g_free g)(k := [])"
  "g_cache (g_drop g k c cs ps) = (g_cache g)(c := cs)" "g_part (g_drop g k c cs ps) = (g_part g)(c := ps)"
  "g_live (g_drop g k c cs ps) = g_live g"
  by (simp_all add: g_drop_def)

lemma heap_inv_drop:
  assumes "heap_inv w g" "c < NLIST" "g_owner g k = Some c"
    and same: "w_rgs w' = w_rgs w" "w_queue w' = w_queue w" "w_desc w' = (w_desc w)(desc_addr (w_rgs w) k := d)"
    and fl: "w_flist w' = (w_flist w)[c := f]" "flist_rep (w_mem w', f) cs" "Maxsize f = Maxsize (w_flist w ! c)"
    and cs: "set cs \<subseteq> set (g_cache g c)" "set cs \<inter> sb_blocks (w_rgs w) k c = {}" "length cs \<le> length (g_cache g c)"
    and live: "g_live g \<inter> sb_blocks (w_rgs w) k c = {}"
    and mem: "\<And>x. x \<in> linked_else g k c \<Longrightarrow> pptr_get (w_mem w) x = pptr_get (w_mem w') x"
    and part: "length (w_heaps w') = NLIST + 1" "\<forall>c'\<le>NLIST. sc_idx (w_heaps w' ! c') = of_nat c'"
      "\<And>c'. c' < NLIST \<Longrightarrow> c' \<noteq> c \<Longrightarrow> phead w' c' = phead w c'"
      "pchain (w_rgs w) (w_desc w') (phead w' c) ps" "distinct ps" "set ps = set (g_part g c) - {k}"
  shows "heap_inv w' (g_drop g k c cs ps)"
proof -
  note i = heap_invD [OF assms(1)] and cf = cache_facts [OF assms(1)] and pf = part_facts [OF assms(1)]
  let ?R = "w_rgs w" and ?g = "g_drop g k c cs ps"
  have small: "k < 2 ^ 24" using owner_small [OF i(1,2) assms(3)] .
  have ne: "desc_addr ?R k' \<noteq> desc_addr ?R k" if "g_owner g k' = Some c'" "k' \<noteq> k" for k' c'
    using owner_small [OF i(1,2) that(1)] small that(2) by (subst desc_addr_inj [OF i(1)]) auto
  have "inv_owner ?R ?g" using i(2) by (auto simp: inv_owner_def)
  moreover have "inv_desc ?R (w_desc w') ?g" using i(3) same ne by (auto simp: inv_desc_def)
  moreover have "inv_free ?R (w_mem w') ?g"
    unfolding inv_free_def
  proof (intro allI impI)
    fix k' c' assume "g_owner ?g k' = Some c'"
    then have o: "g_owner g k' = Some c'" "k' \<noteq> k" by (auto split: if_splits)
    have "chain (w_mem w) a (g_free g k') z = chain (w_mem w') a (g_free g k') z" for a z
      using mem o(2) by (intro chain_cong) (auto simp: linked_else_def)
    moreover have "distinct (g_free g k') \<and> set (g_free g k') \<subseteq> sb_blocks ?R k' c'
        \<and> (\<exists>z. chain (w_mem w) (hd (g_free g k')) (g_free g k') z)"
      using i(4) o(1) by (simp add: inv_free_def)
    ultimately show "distinct (g_free ?g k') \<and> set (g_free ?g k') \<subseteq> sb_blocks ?R k' c' \<and> (\<exists>z. chain (w_mem w') (hd (g_free ?g k')) (g_free ?g k') z)"
      using o(2) by simp
  qed
  moreover have "inv_queue ?R (w_queue w') ?g" using i(5) by (auto simp: inv_queue_def same)
  moreover have "inv_cache ?R (w_mem w') (w_flist w') ?g"
    unfolding inv_cache_def
  proof (intro conjI allI impI ballI)
    show "length (w_flist w') = NLIST" using cf(4) [OF assms(2)] fl(1) by simp
    fix c' assume c': "c' < NLIST"
    show "flist_rep (w_mem w', w_flist w' ! c') (g_cache ?g c')"
      using fl(1,2) cf(1,4) [OF c'] mem c'
      by (cases "c' = c") (auto intro!: flist_rep_frame [of "w_mem w" _ _ "w_mem w'"] simp: linked_else_def)
    have "Maxsize (w_flist w' ! c') = Maxsize (w_flist w ! c')" using fl(1,3) cf(4) [OF c'] c' by (cases "c' = c") auto
    moreover have "length (g_cache ?g c') \<le> length (g_cache g c')" using cs(3) by simp
    ultimately show "1 \<le> unat (Maxsize (w_flist w' ! c'))" "unat (Maxsize (w_flist w' ! c')) \<le> cls_count c'"
      "length (g_cache ?g c') \<le> unat (Maxsize (w_flist w' ! c')) + 1"
      using cf(2,3,5) [OF c'] by simp_all
    fix x assume x: "x \<in> set (g_cache ?g c')"
    then have "x \<in> set (g_cache g c')" using cs(1) by (auto split: if_splits)
    then obtain k' where k': "g_owner g k' = Some c'" "x \<in> sb_blocks ?R k' c'" "x \<notin> set (g_free g k')"
      using i(6) c' by (auto simp: inv_cache_def)
    moreover have "k' \<noteq> k" using k' x cs(2) assms(3) by auto
    ultimately show "\<exists>k'. g_owner ?g k' = Some c' \<and> x \<in> sb_blocks ?R k' c' \<and> x \<notin> set (g_free ?g k')"
      by (intro exI [of _ k']) simp
  qed
  moreover have "inv_part w' ?g"
    unfolding inv_part_def
  proof (intro conjI allI impI)
    show "length (w_heaps w') = NLIST + 1" by (rule part(1))
    fix c'
    show "sc_idx (w_heaps w' ! c') = of_nat c'" if "c' \<le> NLIST" using part(2) that by simp
    assume c': "c' < NLIST"
    show "distinct (g_part ?g c')" using pf(1) [OF c'] part(5) by simp
    show "set (g_part ?g c') = {k. g_owner ?g k = Some c' \<and> g_free ?g k \<noteq> []}"
      using pf(3) [OF c'] part(6) assms(3) by auto
    show "pchain (w_rgs w') (w_desc w') (phead w' c') (g_part ?g c')"
    proof (cases "c' = c")
      case True
      then show ?thesis using part(4) same by simp
    next
      case False
      have "k \<notin> set (g_part g c')" using pf(3) [OF c'] assms(3) False by auto
      then have "pchain ?R (w_desc w') (phead w c') (g_part g c')"
        unfolding same(3) using pf(2) [OF c'] small part_small [OF assms(1) c']
        by (subst pchain_upd_other [OF i(1)]) auto
      then show ?thesis using False part(3) c' same by simp
    qed
  qed
  moreover have "inv_live ?R ?g"
    unfolding inv_live_def
  proof
    fix x assume x: "x \<in> g_live ?g"
    then obtain k' c' where o: "g_owner g k' = Some c'" "x \<in> sb_blocks ?R k' c'" "x \<notin> set (g_free g k')"
      "c' < NLIST \<longrightarrow> x \<notin> set (g_cache g c')"
      using i(8) by (auto simp: inv_live_def)
    moreover have "k' \<noteq> k" using o live x assms(3) by auto
    ultimately show "\<exists>k c. g_owner ?g k = Some c \<and> x \<in> sb_blocks ?R k c \<and> x \<notin> set (g_free ?g k) \<and> (c < NLIST \<longrightarrow> x \<notin> set (g_cache ?g c))"
      using cs(1) by (intro exI [of _ k'] exI [of _ c']) auto
  qed
  ultimately show ?thesis using i(1) by (simp add: heap_inv_def same)
qed

lemma frame_drop:
  assumes "g_owner g k = Some c" "g_live g \<inter> sb_blocks (w_rgs w) k c = {}" "w_rgs w' = w_rgs w"
    "keeps_live (w_rgs w) g (w_mem w) (w_mem w')"
  shows "frame w g w' (g_drop g k c cs ps)"
  using assms by (auto simp: frame_def)

text \<open>When all blocks of a superblock are on its free chain, none is live or cached.\<close>

lemma all_free:
  assumes "heap_inv w g" "g_owner g k = Some c" "length (g_free g k) = cls_count c" "c < NLIST"
  shows "g_live g \<inter> sb_blocks (w_rgs w) k c = {}" "set (g_cache g c) \<inter> sb_blocks (w_rgs w) k c = {}"
proof -
  note i = heap_invD [OF assms(1)]
  have k: "k < nsb (w_rgs w)" using ownerD [OF i(2) assms(2)] by simp
  have f: "distinct (g_free g k)" "set (g_free g k) \<subseteq> sb_blocks (w_rgs w) k c" using i(4) assms(2) by (auto simp: inv_free_def)
  have "finite (sb_blocks (w_rgs w) k c)" by (simp add: sb_blocks_def)
  moreover have "card (set (g_free g k)) = card (sb_blocks (w_rgs w) k c)"
    using assms(3) f(1) by (simp add: distinct_card card_sb_blocks [OF i(1) k])
  ultimately have eq: "set (g_free g k) = sb_blocks (w_rgs w) k c" using f(2) card_subset_eq by blast
  have "x \<notin> linked g" if "x \<in> g_live g" for x using linked_blocks [OF assms(1), of x] that by blast
  then show "g_live g \<inter> sb_blocks (w_rgs w) k c = {}" unfolding eq [symmetric] by (auto simp: linked_def)
  have "x \<notin> set (g_free g k)" if x: "x \<in> set (g_cache g c)" for x
  proof -
    obtain k' where k': "g_owner g k' = Some c" "x \<in> sb_blocks (w_rgs w) k' c" "x \<notin> set (g_free g k')"
      using i(6) assms(4) x by (auto simp: inv_cache_def)
    then show ?thesis using sb_blocks_same [OF i(1) _ k k'(2)] ownerD [OF i(2) k'(1)] f(2) by auto
  qed
  then show "set (g_cache g c) \<inter> sb_blocks (w_rgs w) k c = {}" unfolding eq [symmetric] by auto
qed

section \<open>Refilling from partial superblocks\<close>

lemmas malloc_from_partial_step = malloc_from_partial.simps(2)
declare malloc_from_partial.simps(2) [simp del]

lemma descD:
  assumes "heap_inv w g" "g_owner g k = Some c"
  shows "desc_ok (w_rgs w) (w_desc w (desc_addr (w_rgs w) k)) k c (g_free g k)"
    "distinct (g_free g k)" "set (g_free g k) \<subseteq> sb_blocks (w_rgs w) k c"
    "\<exists>z. chain (w_mem w) (hd (g_free g k)) (g_free g k) z" "0 < k" "k < nsb (w_rgs w)"
    "crossptr_get (w_rgs w) SB_IDX (dsuperblock (w_desc w (desc_addr (w_rgs w) k))) = sb_addr (w_rgs w) k"
    "g_live g \<inter> set (g_free g k) = {}"
proof -
  note i = heap_invD [OF assms(1)]
  show d: "desc_ok (w_rgs w) (w_desc w (desc_addr (w_rgs w) k)) k c (g_free g k)" using i(3) assms(2) by (simp add: inv_desc_def)
  show "distinct (g_free g k)" "set (g_free g k) \<subseteq> sb_blocks (w_rgs w) k c"
    "\<exists>z. chain (w_mem w) (hd (g_free g k)) (g_free g k) z" using i(4) assms(2) by (auto simp: inv_free_def)
  show k: "0 < k" "k < nsb (w_rgs w)" using ownerD [OF i(2) assms(2)] by auto
  show "crossptr_get (w_rgs w) SB_IDX (dsuperblock (w_desc w (desc_addr (w_rgs w) k))) = sb_addr (w_rgs w) k"
    using d crossptr_sb [OF i(1) k] by (simp add: desc_ok_def)
  have "x \<notin> linked g" if "x \<in> g_live g" for x using linked_blocks [OF assms(1), of x] that by blast
  then show "g_live g \<inter> set (g_free g k) = {}" by (auto simp: linked_def)
qed

text \<open>
  The three outcomes for the first superblock \<open>k\<close> of the partial list, in the state \<open>w1\<close> after
  it was popped: it is retired, it is taken whole, or a batch is cut off.
\<close>

lemma popped_facts:
  assumes "heap_inv w g" "c < NLIST" "g_part g c = k # ps"
  obtains cell where "heap_pop_partial w c = Inr (desc_addr (w_rgs w) k, set_partial c cell w)"
    "pchain (w_rgs w) (w_desc w) (phead (set_partial c cell w) c) ps" "g_owner g k = Some c" "g_free g k \<noteq> []" "k \<notin> set ps" "distinct ps"
    "set ps = {k'. g_owner g k' = Some c \<and> g_free g k' \<noteq> [] \<and> k' \<noteq> k}"
proof -
  note pf = part_facts [OF assms(1,2), unfolded assms(3)]
  have sm: "\<forall>k\<in>set (k # ps). 0 < k \<and> k < 2 ^ 24" using part_small [OF assms(1,2)] assms(3) by simp
  obtain cell where cell: "heap_pop_partial w c = Inr (desc_addr (w_rgs w) k, set_partial c cell w)"
    "pchain (w_rgs w) (w_desc w) (pc_ptr (acpc_load (w_rgs w) DESC_IDX cell)) ps"
    using heap_pop_partial_cons [OF heap_invD(1) [OF assms(1)] pf(2) sm] by metis
  have "k \<in> {k. g_owner g k = Some c \<and> g_free g k \<noteq> []}" using pf(3) by auto
  moreover have "set ps = {k'. g_owner g k' = Some c \<and> g_free g k' \<noteq> [] \<and> k' \<noteq> k}" using pf(1,3) by auto
  ultimately show thesis
    using that [of cell] cell pf(1) heaps_set_partial(4) [OF pf(4) assms(2), of cell] by simp
qed

lemma malloc_from_partial_inv:
  assumes "heap_inv w g" "c < NLIST" "g_cache g c = []" "length (g_part g c) < fuel"
  shows "\<exists>n w' g'. malloc_from_partial fuel c w 0 = Inr (n, w') \<and> heap_inv w' g' \<and> frame w g w' g'
    \<and> (g_cache g' c = [] \<longleftrightarrow> n = 0) \<and> w_rgs w' = w_rgs w \<and> w_queue w' = w_queue w"
  using assms
proof (induction fuel arbitrary: w g)
  case 0
  then show ?case by simp
next
  case (Suc fuel)
  note inv = Suc.prems(1) and c = Suc.prems(2)
  note i = heap_invD [OF inv] and pf = part_facts [OF inv c] and cf = cache_facts [OF inv c]
  show ?case
  proof (cases "g_part g c")
    case Nil
    then have "malloc_from_partial (Suc fuel) c w 0 = Inr (0, w)"
      using pf(2) by (simp add: heap_pop_partial_nil malloc_from_partial_step)
    then show ?thesis using Suc.prems by auto
  next
    case (Cons k ps)
    obtain cell where pop: "heap_pop_partial w c = Inr (desc_addr (w_rgs w) k, set_partial c cell w)"
      "pchain (w_rgs w) (w_desc w) (phead (set_partial c cell w) c) ps" "g_owner g k = Some c" "g_free g k \<noteq> []" "k \<notin> set ps" "distinct ps"
      "set ps = {k'. g_owner g k' = Some c \<and> g_free g k' \<noteq> [] \<and> k' \<noteq> k}"
      by (rule popped_facts [OF inv c Cons])
    let ?R = "w_rgs w" and ?L = "g_free g k"
    let ?a = "desc_addr ?R k" and ?w1 = "set_partial c cell w"
    note D = descD [OF inv pop(3)] and hp = heaps_set_partial [OF pf(4) c, where cell = cell]
    define d where "d = w_desc w ?a"
    define mx where "mx = Maxsize (w_flist w ! c)"
    have nz: "?a \<noteq> 0" using desc_addr_nonzero [OF i(1), of k] owner_small [OF i(1,2) pop(3)] by simp
    have small: "k < 2 ^ 24" using owner_small [OF i(1,2) pop(3)] .
    have psm: "\<forall>k\<in>set ps. k < 2 ^ 24" using pop(7) owner_small [OF i(1,2)] by auto
    have ok: "anchor_ok (danchor d) c (length ?L)" and av: "unat (avail (danchor d)) < cls_count c" "hd ?L = blk ?R k c (unat (avail (danchor d)))"
      and bsz: "unat (block_size d) = cls_size c" "unat (maxcount d) = cls_count c"
      using D(1) pop(4) by (simp_all add: desc_ok_def d_def)
    have head: "block_at (sb_addr ?R k) (avail (danchor d)) (block_size d) = hd ?L"
      using block_at_blk [OF c av(1) bsz(1)] av(2) by simp
    have bl: "blocks ?L" using D(2,3) sb_blocks_addr [OF i(1) D(6)] by (auto simp: blocks_def)
    have cnt: "unat (ucast (acount (danchor d)) :: u32) = unat (acount (danchor d))"
      using unat_lt_2p [of "acount (danchor d)"] by (intro unat_ucast_lt) simp
    from ok consider (empty) "astate (danchor d) = SB_EMPTY" "length ?L = cls_count c"
      | (whole) "astate (danchor d) = SB_PARTIAL" "length ?L < cls_count c" "unat (acount (danchor d)) = length ?L" "ucast (acount (danchor d)) \<le> mx"
      | (cut) "astate (danchor d) = SB_PARTIAL" "length ?L < cls_count c" "unat (acount (danchor d)) = length ?L" "\<not> ucast (acount (danchor d)) \<le> mx"
      using pop(4) by (auto simp: anchor_ok_def)
    then show ?thesis
    proof cases
      case empty
      note nl = all_free [OF inv pop(3) empty(2) c]
      let ?w2 = "upd_desc ?a (\<lambda>_. Descriptor ?a) ?w1" and ?g = "g_drop g k c [] ps"
      have "heap_inv ?w2 ?g"
      proof (rule heap_inv_drop [OF inv c pop(3), where d = "Descriptor ?a" and f = "w_flist w ! c"])
        show "pchain ?R (w_desc ?w2) (phead ?w2 c) ps"
          using pop(2) pchain_upd_other [OF i(1) pop(5) small psm] by simp
        show "set ps = set (g_part g c) - {k}" using Cons pop(5) by auto
        show "flist_rep (w_mem ?w2, w_flist w ! c) []" using cf(1) Suc.prems(3) by simp
      qed (use hp pf pop nl c cf in auto)
      moreover have fr: "frame w g ?w2 ?g" using pop(3) nl(1) by (intro frame_drop) auto
      ultimately obtain n w' g' where r: "malloc_from_partial fuel c ?w2 0 = Inr (n, w')" "heap_inv w' g'" "frame ?w2 ?g w' g'"
        "g_cache g' c = [] \<longleftrightarrow> n = 0" "w_rgs w' = w_rgs w" "w_queue w' = w_queue w"
        using Suc.IH [of ?w2 ?g] c Suc.prems(4) Cons by auto
      have "malloc_from_partial (Suc fuel) c w 0 = Inr (n, w')"
        using r(1) pop(1) nz empty(1) D(7)
        by (simp add: malloc_from_partial_step Let_def small_sb_retire_def desc_lookup_sb [OF i(1) D(6)] flip: d_def)
      then show ?thesis using r frame_trans [OF fr] by blast
    next
      case whole
      let ?A = "\<lparr>avail = ucast (maxcount d), acount = 0, astate = SB_FULL\<rparr>"
      let ?bt = "ucast (acount (danchor d)) :: u32"
      let ?f = "PushList (w_flist w ! c) (hd ?L) ?bt"
      let ?w' = "set_flist c ?f (upd_desc ?a (\<lambda>d. d\<lparr>danchor := ?A\<rparr>) ?w1)" and ?g = "g_move g k c [] ?L ps"
      have ret: "malloc_from_partial (Suc fuel) c w 0 = Inr (ucast ?bt, ?w')"
        using pop(1) nz whole(1,4) D(7) head by (simp add: malloc_from_partial_step Let_def flip: d_def mx_def)
      have "heap_inv ?w' ?g"
      proof (rule heap_inv_move [OF inv c D(5,6), where d = "d\<lparr>danchor := ?A\<rparr>" and f = ?f])
        show "desc_ok ?R (d\<lparr>danchor := ?A\<rparr>) k c []" using D(1) by (simp add: desc_ok_def d_def anchor_ok_def)
        show "flist_rep (w_mem ?w', ?f) ?L" using D(4) PushList_rep [OF _ bl] whole(3) cnt by auto
        show "pchain ?R (w_desc ?w') (phead ?w' c) ps"
          using pop(2) pchain_upd_other [OF i(1) pop(5) small psm] by simp
        show "length ?L \<le> unat (Maxsize ?f) + 1" using whole(3,4) cnt by (simp add: mx_def word_le_nat_alt)
      qed (use pop D hp pf cf in \<open>auto simp: d_def\<close>)
      moreover have "frame w g ?w' ?g" using pop(3) by (intro frame_move) auto
      moreover have "ucast ?bt \<noteq> (0 :: u64)"
      proof
        assume z: "ucast ?bt = (0 :: u64)"
        have "unat (ucast ?bt :: u64) = length ?L"
          using cnt whole(2,3) cls_count_bounds(2) [of c] by (subst unat_ucast_lt) auto
        with z pop(4) show False by simp
      qed
      ultimately show ?thesis using ret pop(4) by auto
    next
      case cut
      have n: "0 < unat mx" "unat mx < length ?L" using cf(2) cut(3,4) cnt by (auto simp: mx_def word_le_nat_alt)
      have n': "unat mx < cls_count c" using n(2) cut(2) by simp
      let ?n = "unat mx"
      obtain z where z: "chain (w_mem w) (hd ?L) ?L z" using D(4) by blast
      obtain j where j: "j < cls_count c" "?L ! ?n = blk ?R k c j"
        using D(3) nth_mem [OF n(2)] by (auto simp: sb_blocks_def)
      have idx: "compute_idx (sb_addr ?R k) (?L ! ?n) c = Inr (of_nat j)"
        using compute_idx_blk [OF i(1) D(6) c j(1)] j(2) by simp
      have walk: "walk (w_mem w) ?n (hd ?L) (hd ?L) 0 = (last (take ?n ?L), ?L ! ?n, mx)"
        using cut_chain(1) [OF z bl n] by simp
      let ?A = "\<lparr>avail = ucast (of_nat j :: u32), acount = ucast ((ucast (acount (danchor d)) :: u32) - mx), astate = SB_PARTIAL\<rparr>"
      let ?w2 = "upd_desc ?a (\<lambda>d. d\<lparr>danchor := ?A\<rparr>) (?w1\<lparr>w_mem := pptr_set (w_mem w) (last (take ?n ?L)) 0\<rparr>)"
      let ?F = "\<lambda>f. grow_maxsize f mx (maxcount d)"
      note bounds = grow_maxsize_bounds [of mx "maxcount d", unfolded bsz(2), OF _ _ cls_count_bounds(2)]
      have "\<exists>w2. heap_push_partial ?w2 ?a = Inr w2
        \<and> heap_inv (set_flist c (?F (PushList (w_flist w ! c) (hd ?L) mx)) w2) (g_move g k c (drop ?n ?L) (take ?n ?L) (k # ps))
        \<and> frame w g (set_flist c (?F (PushList (w_flist w ! c) (hd ?L) mx)) w2) (g_move g k c (drop ?n ?L) (take ?n ?L) (k # ps))
        \<and> w_rgs w2 = ?R \<and> w_queue w2 = w_queue w"
      proof (rule batch_inv [OF inv c D(5,6) Suc.prems(3), where m = "w_mem w" and d = d and A = ?A])
        have "j \<le> 8192" using j(1) cls_count_bounds(2) [of c] by simp
        then show "desc_ok ?R (d\<lparr>danchor := ?A\<rparr>) k c (drop ?n ?L)"
          using anchor_partial [OF n _ _ refl, of c "ucast (acount (danchor d))" "ucast (of_nat j :: u32)"] cut(2,3) cnt n j D(1)
          by (simp add: desc_ok_def d_def hd_drop_conv_nth unat_31)
        show "1 \<le> unat (Maxsize (?F (PushList (w_flist w ! c) (hd ?L) mx)))"
          "unat (Maxsize (?F (PushList (w_flist w ! c) (hd ?L) mx))) \<le> cls_count c"
          "?n \<le> unat (Maxsize (?F (PushList (w_flist w ! c) (hd ?L) mx))) + 1"
          using bounds [of "PushList (w_flist w ! c) (hd ?L) mx"] n n' by auto
        show "phead ?w2 c = phead ?w1 c" by simp
        show "pchain ?R (w_desc w) (phead ?w1 c) ps" using pop(2) by simp
      qed (use pop D hp pf n z in \<open>auto simp: grow_maxsize_rep d_def\<close>)
      then obtain w2 where w2: "heap_push_partial ?w2 ?a = Inr w2"
        "heap_inv (set_flist c (?F (PushList (w_flist w ! c) (hd ?L) mx)) w2) (g_move g k c (drop ?n ?L) (take ?n ?L) (k # ps))"
        "frame w g (set_flist c (?F (PushList (w_flist w ! c) (hd ?L) mx)) w2) (g_move g k c (drop ?n ?L) (take ?n ?L) (k # ps))"
        "w_rgs w2 = ?R" "w_queue w2 = w_queue w"
        by blast
      have "malloc_from_partial (Suc fuel) c w 0 = Inr (ucast mx, set_flist c (?F (PushList (w_flist w ! c) (hd ?L) mx)) w2)"
        using pop(1) nz cut(1,4) D(7) head w2(1) walk idx by (simp add: malloc_from_partial_step Let_def flip: d_def mx_def)
      moreover have "take ?n ?L \<noteq> []" using n by auto
      moreover have "ucast mx \<noteq> (0 :: u64)"
        using n(1) unat_ucast_lt [of mx, where 'b = 64] unat_lt_2p [of mx] by auto
      ultimately show ?thesis using w2(2-5) by auto
    qed
  qed
qed

end
