(* ===== verification/Bx_Flush.thy ===== *)
theory Bx_Flush
  imports Bx_Malloc
begin

unbundle bit_operations_syntax

text \<open>
  The refill (\<open>fill_cache\<close>) and the flush (\<open>flush_cache\<close>) of a thread cache keep the heap
  invariant, the live blocks and their contents; the flush returns every block of the cache to
  its superblock.
\<close>

section \<open>Refill\<close>

lemma part_length:
  assumes "heap_inv w g" "c < NLIST"
  shows "length (g_part g c) < RETRY_FUEL"
proof -
  note i = heap_invD [OF assms(1)]
  have "set (g_part g c) \<subseteq> {0<..<nsb (w_rgs w)}"
    using part_facts(3) [OF assms] ownerD [OF i(2)] by auto
  then have "card (set (g_part g c)) \<le> card {0<..<nsb (w_rgs w)}" by (intro card_mono) auto
  then have "length (g_part g c) \<le> nsb (w_rgs w) - 1"
    using part_facts(1) [OF assms] by (simp add: distinct_card)
  then show ?thesis
    using geom_nsb(1) [OF i(1)] by (simp add: RETRY_FUEL_def MAX_DESC_AMOUNT_BITS_def)
qed

lemma fill_cache_inv:
  assumes "heap_inv w g" "c < NLIST" "g_cache g c = []"
  shows "fill_cache c w = Inl out_of_space \<and> exhausted w \<or>
    (\<exists>w' g'. fill_cache c w = Inr w' \<and> heap_inv w' g' \<and> g_cache g' c \<noteq> [] \<and> frame w g w' g')"
proof -
  obtain n w1 g1 where r: "malloc_from_partial RETRY_FUEL c w 0 = Inr (n, w1)" "heap_inv w1 g1" "frame w g w1 g1"
    "g_cache g1 c = [] \<longleftrightarrow> n = 0" "w_rgs w1 = w_rgs w" "w_queue w1 = w_queue w"
    using malloc_from_partial_inv [OF assms part_length [OF assms(1,2)]] by blast
  show ?thesis
  proof (cases "n = 0")
    case True
    then show ?thesis
      using malloc_from_newsb_inv [OF r(2) assms(2)] r frame_trans [OF r(3)]
      by (auto simp: fill_cache_def exhausted_def)
  next
    case False
    then show ?thesis using r by (auto simp: fill_cache_def)
  qed
qed

section \<open>The span of one superblock\<close>

definition in_sb :: "regions \<Rightarrow> nat \<Rightarrow> u64 \<Rightarrow> bool" where
  "in_sb R k x \<longleftrightarrow> \<not> (x < sb_addr R k \<or> x \<ge> sb_addr R k + SBSIZE)"

lemma in_sb_iff:
  assumes "geom R" "k < nsb R" "k' < nsb R" "x \<in> sb_blocks R k' c"
  shows "in_sb R k x \<longleftrightarrow> k' = k"
proof -
  obtain j where j: "j < cls_count c" "x = blk R k' c j" using assms(4) by (auto simp: sb_blocks_def)
  have x: "unat x = unat (Regions_lookup R SB_IDX) + k' * 65536 + j * cls_size c"
    using unat_blk [OF assms(1,3) j(1)] j(2) by simp
  have lt: "j * cls_size c < 65536" using cls_extent [OF j(1)] cls_size_bounds(1) [of c] by linarith
  have "sb_addr R k + SBSIZE = sb_addr R (Suc k)" by (simp add: sb_addr_def SBSIZE_eq)
  then have "in_sb R k x \<longleftrightarrow> k * 65536 \<le> k' * 65536 + j * cls_size c \<and> k' * 65536 + j * cls_size c < Suc k * 65536"
    using unat_sb_addr [OF assms(1), of k] unat_sb_addr [OF assms(1), of "Suc k"] assms(2)
    by (auto simp: in_sb_def word_less_nat_alt word_le_nat_alt x not_less)
  also have "\<dots> \<longleftrightarrow> k' = k" using lt by auto
  finally show ?thesis .
qed

lemma flush_span_chain:
  "chain m (pptr_get m tail) zs z \<Longrightarrow>
   flush_span m (sb_addr R k) (length zs) tail n =
     (last (tail # takeWhile (in_sb R k) zs), n + of_nat (length (takeWhile (in_sb R k) zs)))"
proof (induction zs arbitrary: tail n)
  case Nil
  then show ?case by simp
next
  case (Cons y zs)
  then show ?case by (auto simp: in_sb_def Let_def add.assoc)
qed

text \<open>What the first iteration takes from the cache, and what it leaves.\<close>

definition span :: "regions \<Rightarrow> nat \<Rightarrow> u64 list \<Rightarrow> u64 list" where
  "span R k cs = hd cs # takeWhile (in_sb R k) (tl cs)"

definition rest :: "regions \<Rightarrow> nat \<Rightarrow> u64 list \<Rightarrow> u64 list" where
  "rest R k cs = dropWhile (in_sb R k) (tl cs)"

lemma span_rest: "cs \<noteq> [] \<Longrightarrow> span R k cs @ rest R k cs = cs"
  by (cases cs) (simp_all add: span_def rest_def)

text \<open>The anchor after \<open>b\<close> blocks joined a chain of \<open>t\<close>.\<close>

lemma flush_anchor_ok:
  assumes "anchor_ok a c t" "0 < b" "t + b \<le> cls_count c" "unat mc = cls_count c" "unat (bc :: u32) = b" "j < cls_count c"
  shows "anchor_ok (flush_anchor a (of_nat j) bc mc) c (t + b)"
    "unat (avail (flush_anchor a (of_nat j) bc mc)) = j"
    "astate a = SB_FULL \<or> astate (flush_anchor a (of_nat j) bc mc) \<noteq> SB_FULL"
proof -
  have M: "cls_count c \<le> 8192" by (rule cls_count_bounds)
  have cnt: "unat (acount a) = t" "astate a = SB_FULL \<or> astate a = SB_PARTIAL" "t = 0 \<longleftrightarrow> astate a = SB_FULL"
    using assms(1-3) by (auto simp: anchor_ok_def)
  have u32: "unat (ucast (acount a) :: u32) = t"
    using cnt(1) assms(3) M by (subst unat_ucast_lt) auto
  have "unat (ucast (acount a) + bc) = t + b"
    using u32 assms(3,5) M by (subst unat_add_lt) auto
  then have full: "ucast (acount a) + bc = mc \<longleftrightarrow> t + b = cls_count c"
    using assms(4) by (simp add: word_unat_eq_iff)
  have m1: "unat (ucast (mc - 1) :: 31 word) = cls_count c - 1"
  proof -
    have "unat (mc - 1) = cls_count c - 1"
      using assms(4) cls_count_bounds(1) [of c] by (simp add: unat_sub_le word_le_nat_alt)
    then show ?thesis using M by (subst unat_ucast_lt) auto
  qed
  have b31: "unat (ucast bc :: 31 word) = b" using assms(3,5) M by (subst unat_ucast_lt) auto
  then have add: "unat (acount a + ucast bc) = t + b"
    using cnt(1) assms(3) M by (subst unat_add_lt) auto
  show "anchor_ok (flush_anchor a (of_nat j) bc mc) c (t + b)"
    using full m1 add assms(2,3) cnt by (auto simp: flush_anchor_def Let_def anchor_ok_def)
  show "unat (avail (flush_anchor a (of_nat j) bc mc)) = j"
    using unat_31 [of j] assms(6) M by (simp add: flush_anchor_def Let_def)
  show "astate a = SB_FULL \<or> astate (flush_anchor a (of_nat j) bc mc) \<noteq> SB_FULL"
    by (simp add: flush_anchor_def Let_def)
qed

section \<open>One iteration of the flush\<close>

lemma chain_last: "chain m a ys b \<Longrightarrow> ys \<noteq> [] \<Longrightarrow> b = pptr_get m (last ys)"
  by (induction ys arbitrary: a) auto

lemma splice_chain:
  assumes "chain m x ys b" "blocks (ys @ fs)" "ys \<noteq> []" "fs \<noteq> [] \<longrightarrow> nxt = hd fs" "\<exists>z. chain m (hd fs) fs z"
  shows "\<exists>z. chain (pptr_set m (last ys) nxt) x (ys @ fs) z"
proof -
  obtain us t where ys: "ys = us @ [t]" using assms(3) by (metis append_butlast_last_id)
  let ?m = "pptr_set m t nxt"
  have t: "block_addr t" "t \<notin> set us" "t \<notin> set fs" "blocks us" "blocks fs" using assms(2) by (auto simp: ys)
  have "chain m x us t" using assms(1) by (auto simp: ys)
  then have us: "chain ?m x us t" using t by (subst chain_set_other) (auto simp: blocks_def)
  show ?thesis
  proof (cases "fs = []")
    case True
    then show ?thesis using us by (auto simp: ys)
  next
    case False
    then have "canonical nxt" using assms(4) t(5) by (cases fs) (auto simp: block_addr_def)
    then have "pptr_get ?m t = hd fs" using t(1) assms(4) False by (simp add: block_addr_def)
    moreover obtain z where "chain m (hd fs) fs z" using assms(5) by blast
    then have "chain ?m (hd fs) fs z" using t by (subst chain_set_other) (auto simp: blocks_def)
    ultimately show ?thesis using us by (auto simp: ys)
  qed
qed

text \<open>
  The situation at the start of an iteration: \<open>k\<close> is the superblock of the first cached block,
  \<open>ys\<close> the span that goes back to it, \<open>rs\<close> what stays in the cache, \<open>m'\<close> the memory after the last
  block of the span has been linked to the superblock's chain.
\<close>

lemma flush_setup:
  assumes "heap_inv w g" "c < NLIST" "g_cache g c \<noteq> []"
  obtains k j bc where "g_owner g k = Some c" "hd (g_cache g c) = blk (w_rgs w) k c j" "j < cls_count c"
    "head_list (w_flist w ! c) = blk (w_rgs w) k c j"
    "flush_span (w_mem w) (sb_addr (w_rgs w) k) (unat (Size (w_flist w ! c)) - 1) (blk (w_rgs w) k c j) 1
       = (last (span (w_rgs w) k (g_cache g c)), bc)"
    "unat bc = length (span (w_rgs w) k (g_cache g c))"
    "set (span (w_rgs w) k (g_cache g c)) \<subseteq> sb_blocks (w_rgs w) k c"
    "set (span (w_rgs w) k (g_cache g c)) \<inter> set (g_free g k) = {}"
    "g_live g \<inter> set (g_cache g c) = {}" "blocks (g_cache g c)"
    "\<exists>z. chain (w_mem w) (blk (w_rgs w) k c j) (g_cache g c) z"
proof -
  note i = heap_invD [OF assms(1)] and cf = cache_facts [OF assms(1,2)]
  let ?R = "w_rgs w"
  obtain x xs where cs: "g_cache g c = x # xs" using assms(3) by (cases "g_cache g c") auto
  have own: "\<exists>k. g_owner g k = Some c \<and> y \<in> sb_blocks ?R k c \<and> y \<notin> set (g_free g k)" if "y \<in> set (g_cache g c)" for y
    using i(6) assms(2) that by (auto simp: inv_cache_def)
  obtain k where k: "g_owner g k = Some c" "x \<in> sb_blocks ?R k c" using own [of x] cs by auto
  have kn: "k < nsb ?R" using ownerD [OF i(2) k(1)] by simp
  obtain j where j: "j < cls_count c" "x = blk ?R k c j" using k(2) by (auto simp: sb_blocks_def)
  obtain z where z: "chain (w_mem w) (fl_list (w_flist w ! c)) (g_cache g c) z" "blocks (g_cache g c)"
    "unat (fl_size (w_flist w ! c)) = length (g_cache g c)"
    using cf(1) by (auto simp: flist_rep_def)
  have hd: "fl_list (w_flist w ! c) = x" using z(1) cs by simp
  define bc :: u32 where "bc = 1 + of_nat (length (takeWhile (in_sb ?R k) xs))"
  have span: "flush_span (w_mem w) (sb_addr ?R k) (length xs) x 1 = (last (span ?R k (g_cache g c)), bc)"
    using flush_span_chain [of "w_mem w" x xs z ?R k 1] z(1) cs by (simp add: span_def bc_def)
  have len: "length xs < 8194" using cf(3,5) cls_count_bounds(2) [of c] by (simp add: cs)
  then have "length (takeWhile (in_sb ?R k) xs) < 8194" using length_takeWhile_le le_less_trans by blast
  then have ubc: "unat bc = length (span ?R k (g_cache g c))"
    unfolding bc_def span_def cs
    by (subst unat_add_lt) (simp_all add: unsigned_of_nat take_bit_nat_eq_self)
  have sub: "y \<in> sb_blocks ?R k c \<and> y \<notin> set (g_free g k)" if y: "y \<in> set (span ?R k (g_cache g c))" for y
  proof -
    have "y \<in> set (g_cache g c)" using y span_rest [OF assms(3), of ?R k] by (metis Un_iff set_append)
    then obtain k' where k': "g_owner g k' = Some c" "y \<in> sb_blocks ?R k' c" "y \<notin> set (g_free g k')" using own by blast
    have "k' < nsb ?R" using ownerD [OF i(2) k'(1)] by simp
    have "y = x \<or> in_sb ?R k y" using y by (auto simp: span_def cs dest: set_takeWhileD)
    then have "k' = k"
    proof
      assume "y = x"
      then show ?thesis using sb_blocks_same [OF i(1) \<open>k' < nsb ?R\<close> kn k'(2)] k(2) by simp
    next
      assume "in_sb ?R k y"
      then show ?thesis using in_sb_iff [OF i(1) kn \<open>k' < nsb ?R\<close> k'(2)] by simp
    qed
    then show ?thesis using k' by simp
  qed
  have "y \<notin> linked g" if "y \<in> g_live g" for y using linked_blocks [OF assms(1), of y] that by blast
  then have live: "g_live g \<inter> set (g_cache g c) = {}" using assms(2) by (auto simp: linked_def)
  show thesis
  proof (rule that [OF k(1)])
    show "flush_span (w_mem w) (sb_addr ?R k) (unat (Size (w_flist w ! c)) - 1) (blk ?R k c j) 1 = (last (span ?R k (g_cache g c)), bc)"
      using span z(3) by (simp add: Size_def cs j(2))
  qed (use sub j live z hd cs ubc in \<open>auto simp: head_list_def\<close>)
qed

lemma flush_step_inv:
  assumes "heap_inv w g" "c < NLIST" "g_cache g c \<noteq> []"
  shows "\<exists>w' g'. flush_step c w = Inr w' \<and> heap_inv w' g' \<and> frame w g w' g' \<and> length (g_cache g' c) < length (g_cache g c)
    \<and> (\<forall>c'. c' \<noteq> c \<longrightarrow> g_cache g' c' = g_cache g c')"
proof -
  note i = heap_invD [OF assms(1)] and cf = cache_facts [OF assms(1,2)] and pf = part_facts [OF assms(1,2)]
  let ?R = "w_rgs w" and ?cs = "g_cache g c"
  obtain k j bc where S: "g_owner g k = Some c" "hd ?cs = blk ?R k c j" "j < cls_count c" "head_list (w_flist w ! c) = blk ?R k c j"
    "flush_span (w_mem w) (sb_addr ?R k) (unat (Size (w_flist w ! c)) - 1) (blk ?R k c j) 1 = (last (span ?R k ?cs), bc)"
    "unat bc = length (span ?R k ?cs)" "set (span ?R k ?cs) \<subseteq> sb_blocks ?R k c"
    "set (span ?R k ?cs) \<inter> set (g_free g k) = {}" "g_live g \<inter> set ?cs = {}" "blocks ?cs"
    "\<exists>z. chain (w_mem w) (blk ?R k c j) ?cs z"
    by (rule flush_setup [OF assms])
  note D = descD [OF assms(1) S(1)]
  define ys where "ys = span ?R k ?cs"
  define rs where "rs = rest ?R k ?cs"
  have ubc: "unat bc = length ys" using S(6) by (simp only: ys_def)
  have cs: "?cs = ys @ rs" unfolding ys_def rs_def using span_rest [OF assms(3)] by simp
  have ne: "ys \<noteq> []" "hd ys = blk ?R k c j" using S(2) by (simp_all add: ys_def span_def)
  let ?a = "desc_addr ?R k" and ?fs = "ys @ g_free g k"
  define d where "d = w_desc w ?a"
  define nxt where "nxt = block_at (sb_addr ?R k) (avail (danchor d)) (ucast (indextosize myclasssize ! c))"
  define m where "m = pptr_set (w_mem w) (last ys) nxt"
  define f where "f = PopList (w_flist w ! c) (pptr_get (w_mem w) (last ys)) (ucast bc)"
  define A where "A = flush_anchor (danchor d) (of_nat j) bc (maxcount d)"
  have bl: "blocks ys" "blocks rs" "set ys \<inter> set rs = {}" using S(10) by (simp_all add: cs)
  have blf: "blocks (g_free g k)" using D(2,3) sb_blocks_addr [OF i(1) D(6)] by (auto simp: blocks_def)
  have ysb: "set ys \<subseteq> sb_blocks ?R k c" "set ys \<inter> set (g_free g k) = {}" using S(7,8) by (simp_all add: ys_def)
  obtain b z where ch: "chain (w_mem w) (blk ?R k c j) ys b" "chain (w_mem w) b rs z" using S(11) unfolding cs by auto
  have b: "b = pptr_get (w_mem w) (last ys)" using chain_last [OF ch(1) ne(1)] .
  have lastb: "last ys \<in> set ys" using ne(1) by simp
  have ok: "anchor_ok (danchor d) c (length (g_free g k))" "unat (maxcount d) = cls_count c" "unat (block_size d) = cls_size c"
    using D(1) by (simp_all add: desc_ok_def d_def)
  have nxt: "nxt = hd (g_free g k)" if "g_free g k \<noteq> []"
    using D(1) that block_words(1) [OF assms(2)] block_at_blk [OF assms(2), of "avail (danchor d)"]
    by (simp add: nxt_def desc_ok_def d_def)
  have chm: "\<exists>z. chain m (blk ?R k c j) ?fs z"
    unfolding m_def using splice_chain [OF ch(1), of "g_free g k" nxt] bl blf ysb(2) ne(1) nxt D(4) by simp
  have dist: "distinct ?fs" "set ?fs \<subseteq> sb_blocks ?R k c" using bl(1) D(2,3) ysb by (auto simp: blocks_def)
  have total: "length (g_free g k) + length ys \<le> cls_count c"
  proof -
    have "card (set ?fs) \<le> card (sb_blocks ?R k c)" using dist(2) by (intro card_mono) (auto simp: sb_blocks_def)
    then have "length ?fs \<le> cls_count c"
      unfolding distinct_card [OF dist(1)] card_sb_blocks [OF i(1) D(6)] .
    then show ?thesis by simp
  qed
  note A = flush_anchor_ok [OF ok(1) _ total ok(2), of bc j, folded A_def]
  have A': "anchor_ok A c (length ?fs)" "unat (avail A) = j" "astate (danchor d) = SB_FULL \<or> astate A \<noteq> SB_FULL"
    using A S(3) ubc ne(1) by (simp_all add: add.commute)
  have flr: "flist_rep (m, f) rs"
  proof -
    have "last ys \<notin> set rs" "block_addr (last ys)" using bl lastb by (auto simp: blocks_def)
    then have "chain m b rs z" using ch(2) bl(2) unfolding m_def by (subst chain_set_other) (auto simp: blocks_def)
    moreover have "fl_size f = fl_size (w_flist w ! c) - bc"
    proof -
      have "unat (fl_size (w_flist w ! c)) = length ?cs" using cf(1) by (auto simp: flist_rep_def)
      then have le: "bc \<le> fl_size (w_flist w ! c)" using ubc by (simp add: word_le_nat_alt cs)
      have up: "unat (ucast x :: u64) = unat x" for x :: u32 using unat_lt_2p [of x] by (intro unat_ucast_lt) simp
      have "unat ((ucast (fl_size (w_flist w ! c)) :: u64) - ucast bc) = unat (fl_size (w_flist w ! c)) - unat bc"
        using le by (subst unat_sub_le) (simp_all add: word_le_nat_alt up)
      moreover have "unat (fl_size (w_flist w ! c)) - unat bc < 2 ^ 32" using unat_lt_2p [of "fl_size (w_flist w ! c)"] by simp
      ultimately have "unat (ucast ((ucast (fl_size (w_flist w ! c)) :: u64) - ucast bc) :: u32) = unat (fl_size (w_flist w ! c)) - unat bc"
        by (subst unat_ucast_lt) simp_all
      then show ?thesis using le by (simp add: f_def PopList_def word_unat_eq_iff unat_sub_le)
    qed
    moreover have "unat (fl_size (w_flist w ! c) - bc) = length rs"
    proof -
      have "unat (fl_size (w_flist w ! c)) = length ys + length rs" using cf(1) by (auto simp: flist_rep_def cs)
      then show ?thesis using ubc by (subst unat_sub_le) (simp_all add: word_le_nat_alt)
    qed
    ultimately show ?thesis using bl(2) by (auto simp: flist_rep_def f_def PopList_def b)
  qed
  have maxf: "Maxsize f = Maxsize (w_flist w ! c)" by (simp add: f_def PopList_def Maxsize_def)
  have mem: "pptr_get (w_mem w) x = pptr_get m x" if "x \<in> linked_else g k c" for x
  proof -
    have "x \<notin> sb_blocks ?R k c" using linked_else_not_in_sb [OF assms(1,2) _ D(6) that] S(1) by simp
    then have "x \<noteq> last ys" using lastb ysb(1) by auto
    moreover have "block_addr x" using linked_blocks [OF assms(1)] linked_else_sub that by blast
    ultimately show ?thesis using bl(1) lastb by (simp add: m_def pptr_get_set_block blocks_def)
  qed
  have keep: "keeps_live ?R g (w_mem w) m"
    unfolding m_def
    by (rule keeps_live_set [OF i(1,2) _ D(6), of "last ys" c]) (use lastb ysb S(1,9) cs in auto)
  have idx: "compute_idx (sb_addr ?R k) (blk ?R k c j) c = Inr (of_nat j)" using compute_idx_blk [OF i(1) D(6) assms(2) S(3)] .
  let ?w1 = "upd_desc ?a (\<lambda>d. d\<lparr>danchor := A\<rparr>) ((set_flist c f w)\<lparr>w_mem := m\<rparr>)"
  have step: "flush_step c w = (if astate (danchor d) = SB_FULL then if astate A = SB_EMPTY then small_sb_retire ?w1 (sb_addr ?R k) SBSIZE
      else heap_push_partial ?w1 ?a else Inr ?w1)"
    using S(4,5) idx D(7) desc_lookup_blk [OF i(1) D(6) S(3)]
    by (simp add: flush_step_def Let_def ys_def [symmetric] d_def [symmetric])
      (simp add: A_def f_def m_def nxt_def d_def)
  have shorter: "length rs < length ?cs" using ne(1) by (simp add: cs)
  have small: "k < 2 ^ 24" using owner_small [OF i(1,2) S(1)] .
  have dok: "desc_ok ?R (d\<lparr>danchor := A\<rparr>) k c ?fs"
    using D(1) A' S(3) ne by (simp add: desc_ok_def d_def)
  have rsc: "x \<in> sb_blocks ?R k c \<and> x \<notin> set ?fs \<or> x \<in> set ?cs \<and> x \<notin> sb_blocks ?R k c" if x: "x \<in> set rs" for x
  proof (cases "x \<in> sb_blocks ?R k c")
    case True
    obtain k' where k': "g_owner g k' = Some c" "x \<in> sb_blocks ?R k' c" "x \<notin> set (g_free g k')"
      using i(6) assms(2) x cs unfolding inv_cache_def by (metis Un_iff set_append)
    have "k' = k" using sb_blocks_same [OF i(1) _ D(6) k'(2) True] ownerD [OF i(2) k'(1)] by simp
    then show ?thesis using True k'(3) x bl(3) by auto
  next
    case False
    then show ?thesis using x cs by simp
  qed
  have psm: "\<forall>k\<in>set (g_part g c). k < 2 ^ 24" using part_small [OF assms(1,2)] by auto
  have lrs: "length rs \<le> unat (Maxsize f) + 1" using cf(5) maxf by (simp add: cs)
  show ?thesis
  proof (cases "astate (danchor d) = SB_FULL")
    case full: True
    then have fr: "g_free g k = []" using ok(1) by (auto simp: anchor_ok_def)
    have kp: "k \<notin> set (g_part g c)" using pf(3) fr by simp
    have chp: "pchain ?R ((w_desc w)(?a := d')) (phead w c) (g_part g c)" for d'
      using pf(2) pchain_upd_other [OF i(1) kp small psm] by simp
    show ?thesis
    proof (cases "astate A = SB_EMPTY")
      case True
      let ?w' = "upd_desc ?a (\<lambda>_. Descriptor ?a) ?w1" and ?g = "g_drop g k c rs (g_part g c)"
      have "length ys = cls_count c" using A'(1) True fr by (auto simp: anchor_ok_def)
      then have all: "set ys = sb_blocks ?R k c"
        using card_subset_eq [of "sb_blocks ?R k c" "set ys"] ysb(1) bl(1)
        by (simp add: sb_blocks_def [of ?R] blocks_def distinct_card card_sb_blocks [OF i(1) D(6), unfolded sb_blocks_def])
      have live: "g_live g \<inter> sb_blocks ?R k c = {}" using S(9) all cs by auto
      have "heap_inv ?w' ?g"
      proof (rule heap_inv_drop [OF assms(1,2) S(1), where d = "Descriptor ?a" and f = f])
        show "flist_rep (w_mem ?w', f) rs" using flr by simp
        show "pchain ?R (w_desc ?w') (phead ?w' c) (g_part g c)" using chp by simp
      qed (use pf kp maxf bl all cs live mem in auto)
      moreover have "frame w g ?w' ?g" using S(1) live keep by (intro frame_drop) auto
      moreover have "flush_step c w = Inr ?w'"
        using full True by (simp add: step small_sb_retire_def desc_lookup_sb [OF i(1) D(6)] Let_def)
      moreover have "length (g_cache ?g c) < length ?cs" "\<forall>c'. c' \<noteq> c \<longrightarrow> g_cache ?g c' = g_cache g c'" using shorter by simp_all
      ultimately show ?thesis by blast
    next
      case False
      have dh: "dheap (w_desc ?w1 (desc_addr (w_rgs ?w1) k)) = crossptr_assign (w_rgs ?w1) META_IDX (heap_addr (w_rgs ?w1) c)"
        using D(1) by (simp add: desc_ok_def)
      obtain cell np where push: "heap_push_partial ?w1 ?a = Inr (set_partial c cell (upd_desc ?a (\<lambda>d. d\<lparr>next_partial := np\<rparr>) ?w1))"
        "pc_ptr (acpc_load ?R DESC_IDX cell) = ?a"
        "pchain ?R ((w_desc ?w1)(?a := (w_desc ?w1 ?a)\<lparr>next_partial := np\<rparr>)) ?a (k # g_part g c)"
        using heap_push_partial_spec [of ?w1 c k "g_part g c", OF _ _ assms(2) dh D(5) small _ kp psm] i(1) pf(4) chp
        by (simp, metis)
      let ?w' = "set_partial c cell (upd_desc ?a (\<lambda>d. d\<lparr>next_partial := np\<rparr>) ?w1)" and ?g = "g_move g k c ys rs (k # g_part g c)"
      note hp = heaps_set_partial [of "upd_desc ?a (\<lambda>d. d\<lparr>next_partial := np\<rparr>) ?w1", simplified, OF pf(4) [simplified] assms(2), where cell = cell]
      have "heap_inv ?w' ?g"
      proof (rule heap_inv_move [OF assms(1,2) D(5,6), where d = "(d\<lparr>danchor := A\<rparr>)\<lparr>next_partial := np\<rparr>" and f = f])
        show "desc_ok ?R ((d\<lparr>danchor := A\<rparr>)\<lparr>next_partial := np\<rparr>) k c ys" using dok fr by (simp only: desc_ok_next_partial) simp
        show "flist_rep (w_mem ?w', f) rs" using flr by simp
        show "pchain ?R (w_desc ?w') (phead ?w' c) (k # g_part g c)" using push(2,3) hp by simp
        show "\<exists>z. chain (w_mem ?w') (hd ys) ys z" using chm ne fr by simp
        show "set (k # g_part g c) = {k'. g_owner g k' = Some c \<and> g_free g k' \<noteq> [] \<and> k' \<noteq> k} \<union> (if ys = [] then {} else {k})"
          using pf(3) kp ne(1) by auto
        show "x \<in> sb_blocks ?R k c \<and> x \<notin> set ys \<or> x \<in> set ?cs \<and> x \<notin> sb_blocks ?R k c" if "x \<in> set rs" for x
          using rsc [OF that] fr by simp
      qed (use S pf kp maxf lrs bl ysb cs mem cf hp in \<open>auto simp: d_def blocks_def\<close>)
      moreover have "frame w g ?w' ?g" using S(1) keep by (intro frame_move) auto
      moreover have "flush_step c w = Inr ?w'" using full False push(1) by (simp add: step)
      moreover have "length (g_cache ?g c) < length ?cs" "\<forall>c'. c' \<noteq> c \<longrightarrow> g_cache ?g c' = g_cache g c'" using shorter by simp_all
      ultimately show ?thesis by blast
    qed
  next
    case False
    then have fr: "g_free g k \<noteq> []" using ok(1) cls_count_bounds(1) [of c] by (auto simp: anchor_ok_def)
    let ?g = "g_move g k c ?fs rs (g_part g c)"
    have "heap_inv ?w1 ?g"
    proof (rule heap_inv_move [OF assms(1,2) D(5,6), where d = "d\<lparr>danchor := A\<rparr>" and f = f])
      show "pchain ?R (w_desc ?w1) (phead ?w1 c) (g_part g c)"
      proof -
        have "pchain ?R (w_desc w) (phead w c) (g_part g c) = pchain ?R (w_desc ?w1) (phead w c) (g_part g c)"
          by (rule pchain_cong) simp
        then show ?thesis using pf(2) by simp
      qed
      show "\<exists>z. chain (w_mem ?w1) (hd ?fs) ?fs z" using chm ne by simp
      show "set (g_part g c) = {k'. g_owner g k' = Some c \<and> g_free g k' \<noteq> [] \<and> k' \<noteq> k} \<union> (if ?fs = [] then {} else {k})"
        using pf(3) S(1) fr by auto
    qed (use S pf maxf lrs dist cs mem cf dok flr rsc D(8) in \<open>auto simp: d_def\<close>)
    moreover have "frame w g ?w1 ?g" using S(1) keep by (intro frame_move) auto
    moreover have "flush_step c w = Inr ?w1" using False by (simp add: step)
    moreover have "length (g_cache ?g c) < length ?cs" "\<forall>c'. c' \<noteq> c \<longrightarrow> g_cache ?g c' = g_cache g c'" using shorter by simp_all
    ultimately show ?thesis by blast
  qed
qed

section \<open>The flush\<close>

lemma cache_size_0: "heap_inv w g \<Longrightarrow> c < NLIST \<Longrightarrow> Size (w_flist w ! c) = 0 \<longleftrightarrow> g_cache g c = []"
proof -
  assume "heap_inv w g" "c < NLIST"
  then have "unat (fl_size (w_flist w ! c)) = length (g_cache g c)" using cache_facts(1) by (auto simp: flist_rep_def)
  then show ?thesis by (auto simp: Size_def unat_0_iff)
qed

lemma flush_loop_inv:
  assumes "heap_inv w g" "c < NLIST" "length (g_cache g c) \<le> fuel"
  shows "\<exists>w' g'. flush_loop fuel c w = Inr w' \<and> heap_inv w' g' \<and> frame w g w' g' \<and> g_cache g' c = []
    \<and> (\<forall>c'. c' \<noteq> c \<longrightarrow> g_cache g' c' = g_cache g c')"
  using assms
proof (induction fuel arbitrary: w g)
  case 0
  then show ?case using cache_size_0 [OF 0(1,2)] by auto
next
  case (Suc fuel)
  show ?case
  proof (cases "g_cache g c = []")
    case True
    then show ?thesis using cache_size_0 [OF Suc.prems(1,2)] Suc.prems(1) by auto
  next
    case False
    obtain w1 g1 where s: "flush_step c w = Inr w1" "heap_inv w1 g1" "frame w g w1 g1" "length (g_cache g1 c) < length (g_cache g c)"
      "\<forall>c'. c' \<noteq> c \<longrightarrow> g_cache g1 c' = g_cache g c'"
      using flush_step_inv [OF Suc.prems(1,2) False] by blast
    obtain w2 g2 where l: "flush_loop fuel c w1 = Inr w2" "heap_inv w2 g2" "frame w1 g1 w2 g2" "g_cache g2 c = []"
      "\<forall>c'. c' \<noteq> c \<longrightarrow> g_cache g2 c' = g_cache g1 c'"
      using Suc.IH [OF s(2) Suc.prems(2)] s(4) Suc.prems(3) by auto
    have "0 < Size (w_flist w ! c)" using cache_size_0 [OF Suc.prems(1,2)] False by (simp add: word_gt_0)
    then have "flush_loop (Suc fuel) c w = Inr w2" using s(1) l(1) by simp
    then show ?thesis using l s(5) frame_trans [OF s(3)] by metis
  qed
qed

lemma flush_cache_inv:
  assumes "heap_inv w g" "c < NLIST"
  shows "\<exists>w' g'. flush_cache c w = Inr w' \<and> heap_inv w' g' \<and> frame w g w' g' \<and> g_cache g' c = []
    \<and> (\<forall>c'. c' \<noteq> c \<longrightarrow> g_cache g' c' = g_cache g c')"
proof -
  have "unat (Size (w_flist w ! c)) = length (g_cache g c)"
    using cache_facts(1) [OF assms] by (auto simp: flist_rep_def Size_def)
  then show ?thesis using flush_loop_inv [OF assms, of "unat (Size (w_flist w ! c))"] assms(2) by (simp add: flush_cache_def)
qed

lemma flush_upto_inv:
  assumes "heap_inv w g" "n \<le> NLIST"
  shows "\<exists>w' g'. flush_upto n w = Inr w' \<and> heap_inv w' g' \<and> frame w g w' g' \<and> (\<forall>c<n. g_cache g' c = [])"
  using assms(2)
proof (induction n)
  case 0
  then show ?case using assms(1) by auto
next
  case (Suc n)
  then obtain w1 g1 where 1: "flush_upto n w = Inr w1" "heap_inv w1 g1" "frame w g w1 g1" "\<forall>c<n. g_cache g1 c = []" by auto
  obtain w2 g2 where 2: "flush_cache n w1 = Inr w2" "heap_inv w2 g2" "frame w1 g1 w2 g2" "g_cache g2 n = []"
    "\<forall>c'. c' \<noteq> n \<longrightarrow> g_cache g2 c' = g_cache g1 c'"
    using flush_cache_inv [OF 1(2), of n] Suc.prems by auto
  have "\<forall>c<Suc n. g_cache g2 c = []" using 1(4) 2(4,5) by (metis less_Suc_eq)
  then show ?case using 1 2 frame_trans [OF 1(3)] by auto
qed

end
