(* ===== verification/Bx_Alloc.thy ===== *)
theory Bx_Alloc
  imports Bx_Flush
begin

unbundle bit_operations_syntax

text \<open>
  The entry points \<open>do_malloc\<close> and \<open>do_free\<close> over the heap invariant, and the client's view: a
  step relation of allocations, frees, writes into held blocks and flushes, in every reachable
  state of which the held blocks are disjoint ranges of the superblock region.
\<close>

section \<open>Taking a block out of a cache and putting one in\<close>

definition g_take :: "ghost \<Rightarrow> nat \<Rightarrow> ghost" where
  "g_take g c = g\<lparr>g_cache := (g_cache g)(c := tl (g_cache g c)), g_live := insert (hd (g_cache g c)) (g_live g)\<rparr>"

definition g_give :: "ghost \<Rightarrow> nat \<Rightarrow> u64 \<Rightarrow> ghost" where
  "g_give g c x = g\<lparr>g_cache := (g_cache g)(c := x # g_cache g c), g_live := g_live g - {x}\<rparr>"

lemma g_take_simps [simp]:
  "g_owner (g_take g c) = g_owner g" "g_free (g_take g c) = g_free g" "g_part (g_take g c) = g_part g"
  "g_cache (g_take g c) = (g_cache g)(c := tl (g_cache g c))" "g_live (g_take g c) = insert (hd (g_cache g c)) (g_live g)"
  by (simp_all add: g_take_def)

lemma g_give_simps [simp]:
  "g_owner (g_give g c x) = g_owner g" "g_free (g_give g c x) = g_free g" "g_part (g_give g c x) = g_part g"
  "g_cache (g_give g c x) = (g_cache g)(c := x # g_cache g c)" "g_live (g_give g c x) = g_live g - {x}"
  by (simp_all add: g_give_def)

lemma cachedD:
  assumes "inv_cache R m fl g" "c < NLIST" "x \<in> set (g_cache g c)"
  obtains k where "g_owner g k = Some c" "x \<in> sb_blocks R k c" "x \<notin> set (g_free g k)"
proof -
  have "\<forall>x\<in>set (g_cache g c). \<exists>k. g_owner g k = Some c \<and> x \<in> sb_blocks R k c \<and> x \<notin> set (g_free g k)"
    using assms(1,2) by (simp add: inv_cache_def)
  then show thesis using that assms(3) by blast
qed

text \<open>Both change one cache list and the live set only.\<close>

lemma heap_inv_recache:
  assumes "heap_inv w g" "c < NLIST"
    and g': "g_owner g' = g_owner g" "g_free g' = g_free g" "g_part g' = g_part g" "g_cache g' = (g_cache g)(c := xs)"
    and fl: "flist_rep (m, f) xs" "Maxsize f = Maxsize (w_flist w ! c)" "length xs \<le> unat (Maxsize f) + 1"
    and own: "\<forall>x\<in>set xs. \<exists>k. g_owner g k = Some c \<and> x \<in> sb_blocks (w_rgs w) k c \<and> x \<notin> set (g_free g k)"
    and mem: "\<And>x. x \<in> linked g \<Longrightarrow> x \<notin> set (g_cache g c) \<Longrightarrow> pptr_get (w_mem w) x = pptr_get m x"
    and live: "inv_live (w_rgs w) g'"
  shows "heap_inv (set_flist c f (w\<lparr>w_mem := m\<rparr>)) g'"
proof (rule heap_invI)
  note i = heap_invD [OF assms(1)]
  let ?R = "w_rgs w"
  have other: "x \<notin> set (g_cache g c)" if th: "c' < NLIST" "c' \<noteq> c" "x \<in> set (g_cache g c')" for x c'
  proof
    assume x: "x \<in> set (g_cache g c)"
    obtain k where k: "g_owner g k = Some c" "x \<in> sb_blocks ?R k c" by (rule cachedD [OF i(6) assms(2) x])
    obtain k' where k': "g_owner g k' = Some c'" "x \<in> sb_blocks ?R k' c'" by (rule cachedD [OF i(6) th(1,3)])
    have "k = k'" using sb_blocks_same [OF i(1) _ _ k(2) k'(2)] ownerD [OF i(2)] k(1) k'(1) by blast
    then show False using k(1) k'(1) that(2) by simp
  qed
  have free: "x \<notin> set (g_cache g c)" if "g_owner g k = Some c'" "x \<in> set (g_free g k)" for x k c'
  proof
    assume x: "x \<in> set (g_cache g c)"
    obtain k' where k': "g_owner g k' = Some c" "x \<in> sb_blocks ?R k' c" "x \<notin> set (g_free g k')"
      by (rule cachedD [OF i(6) assms(2) x])
    have "x \<in> sb_blocks ?R k c'" using that i(4) by (auto simp: inv_free_def)
    then have "k = k'" using sb_blocks_same [OF i(1) _ _ _ k'(2)] ownerD [OF i(2)] that(1) k'(1) by blast
    then show False using k'(3) that(2) by simp
  qed
  show "inv_free (w_rgs (set_flist c f (w\<lparr>w_mem := m\<rparr>))) (w_mem (set_flist c f (w\<lparr>w_mem := m\<rparr>))) g'"
    unfolding inv_free_def
  proof (intro allI impI)
    fix k c' assume o: "g_owner g' k = Some c'"
    have "chain (w_mem w) a (g_free g k) z = chain m a (g_free g k) z" for a z
      using o free [of k c'] mem g'(1) by (intro chain_cong) (auto simp: linked_def)
    moreover have "distinct (g_free g k) \<and> set (g_free g k) \<subseteq> sb_blocks ?R k c' \<and> (\<exists>z. chain (w_mem w) (hd (g_free g k)) (g_free g k) z)"
      using i(4) o g'(1) by (simp add: inv_free_def)
    ultimately show "distinct (g_free g' k) \<and> set (g_free g' k) \<subseteq> sb_blocks (w_rgs (set_flist c f (w\<lparr>w_mem := m\<rparr>))) k c'
        \<and> (\<exists>z. chain (w_mem (set_flist c f (w\<lparr>w_mem := m\<rparr>))) (hd (g_free g' k)) (g_free g' k) z)"
      by (simp add: g'(2))
  qed
  show "inv_cache (w_rgs (set_flist c f (w\<lparr>w_mem := m\<rparr>))) (w_mem (set_flist c f (w\<lparr>w_mem := m\<rparr>))) (w_flist (set_flist c f (w\<lparr>w_mem := m\<rparr>))) g'"
    unfolding inv_cache_def
  proof (intro conjI allI impI)
    show "length (w_flist (set_flist c f (w\<lparr>w_mem := m\<rparr>))) = NLIST" using i(6) by (simp add: inv_cache_def)
    fix c' assume c': "c' < NLIST"
    show "flist_rep (w_mem (set_flist c f (w\<lparr>w_mem := m\<rparr>)), w_flist (set_flist c f (w\<lparr>w_mem := m\<rparr>)) ! c') (g_cache g' c')"
    proof (cases "c' = c")
      case True
      then show ?thesis using fl(1) c' i(6) by (simp add: g'(4) inv_cache_def)
    next
      case False
      have "flist_rep (w_mem w, w_flist w ! c') (g_cache g c')" using i(6) c' by (simp add: inv_cache_def)
      then have "flist_rep (m, w_flist w ! c') (g_cache g c')"
        by (rule flist_rep_frame) (use mem other c' False in \<open>auto simp: linked_def\<close>)
      then show ?thesis using False by (simp add: g'(4))
    qed
  qed (use i(6) fl own g' assms(2) in \<open>auto simp: inv_cache_def nth_list_update\<close>)
qed (use heap_invD [OF assms(1)] g' live in \<open>simp_all add: inv_defs\<close>)

lemma heap_inv_take:
  assumes "heap_inv w g" "c < NLIST" "g_cache g c = x # xs" "flist_rep (w_mem w, f) xs" "Maxsize f = Maxsize (w_flist w ! c)"
  shows "heap_inv (set_flist c f w) (g_take g c)"
proof -
  note i = heap_invD [OF assms(1)]
  have cf: "flist_rep (w_mem w, w_flist w ! c) (x # xs)" "length (x # xs) \<le> unat (Maxsize (w_flist w ! c)) + 1"
    using cache_facts [OF assms(1,2)] assms(3) by simp_all
  obtain k where k: "g_owner g k = Some c" "x \<in> sb_blocks (w_rgs w) k c" "x \<notin> set (g_free g k)"
    by (rule cachedD [OF i(6) assms(2), of x]) (simp_all add: assms(3))
  have nx: "x \<notin> set xs" using cf(1) by (simp add: flist_rep_def)
  have "inv_live (w_rgs w) (g_take g c)"
    unfolding inv_live_def
  proof
    fix y assume y: "y \<in> g_live (g_take g c)"
    show "\<exists>k c'. g_owner (g_take g c) k = Some c' \<and> y \<in> sb_blocks (w_rgs w) k c' \<and> y \<notin> set (g_free (g_take g c) k)
        \<and> (c' < NLIST \<longrightarrow> y \<notin> set (g_cache (g_take g c) c'))"
    proof (cases "y = x")
      case True
      then show ?thesis using k nx assms(3) by (intro exI [of _ k] exI [of _ c]) simp
    next
      case False
      then have "y \<in> g_live g" using y assms(3) by simp
      then obtain k' c' where *: "g_owner g k' = Some c'" "y \<in> sb_blocks (w_rgs w) k' c'" "y \<notin> set (g_free g k')"
        "c' < NLIST \<longrightarrow> y \<notin> set (g_cache g c')" using i(8) by (auto simp: inv_live_def)
      then show ?thesis using assms(3) by (intro exI [of _ k'] exI [of _ c']) auto
    qed
  qed
  then have "heap_inv (set_flist c f (w\<lparr>w_mem := w_mem w\<rparr>)) (g_take g c)"
    using assms i(6) cf(2) by (intro heap_inv_recache [where xs = xs and g = g]) (auto simp: inv_cache_def)
  then show ?thesis by simp
qed

lemma heap_inv_give:
  assumes "heap_inv w g" "c < NLIST" "x \<in> g_live g" "g_owner g k = Some c" "x \<in> sb_blocks (w_rgs w) k c"
    "length (g_cache g c) \<le> unat (Maxsize (w_flist w ! c))"
    "Push (w_mem w, w_flist w ! c) x = (m, f)"
  shows "heap_inv (set_flist c f (w\<lparr>w_mem := m\<rparr>)) (g_give g c x)"
    "keeps_live (w_rgs w) (g_give g c x) (w_mem w) m"
proof -
  note i = heap_invD [OF assms(1)]
  note cf = cache_facts [OF assms(1,2)]
  have addr: "block_addr x" using sb_blocks_addr [OF i(1) _ assms(5)] ownerD [OF i(2) assms(4)] by simp
  have nl: "y \<noteq> x" if "y \<in> linked g" for y using linked_blocks [OF assms(1) that] assms(3) by metis
  have nc: "x \<notin> set (g_cache g c)" "x \<notin> set (g_free g k)" using nl assms(2) by (auto simp: linked_def)
  have m: "m = pptr_set (w_mem w) x (fl_list (w_flist w ! c))" and f: "Maxsize f = Maxsize (w_flist w ! c)"
    using assms(7) by (auto simp: Push_def Maxsize_def)
  have lt: "length (g_cache g c) + 1 < 2 ^ 32" using assms(6) cf(3) cls_count_bounds(2) [of c] by simp
  have rep: "flist_rep (m, f) (x # g_cache g c)"
    using Push_rep [OF cf(1) addr nc(1) lt] unfolding assms(7) .
  have live: "inv_live (w_rgs w) (g_give g c x)"
    using i(8) by (fastforce simp: inv_live_def)
  show "heap_inv (set_flist c f (w\<lparr>w_mem := m\<rparr>)) (g_give g c x)"
  proof (rule heap_inv_recache [where xs = "x # g_cache g c" and g = g])
    show "pptr_get (w_mem w) y = pptr_get m y" if "y \<in> linked g" for y
      using pptr_get_set_block [OF _ addr nl [OF that]] linked_blocks [OF assms(1) that] m by metis
    show "\<forall>y\<in>set (x # g_cache g c). \<exists>k. g_owner g k = Some c \<and> y \<in> sb_blocks (w_rgs w) k c \<and> y \<notin> set (g_free g k)"
      using i(6) assms(2,4,5) nc(2) by (auto simp: inv_cache_def)
  qed (use assms(1,2,6) rep f live in auto)
  show "keeps_live (w_rgs w) (g_give g c x) (w_mem w) m"
    unfolding m using i assms(4,5) ownerD [OF i(2) assms(4)]
    by (intro keeps_live_set [where k = k and c = c]) (auto simp: inv_owner_def)
qed

section \<open>Allocation\<close>

text \<open>
  The outcome of an allocation: a block that nobody held, of a class that is large enough, is
  held in addition, and the bytes of the other held blocks are as before.
\<close>

definition allocated :: "world \<Rightarrow> ghost \<Rightarrow> u64 \<Rightarrow> u64 \<Rightarrow> world \<Rightarrow> ghost \<Rightarrow> bool" where
  "allocated w g sz p w' g' \<longleftrightarrow> heap_inv w' g' \<and> p \<notin> g_live g \<and> g_live g' = insert p (g_live g)
     \<and> (\<exists>k c. g_owner g' k = Some c \<and> p \<in> sb_blocks (w_rgs w') k c \<and> unat sz \<le> cls_size c \<and> (sz \<le> MAX_SZ \<longrightarrow> c < NLIST))
     \<and> frame w g w' (g'\<lparr>g_live := g_live g\<rparr>)"

lemma frame_relive: "frame w g w' g' \<Longrightarrow> g_owner g'' = g_owner g' \<Longrightarrow> w_rgs w'' = w_rgs w' \<Longrightarrow> w_mem w'' = w_mem w' \<Longrightarrow>
  frame w g w'' (g''\<lparr>g_live := g_live g\<rparr>)"
  by (simp add: frame_def)

lemma small_request:
  assumes "0 < sz" "sz \<le> MAX_SZ"
  obtains c where "c < NLIST" "RoundUp sz = Inr (size_of_class c)" "unat sz \<le> cls_size c"
    "sizetoindex myclasssize (size_of_class c) = Some (of_nat c)" "unat (of_nat c :: u64) = c"
proof -
  define c where "c = class_of (unat sz)"
  have c: "c < NLIST" using class_of_sz [OF assms] by (simp add: c_def)
  moreover have "unat sz \<le> cls_size c"
    using class_of_fits [of "unat sz"] assms c by (simp add: c_def cls_size_def MAX_SZ_eq word_le_nat_alt word_gt_0 unat_gt_0)
  moreover have "unat (of_nat c :: u64) = c"
    using c by (simp add: NLIST_def unsigned_of_nat take_bit_nat_eq_self)
  ultimately show thesis using that RoundUp_eq [OF assms] sizetoindex_class [OF c] by (simp add: c_def)
qed

lemma pop_cached:
  assumes "heap_inv w g" "c < NLIST" "g_cache g c \<noteq> []"
  obtains f x where "Pop (w_mem w, w_flist w ! c) = Inr (x, w_mem w, f)" "heap_inv (set_flist c f w) (g_take g c)"
    "g_live (g_take g c) = insert x (g_live g)" "x \<notin> g_live g" "\<exists>k. g_owner g k = Some c \<and> x \<in> sb_blocks (w_rgs w) k c"
proof -
  obtain x xs where cs: "g_cache g c = x # xs" using assms(3) by (cases "g_cache g c") auto
  have "flist_rep (w_mem w, w_flist w ! c) (x # xs)" using cache_facts(1) [OF assms(1,2)] cs by simp
  then obtain f where f: "Pop (w_mem w, w_flist w ! c) = Inr (x, w_mem w, f)" "flist_rep (w_mem w, f) xs" "fl_maxsize f = fl_maxsize (w_flist w ! c)"
    by (rule Pop_rep) simp
  have "heap_inv (set_flist c f w) (g_take g c)"
    using heap_inv_take [OF assms(1,2) cs f(2)] f(3) by (simp add: Maxsize_def)
  moreover have "x \<in> linked g" using cs assms(2) by (force simp: linked_def)
  then have "x \<notin> g_live g" using linked_blocks [OF assms(1)] by metis
  moreover have "\<exists>k. g_owner g k = Some c \<and> x \<in> sb_blocks (w_rgs w) k c"
    by (rule cachedD [OF heap_invD(6) [OF assms(1)] assms(2), of x]) (use cs in auto)
  ultimately show thesis using f(1) cs by (intro that) auto
qed

lemma do_malloc_small:
  assumes "heap_inv w g" "0 < sz" "sz \<le> MAX_SZ"
  shows "do_malloc w sz = Inl out_of_space \<and> exhausted w \<or> (\<exists>p w' g'. do_malloc w sz = Inr (p, w') \<and> allocated w g sz p w' g')"
proof -
  obtain c where c: "c < NLIST" "RoundUp sz = Inr (size_of_class c)" "unat sz \<le> cls_size c"
    "sizetoindex myclasssize (size_of_class c) = Some (of_nat c)" "unat (of_nat c :: u64) = c"
    using assms(2,3) by (rule small_request)
  let ?fill = "if Size (w_flist w ! c) = 0 then fill_cache c w else Inr w"
  have go: "do_malloc w sz = bindE ?fill (\<lambda>w. bindE (Pop (w_mem w, w_flist w ! c)) (\<lambda>(obj, m, f). Inr (obj, set_flist c f (w\<lparr>w_mem := m\<rparr>))))"
    using c leD [OF assms(3)] by (simp add: do_malloc_def Let_def)
  have "?fill = Inl out_of_space \<and> exhausted w \<or>
      (\<exists>w1 g1. ?fill = Inr w1 \<and> heap_inv w1 g1 \<and> g_cache g1 c \<noteq> [] \<and> frame w g w1 g1)"
    using fill_cache_inv [OF assms(1) c(1)] cache_size_0 [OF assms(1) c(1)] assms(1) frame_refl by (cases "g_cache g c = []") auto
  then show ?thesis
  proof (elim disjE exE conjE)
    fix w1 g1 assume 1: "?fill = Inr w1" "heap_inv w1 g1" "g_cache g1 c \<noteq> []" "frame w g w1 g1"
    obtain f x where p: "Pop (w_mem w1, w_flist w1 ! c) = Inr (x, w_mem w1, f)" "heap_inv (set_flist c f w1) (g_take g1 c)"
      "g_live (g_take g1 c) = insert x (g_live g1)" "x \<notin> g_live g1" "\<exists>k. g_owner g1 k = Some c \<and> x \<in> sb_blocks (w_rgs w1) k c"
      by (rule pop_cached [OF 1(2) c(1) 1(3)])
    have "do_malloc w sz = Inr (x, set_flist c f w1)" using 1(1) p(1) by (simp add: go)
    moreover have "g_live g1 = g_live g" using 1(4) by (simp add: frame_def)
    then have "allocated w g sz x (set_flist c f w1) (g_take g1 c)"
      using p c(1,3) frame_relive [OF 1(4), of "g_take g1 c" "set_flist c f w1"] by (auto simp: allocated_def)
    ultimately show ?thesis by blast
  qed (simp add: go)
qed

text \<open>Requests above \<open>MAX_SZ\<close> take a whole superblock.\<close>

lemma round_up_SBSIZE:
  assumes "0 < sz" "sz \<le> SBSIZE"
  shows "round_up sz SBSIZE = Inr SBSIZE"
proof -
  have m: "SBSIZE - 1 = mask 16" "SBSIZE AND mask 16 = 0" "SBSIZE \<noteq> 0" by (simp_all add: SBSIZE_eq mask_eq_exp_minus_1)
  have sz: "0 < unat sz" "unat sz \<le> 65536" using assms by (simp_all add: SBSIZE_eq word_le_nat_alt unat_gt_0)
  have e: "sz + SBSIZE - 1 = sz + 65535" by (simp add: SBSIZE_eq)
  have "unat (sz + 65535) = unat sz + 65535" using sz by (subst unat_add_lt) simp_all
  moreover have "(unat sz + 65535) div 65536 = 1" using sz by (simp add: div_nat_eqI)
  ultimately have "unat ((sz + SBSIZE - 1) AND NOT (mask 16)) = unat SBSIZE"
    unfolding e unat_and_not_mask by (simp add: SBSIZE_eq)
  then have "(sz + SBSIZE - 1) AND NOT (mask 16) = SBSIZE" by (simp only: word_unat_eq_iff)
  then show ?thesis using m by (simp add: round_up_def)
qed

lemma sb_blocks_large [simp]: "sb_blocks R k NLIST = {sb_addr R k}"
  by (auto simp: sb_blocks_def blk_def)

definition g_large :: "ghost \<Rightarrow> nat \<Rightarrow> u64 \<Rightarrow> ghost" where
  "g_large g k x = g\<lparr>g_owner := (g_owner g)(k := Some NLIST), g_live := insert x (g_live g)\<rparr>"

lemma g_large_simps [simp]:
  "g_owner (g_large g k x) = (g_owner g)(k := Some NLIST)" "g_free (g_large g k x) = g_free g" "g_part (g_large g k x) = g_part g"
  "g_cache (g_large g k x) = g_cache g" "g_live (g_large g k x) = insert x (g_live g)"
  by (simp_all add: g_large_def)

lemma heap_inv_large:
  assumes "heap_inv w g" "0 < k" "k < nsb (w_rgs w)" "g_owner g k = None" "of_nat k \<notin> set (queue_abs QUEUE_CAP (w_queue w))"
    "desc_ok (w_rgs w) (f (w_desc w (desc_addr (w_rgs w) k))) k NLIST []"
  shows "heap_inv (upd_desc (desc_addr (w_rgs w) k) f w) (g_large g k (sb_addr (w_rgs w) k))"
proof (rule heap_invI)
  let ?w = "upd_desc (desc_addr (w_rgs w) k) f w" and ?g = "g_large g k (sb_addr (w_rgs w) k)"
  have small: "k < 2 ^ 24" using assms(3) geom_nsb(1) [OF heap_invD(1) [OF assms(1)]] by linarith
  note i = heap_invD [OF heap_inv_upd_unowned [OF assms(1,4) small, of f]]
  have fr: "g_free g k = []" using heap_invD(2) [OF assms(1)] assms(4) by (simp add: inv_owner_def)
  show "geom (w_rgs ?w)" using i(1) .
  show "inv_owner (w_rgs ?w) ?g" using i(2) assms(2,3) by (auto simp: inv_owner_def)
  show "inv_desc (w_rgs ?w) (w_desc ?w) ?g" using i(3) assms(6) fr by (auto simp: inv_desc_def)
  show "inv_free (w_rgs ?w) (w_mem ?w) ?g" using i(4) fr by (auto simp: inv_free_def)
  show "inv_queue (w_rgs ?w) (w_queue ?w) ?g" using i(5) assms(5) by (auto simp: inv_queue_def)
  have "g_owner ?g k' = Some c \<longleftrightarrow> g_owner g k' = Some c" if "c < NLIST" for k' c using that assms(4) by auto
  then show "inv_cache (w_rgs ?w) (w_mem ?w) (w_flist ?w) ?g" "inv_part ?w ?g"
    using i(6,7) by (simp_all add: inv_cache_def inv_part_def)
  show "inv_live (w_rgs ?w) ?g"
    unfolding inv_live_def
  proof
    fix x assume x: "x \<in> g_live ?g"
    show "\<exists>k' c. g_owner ?g k' = Some c \<and> x \<in> sb_blocks (w_rgs ?w) k' c \<and> x \<notin> set (g_free ?g k') \<and> (c < NLIST \<longrightarrow> x \<notin> set (g_cache ?g c))"
    proof (cases "x = sb_addr (w_rgs w) k")
      case True
      then show ?thesis using fr by (intro exI [of _ k] exI [of _ NLIST]) simp
    next
      case False
      then obtain k' c where "g_owner g k' = Some c" "x \<in> sb_blocks (w_rgs ?w) k' c" "x \<notin> set (g_free g k')" "c < NLIST \<longrightarrow> x \<notin> set (g_cache g c)"
        using x i(8) by (auto simp: inv_live_def)
      then show ?thesis using assms(4) by (intro exI [of _ k'] exI [of _ c]) auto
    qed
  qed
qed

lemma do_malloc_large:
  assumes "heap_inv w g" "MAX_SZ < sz" "sz \<le> SBSIZE"
  shows "do_malloc w sz = Inl out_of_space \<and> exhausted w \<or> (\<exists>p w' g'. do_malloc w sz = Inr (p, w') \<and> allocated w g sz p w' g')"
proof -
  define F where "F R p = (\<lambda>d :: descriptor. d\<lparr>dheap := crossptr_assign R META_IDX (heap_addr R NLIST), block_size := ucast SBSIZE, maxcount := 1,
     dsuperblock := crossptr_assign R SB_IDX p, danchor := \<lparr>avail = 0, acount = 0, astate = SB_FULL\<rparr>\<rparr>)" for R p
  have pos: "0 < sz" using assms(2) by (auto simp: MAX_SZ_eq word_less_nat_alt)
  have go: "do_malloc w sz = bindE (small_sb_alloc w SBSIZE) (\<lambda>(ptr, w). bindE (assertE ''ptr'' (ptr \<noteq> 0)) (\<lambda>_.
      Inr (ptr, upd_desc (desc_lookup (w_rgs w) ptr) (F (w_rgs w) ptr) w)))"
    using assms(2,3) by (simp add: do_malloc_def round_up_SBSIZE [OF pos] Let_def F_def)
  from small_sb_alloc_inv [OF assms(1)] show ?thesis
  proof (elim disjE exE conjE)
    fix k w1
    assume 1: "small_sb_alloc w SBSIZE = Inr (sb_addr (w_rgs w) k, w1)" "heap_inv w1 g" "same_blocks w w1" "0 < k" "k < nsb (w_rgs w1)"
      "g_owner g k = None" "of_nat k \<notin> set (queue_abs QUEUE_CAP (w_queue w1))"
    let ?R = "w_rgs w1" and ?x = "sb_addr (w_rgs w1) k"
    have geom: "geom ?R" using 1(2) by (rule heap_invD)
    have x: "sb_addr (w_rgs w) k = ?x" using same_addresses(2) [of ?R "w_rgs w"] 1(3) by (simp add: same_blocks_def)
    have nz: "?x \<noteq> 0" using unat_sb_addr [OF geom, of k] 1(5) geom by (auto simp: geom_def)
    let ?w = "upd_desc (desc_addr ?R k) (F ?R ?x) w1"
    have "do_malloc w sz = Inr (?x, ?w)" using 1(1,5) nz by (simp add: go x desc_lookup_sb [OF geom])
    moreover have "desc_ok ?R (F ?R ?x d) k NLIST []" for d
      by (simp add: desc_ok_def F_def anchor_ok_def SBSIZE_eq unsigned_ucast_eq)
    then have "heap_inv ?w (g_large g k ?x)" by (intro heap_inv_large [OF 1(2,4,5,6,7)])
    moreover have "?x \<notin> g_live g" using unowned_not_live [OF 1(2,6,5), of NLIST] by auto
    moreover have "frame w g ?w ((g_large g k ?x)\<lparr>g_live := g_live g\<rparr>)"
      using same_blocks_frame [OF 1(3), of g] 1(6) by (simp add: frame_def)
    moreover have "\<exists>k' c. g_owner (g_large g k ?x) k' = Some c \<and> ?x \<in> sb_blocks (w_rgs ?w) k' c \<and> unat sz \<le> cls_size c \<and> (sz \<le> MAX_SZ \<longrightarrow> c < NLIST)"
      using assms(2,3) by (intro exI [of _ k] exI [of _ NLIST]) (simp add: SBSIZE_eq word_le_nat_alt word_less_nat_alt)
    ultimately show ?thesis by (intro disjI2 exI [of _ ?x] exI [of _ ?w] exI [of _ "g_large g k ?x"]) (simp add: allocated_def)
  qed (simp add: go)
qed

lemma do_malloc_spec:
  assumes "heap_inv w g" "0 < sz" "sz \<le> SBSIZE"
  shows "do_malloc w sz = Inl out_of_space \<and> exhausted w \<or> (\<exists>p w' g'. do_malloc w sz = Inr (p, w') \<and> allocated w g sz p w' g')"
  using do_malloc_small [OF assms(1,2)] do_malloc_large [OF assms(1) _ assms(3)] by (cases "sz \<le> MAX_SZ") auto

section \<open>Freeing\<close>

text \<open>
  The outcome of a free: the block is no longer held, and the bytes of the others are as before.
\<close>

definition freed :: "world \<Rightarrow> ghost \<Rightarrow> u64 \<Rightarrow> world \<Rightarrow> ghost \<Rightarrow> bool" where
  "freed w g p w' g' \<longleftrightarrow> heap_inv w' g' \<and> g_live g' = g_live g - {p} \<and> frame w (g\<lparr>g_live := g_live g - {p}\<rparr>) w' g'"

lemma liveD:
  assumes "heap_inv w g" "x \<in> g_live g"
  obtains k c where "g_owner g k = Some c" "x \<in> sb_blocks (w_rgs w) k c" "0 < k" "k < nsb (w_rgs w)" "c \<le> NLIST"
    "desc_lookup (w_rgs w) x = desc_addr (w_rgs w) k" "x \<noteq> 0" "Regions_in_range (w_rgs w) SB_IDX x = Inr True"
proof -
  note i = heap_invD [OF assms(1)]
  obtain k c where k: "g_owner g k = Some c" "x \<in> sb_blocks (w_rgs w) k c" using i(8) assms(2) by (auto simp: inv_live_def)
  note o = ownerD [OF i(2) k(1)]
  obtain j where j: "j < cls_count c" "x = blk (w_rgs w) k c j" using k(2) by (auto simp: sb_blocks_def)
  let ?R = "w_rgs w"
  have u: "unat x = unat (Regions_lookup ?R SB_IDX) + k * 65536 + j * cls_size c" using unat_blk [OF i(1) _ j(1)] o j(2) by simp
  have c: "unat (curr_addr (sb_region ?R)) = unat (Regions_lookup ?R SB_IDX) + nsb ?R * 65536" "rgs ?R ! idx_no SB_IDX = Some (sb_region ?R)"
    using i(1) by (auto simp: geom_def sb_region_def)
  have "j * cls_size c < 65536" using cls_extent [OF j(1)] cls_size_bounds(1) [of c] by linarith
  moreover have "k * 65536 + 65536 \<le> nsb ?R * 65536" using o by simp
  ultimately have "unat x < unat (curr_addr (sb_region ?R))" using u c(1) by linarith
  then have "Regions_in_range ?R SB_IDX x = Inr True"
    using c(2) u by (simp add: Regions_in_range_def Regions_lookup_def word_le_nat_alt word_less_nat_alt)
  moreover have "x \<noteq> 0" using sb_blocks_addr [OF i(1) _ k(2)] o by (simp add: block_addr_def)
  ultimately show thesis using that [OF k] o desc_lookup_block [OF i(1) _ k(2)] by simp
qed

lemma do_free_class:
  assumes "heap_inv w g" "x \<in> g_live g" "g_owner g k = Some c" "x \<in> sb_blocks (w_rgs w) k c"
  shows "do_free w x = (if c = NLIST then large_sb_retire w (sb_addr (w_rgs w) k) SBSIZE
    else bindE (if Size (w_flist w ! c) > Maxsize (w_flist w ! c) then flush_cache c w else Inr w)
      (\<lambda>w. case Push (w_mem w, w_flist w ! c) x of (m, f) \<Rightarrow> Inr (set_flist c f (w\<lparr>w_mem := m\<rparr>))))"
proof -
  note i = heap_invD [OF assms(1)]
  obtain k' c' where l: "g_owner g k' = Some c'" "x \<in> sb_blocks (w_rgs w) k' c'" "k' < nsb (w_rgs w)" "c' \<le> NLIST"
    "desc_lookup (w_rgs w) x = desc_addr (w_rgs w) k'" "x \<noteq> 0" "Regions_in_range (w_rgs w) SB_IDX x = Inr True"
    using liveD [OF assms(1,2)] by metis
  have k: "k' = k" using sb_blocks_same [OF i(1) l(3) _ l(2) assms(4)] ownerD [OF i(2) assms(3)] by simp
  then have c: "c' = c" using l(1) assms(3) by simp
  have D: "desc_ok (w_rgs w) (w_desc w (desc_addr (w_rgs w) k)) k c (g_free g k)"
    "crossptr_get (w_rgs w) SB_IDX (dsuperblock (w_desc w (desc_addr (w_rgs w) k))) = sb_addr (w_rgs w) k"
    using descD [OF assms(1,3)] by simp_all
  have h: "heap_at (w_rgs w) (crossptr_deref (w_rgs w) META_IDX (dheap (w_desc w (desc_addr (w_rgs w) k)))) = Inr c"
    using heap_at_addr(2) [OF i(1), of c] D(1) l(4) c by (simp add: desc_ok_def)
  have sc: "unat (sc_idx (w_heaps w ! c)) = c"
    using i(7) l(4) c by (simp add: inv_part_def unsigned_of_nat take_bit_nat_eq_self NLIST_def)
  have sz: "(ucast (block_size (w_desc w (desc_addr (w_rgs w) k))) :: u64) = SBSIZE" if "c = NLIST"
  proof -
    have "unat (block_size (w_desc w (desc_addr (w_rgs w) k))) = 65536" using D(1) that by (simp add: desc_ok_def)
    then have "unat (ucast (block_size (w_desc w (desc_addr (w_rgs w) k))) :: u64) = 65536" by (simp add: unat_ucast_lt)
    then show ?thesis by (simp add: word_unat_eq_iff SBSIZE_eq)
  qed
  show ?thesis
    using l k c h sc D(2) sz by (simp add: do_free_def Let_def)
qed

lemma do_free_small:
  assumes "heap_inv w g" "x \<in> g_live g" "g_owner g k = Some c" "x \<in> sb_blocks (w_rgs w) k c" "c < NLIST"
  shows "\<exists>w' g'. do_free w x = Inr w' \<and> freed w g x w' g'"
proof -
  let ?fl = "if Size (w_flist w ! c) > Maxsize (w_flist w ! c) then flush_cache c w else Inr w"
  have sz: "unat (Size (w_flist w ! c)) = length (g_cache g c)"
    using cache_facts(1) [OF assms(1,5)] by (auto simp: flist_rep_def Size_def)
  have "\<exists>w1 g1. ?fl = Inr w1 \<and> heap_inv w1 g1 \<and> frame w g w1 g1 \<and> length (g_cache g1 c) \<le> unat (Maxsize (w_flist w1 ! c))"
  proof (cases "Size (w_flist w ! c) > Maxsize (w_flist w ! c)")
    case True
    obtain w1 g1 where "flush_cache c w = Inr w1" "heap_inv w1 g1" "frame w g w1 g1" "g_cache g1 c = []"
      using flush_cache_inv [OF assms(1,5)] by blast
    then show ?thesis using True by (intro exI [of _ w1] exI [of _ g1]) simp
  next
    case False
    then have "length (g_cache g c) \<le> unat (Maxsize (w_flist w ! c))" using sz by (simp add: word_less_nat_alt)
    then show ?thesis using False assms(1) frame_refl by auto
  qed
  then obtain w1 g1 where 1: "?fl = Inr w1" "heap_inv w1 g1" "frame w g w1 g1" "length (g_cache g1 c) \<le> unat (Maxsize (w_flist w1 ! c))"
    by blast
  obtain m f where P: "Push (w_mem w1, w_flist w1 ! c) x = (m, f)" by fastforce
  have live: "x \<in> g_live g1" "g_live g1 = g_live g" using 1(3) assms(2) by (simp_all add: frame_def)
  have adr: "regions_address (w_rgs w1) = regions_address (w_rgs w)" using 1(3) by (simp add: frame_def)
  have own: "g_owner g1 k = Some c" "x \<in> sb_blocks (w_rgs w1) k c"
    using 1(3) assms(2-4) same_addresses(5) [OF adr] by (auto simp: frame_def)
  note g = heap_inv_give [OF 1(2) assms(5) live(1) own 1(4) P]
  let ?w = "set_flist c f (w1\<lparr>w_mem := m\<rparr>)" and ?g = "g_give g1 c x"
  have "frame w (g\<lparr>g_live := g_live g - {x}\<rparr>) w1 (g1\<lparr>g_live := g_live g - {x}\<rparr>)"
    using 1(3) by (fastforce simp: frame_def keeps_live_def live_bytes_def)
  moreover have "frame w1 (g1\<lparr>g_live := g_live g - {x}\<rparr>) ?w ?g"
    using g(2) live(2) by (simp add: frame_def keeps_live_def live_bytes_def)
  ultimately have "freed w g x ?w ?g" using g(1) live(2) by (simp add: freed_def frame_trans [of w _ w1])
  moreover have "do_free w x = Inr ?w" using do_free_class [OF assms(1-4)] assms(5) 1(1) P by simp
  ultimately show ?thesis by blast
qed

text \<open>
  A large block goes back to the queue of free superblocks, which must have room for it.
\<close>

definition g_unlarge :: "ghost \<Rightarrow> nat \<Rightarrow> u64 \<Rightarrow> ghost" where
  "g_unlarge g k x = g\<lparr>g_owner := (g_owner g)(k := None), g_live := g_live g - {x}\<rparr>"

lemma g_unlarge_simps [simp]:
  "g_owner (g_unlarge g k x) = (g_owner g)(k := None)" "g_free (g_unlarge g k x) = g_free g" "g_part (g_unlarge g k x) = g_part g"
  "g_cache (g_unlarge g k x) = g_cache g" "g_live (g_unlarge g k x) = g_live g - {x}"
  by (simp_all add: g_unlarge_def)

lemma heap_inv_unlarge:
  assumes "heap_inv w g" "g_owner g k = Some NLIST"
  shows "heap_inv w (g_unlarge g k (sb_addr (w_rgs w) k))"
proof (rule heap_invI)
  note i = heap_invD [OF assms(1)]
  let ?R = "w_rgs w" and ?g = "g_unlarge g k (sb_addr (w_rgs w) k)"
  have fr: "g_free g k = []" using i(3) assms(2) by (simp add: inv_desc_def)
  have same: "g_owner ?g k' = Some c \<longleftrightarrow> g_owner g k' = Some c" if "c < NLIST" for k' c using that assms(2) by auto
  show "geom ?R" using i(1) .
  show "inv_owner ?R ?g" using i(2) fr by (auto simp: inv_owner_def)
  show "inv_desc ?R (w_desc w) ?g" using i(3) by (auto simp: inv_desc_def)
  show "inv_free ?R (w_mem w) ?g" using i(4) by (auto simp: inv_free_def)
  show "inv_queue ?R (w_queue w) ?g" using i(5) by (auto simp: inv_queue_def)
  show "inv_cache ?R (w_mem w) (w_flist w) ?g" "inv_part w ?g" using i(6,7) same by (simp_all add: inv_cache_def inv_part_def)
  show "inv_live ?R ?g"
    unfolding inv_live_def
  proof
    fix x assume x: "x \<in> g_live ?g"
    then obtain k' c where k': "g_owner g k' = Some c" "x \<in> sb_blocks ?R k' c" "x \<notin> set (g_free g k')" "c < NLIST \<longrightarrow> x \<notin> set (g_cache g c)"
      using i(8) by (auto simp: inv_live_def)
    moreover have "k' \<noteq> k" using k' x assms(2) by auto
    ultimately show "\<exists>k' c. g_owner ?g k' = Some c \<and> x \<in> sb_blocks ?R k' c \<and> x \<notin> set (g_free ?g k') \<and> (c < NLIST \<longrightarrow> x \<notin> set (g_cache ?g c))"
      by (intro exI [of _ k'] exI [of _ c]) simp
  qed
qed

lemma do_free_large:
  assumes "heap_inv w g" "x \<in> g_live g" "g_owner g k = Some NLIST" "x \<in> sb_blocks (w_rgs w) k NLIST"
  shows "if length (queue_abs QUEUE_CAP (w_queue w)) < QUEUE_CAP - 1 then \<exists>w' g'. do_free w x = Inr w' \<and> freed w g x w' g'
    else do_free w x = Inl (AssertFailed ''queue is full!'')"
proof -
  note i = heap_invD [OF assms(1)]
  let ?g = "g_unlarge g k x"
  have x: "x = sb_addr (w_rgs w) k" using assms(4) by simp
  note o = ownerD [OF i(2) assms(3)]
  have small: "k < 2 ^ 24" using owner_small [OF i(1,2) assms(3)] .
  have inv: "heap_inv w ?g" using heap_inv_unlarge [OF assms(1,3)] x by simp
  have nq: "of_nat k \<notin> set (queue_abs QUEUE_CAP (w_queue w))"
    using i(5) assms(3) unat_of_nat_small [OF small] by (auto simp: inv_queue_def)
  have go: "do_free w x = organize_sb_list w (sb_addr (w_rgs w) k) (of_nat 1)"
    using do_free_class [OF assms] by (simp add: large_sb_retire_def SBSIZE_eq)
  show ?thesis
  proof (cases "length (queue_abs QUEUE_CAP (w_queue w)) < QUEUE_CAP - 1")
    case True
    obtain w' where w': "organize_sb_list w (sb_addr (w_rgs w) k) (of_nat 1) = Inr w'" "heap_inv w' ?g" "same_blocks w w'"
      using organize_sb_list_inv [OF inv, of k 1] o nq True by auto
    have "frame w (g\<lparr>g_live := g_live g - {x}\<rparr>) w' ?g"
      using same_blocks_frame [OF w'(3), of "g\<lparr>g_live := g_live g - {x}\<rparr>"] x assms(3) by (auto simp: frame_def)
    then show ?thesis using w' True by (auto simp: go freed_def)
  next
    case False
    have "aq_count QUEUE_CAP (w_queue w) < QUEUE_CAP" by (simp add: aq_count_def QUEUE_CAP_def)
    then have "aq_count QUEUE_CAP (w_queue w) = QUEUE_CAP - 1" using False by simp
    then have "LockFreeQueue_push (w_queue w) v = Inl (AssertFailed ''queue is full!'')" for v
      using i(5) aq_push_full [of QUEUE_CAP "w_queue w" 0] by (simp add: LockFreeQueue_push_def inv_queue_def ring_inv_def)
    then show ?thesis using False by (simp add: go organize_sb_list_def Let_def)
  qed
qed

lemma do_free_spec:
  assumes "heap_inv w g" "x \<in> g_live g"
  shows "(\<exists>w' g'. do_free w x = Inr w' \<and> freed w g x w' g') \<or>
    do_free w x = Inl (AssertFailed ''queue is full!'') \<and> length (queue_abs QUEUE_CAP (w_queue w)) \<ge> QUEUE_CAP - 1
    \<and> (\<exists>k. g_owner g k = Some NLIST \<and> x \<in> sb_blocks (w_rgs w) k NLIST)"
proof -
  obtain k c where k: "g_owner g k = Some c" "x \<in> sb_blocks (w_rgs w) k c" "c \<le> NLIST" using liveD [OF assms] by metis
  show ?thesis
  proof (cases "c = NLIST")
    case True
    then show ?thesis using do_free_large [OF assms, of k] k by (cases "length (queue_abs QUEUE_CAP (w_queue w)) < QUEUE_CAP - 1") auto
  next
    case False
    then show ?thesis using do_free_small [OF assms k(1,2)] k(3) by auto
  qed
qed

end
