(* ===== verification/Bx_Client.thy ===== *)
theory Bx_Client
  imports Bx_Alloc
begin

unbundle bit_operations_syntax

text \<open>
  A heap from its construction on, as its client sees it: \<open>BaseMeta_new\<close> establishes the heap
  invariant, and a step relation of allocations, frees, stores into held blocks, cache flushes
  and root updates keeps the held blocks disjoint and their contents intact.
\<close>

section \<open>Construction\<close>

text \<open>
  What \<open>_BXP_init\<close> has set up when it constructs \<open>BaseMeta\<close>: a superblock region that holds its
  header page only, a descriptor region on a cache line, an empty queue and empty thread caches.
\<close>

definition fresh_world :: "world \<Rightarrow> bool" where
  "fresh_world w \<longleftrightarrow> (let R = w_rgs w; r = sb_region R in
     length (rgs R) = LAST_IDX \<and> length (regions_address R) = LAST_IDX \<and> rgs R ! idx_no SB_IDX \<noteq> None
     \<and> region_ok r \<and> unat (FILESIZE r) \<le> 2 ^ 40
     \<and> unat (Regions_lookup R DESC_IDX) mod 64 = 0 \<and> 0 < unat (Regions_lookup R DESC_IDX)
     \<and> unat (Regions_lookup R DESC_IDX) + 2 ^ 31 < 2 ^ 48 \<and> unat (Regions_lookup R META_IDX) + 2 ^ 20 < 2 ^ 48
     \<and> w_queue w = ArrayQueue_new QUEUE_CAP \<and> w_flist w = ThreadCache_init myclasssize)"

definition g_empty :: ghost where
  "g_empty = \<lparr>g_owner = \<lambda>_. None, g_free = \<lambda>_. [], g_cache = \<lambda>_. [], g_part = \<lambda>_. [], g_live = {}\<rparr>"

definition fresh_heaps :: "regions \<Rightarrow> procheap list" where
  "fresh_heaps R = map (\<lambda>idx. \<lparr>partial_list = acpc_store R DESC_IDX (ptr_cnt_set 0 0), sc_idx = of_nat idx\<rparr>) [0..<NLIST + 1]"

lemma inv_cache_new:
  assumes "\<forall>c<NLIST. g_cache g c = []"
  shows "inv_cache R m (ThreadCache_init myclasssize) g"
proof -
  have "length (ThreadCache_init myclasssize) = NLIST" by (simp add: ThreadCache_init_def)
  moreover have "1 \<le> unat (Maxsize (ThreadCache_init myclasssize ! c))" "unat (Maxsize (ThreadCache_init myclasssize ! c)) \<le> cls_count c"
    if "c < NLIST" for c
    using cache_maxsize_class [OF that] thread_cache_list(2) [OF that, of myclasssize] that by (simp_all add: cls_count_def cls_size_def)
  ultimately show ?thesis using thread_cache_list(1) assms by (simp add: inv_cache_def)
qed

lemma heap_inv_nothing:
  assumes "geom (w_rgs w)" "inv_queue (w_rgs w) (w_queue w) g_empty" "w_flist w = ThreadCache_init myclasssize"
    "length (w_heaps w) = NLIST + 1" "\<forall>c\<le>NLIST. sc_idx (w_heaps w ! c) = of_nat c" "\<forall>c<NLIST. phead w c = 0"
  shows "heap_inv w g_empty"
proof (rule heap_invI)
  show "geom (w_rgs w)" "inv_queue (w_rgs w) (w_queue w) g_empty" by fact+
  show "inv_cache (w_rgs w) (w_mem w) (w_flist w) g_empty" unfolding assms(3) by (rule inv_cache_new) (simp add: g_empty_def)
  show "inv_part w g_empty" using assms(4-6) by (simp add: inv_part_def g_empty_def)
qed (simp_all add: g_empty_def inv_owner_def inv_desc_def inv_free_def inv_live_def)

lemma heap_inv_empty:
  assumes "geom (w_rgs w)" "w_queue w = ArrayQueue_new QUEUE_CAP" "w_flist w = ThreadCache_init myclasssize" "w_heaps w = fresh_heaps R"
  shows "heap_inv w g_empty"
proof (rule heap_inv_nothing [OF assms(1) _ assms(3)])
  show "inv_queue (w_rgs w) (w_queue w) g_empty"
    by (simp add: assms(2) inv_queue_def ring_inv_def aq_inv_new queue_abs_new QUEUE_CAP_def)
  show "\<forall>c<NLIST. phead w c = 0"
    by (simp add: phead_def assms(4) fresh_heaps_def nth_append acpc_load_def acpc_store_def acpc_pack_def acpc_unpack_def ptr_cnt_set_def)
  show "\<forall>c\<le>NLIST. sc_idx (w_heaps w ! c) = of_nat c"
    by (auto simp: assms(4) fresh_heaps_def nth_append le_less)
qed (simp add: assms(4) fresh_heaps_def)

text \<open>The first superblock boundary above the header page.\<close>

definition sb_start :: "region \<Rightarrow> u64" where
  "sb_start r = align_up (curr_addr r) 16"

definition warm_up_fits :: "world \<Rightarrow> bool" where
  "warm_up_fits w \<longleftrightarrow> (let r = sb_region (w_rgs w) in
     unat (sb_start r) + 2 ^ 30 \<le> unat (base_addr r) + unat (FILESIZE r))"

lemma warm_up:
  assumes "fresh_world w"
  defines "r \<equiv> sb_region (w_rgs w)"
  shows "\<not> warm_up_fits w \<Longrightarrow> nvm_region_allocator r (rf_curr (rfile r)) SBSIZE SB_REGION_EXPAND_SIZE = (-1, None, r)"
    "warm_up_fits w \<Longrightarrow> \<exists>r'. nvm_region_allocator r (rf_curr (rfile r)) SBSIZE SB_REGION_EXPAND_SIZE = (1, Some (sb_start r), r')
       \<and> region_ok r' \<and> unat (curr_addr r') = unat (sb_start r) + 2 ^ 30 \<and> base_addr r' = base_addr r \<and> FILESIZE r' = FILESIZE r"
    "unat (sb_start r) mod 65536 = 0" "unat (base_addr r) < unat (sb_start r)"
    "unat (sb_start r) < 2 ^ 48 + 65536"
proof -
  have ok: "region_ok r" using assms(1) by (simp add: fresh_world_def r_def Let_def)
  then have c: "unat (curr_addr r) < 2 ^ 48" by (simp add: region_ok_def)
  note up = align_up_spec [OF c, of 16, folded sb_start_def, simplified]
  show "unat (sb_start r) mod 65536 = 0" "unat (base_addr r) < unat (sb_start r)" "unat (sb_start r) < 2 ^ 48 + 65536"
    using up ok c by (simp_all add: region_ok_def)
  have E: "unat SB_REGION_EXPAND_SIZE = 2 ^ 30" "0 < SB_REGION_EXPAND_SIZE" "SBSIZE = 2 ^ 16" by (simp_all add: SB_REGION_EXPAND_SIZE_def SBSIZE_eq)
  have n: "unat (sb_start r + SB_REGION_EXPAND_SIZE) = unat (sb_start r) + 2 ^ 30"
    using up(3) c E(1) by (subst unat_add_lt) simp_all
  have b: "unat (base_addr r + FILESIZE r) = unat (base_addr r) + unat (FILESIZE r)"
    using ok by (subst unat_add_lt) (simp_all add: region_ok_def)
  have cases: "nvm_region_allocator r (rf_curr (rfile r)) SBSIZE SB_REGION_EXPAND_SIZE =
      (if warm_up_fits w then (1, Some (sb_start r), r\<lparr>rfile := (rfile r)\<lparr>rf_curr := atomic_pptr_store (base_addr r) (sb_start r + SB_REGION_EXPAND_SIZE)\<rparr>\<rparr>)
       else (-1, None, r))"
    using allocator_cases [OF E(3) _ _ E(2), of r "rf_curr (rfile r)"] ok
    by (auto simp: Let_def sb_start_def [symmetric] word_less_nat_alt n b warm_up_fits_def r_def [symmetric] region_ok_def)
  then show "\<not> warm_up_fits w \<Longrightarrow> nvm_region_allocator r (rf_curr (rfile r)) SBSIZE SB_REGION_EXPAND_SIZE = (-1, None, r)" by simp
  assume "warm_up_fits w"
  with cases obtain r' where r': "nvm_region_allocator r (rf_curr (rfile r)) SBSIZE SB_REGION_EXPAND_SIZE = (1, Some (sb_start r), r')" by simp
  note s = region_ok_success [OF ok E(3) _ _ E(2) _ r']
  show "\<exists>r'. nvm_region_allocator r (rf_curr (rfile r)) SBSIZE SB_REGION_EXPAND_SIZE = (1, Some (sb_start r), r')
       \<and> region_ok r' \<and> unat (curr_addr r') = unat (sb_start r) + 2 ^ 30 \<and> base_addr r' = base_addr r \<and> FILESIZE r' = FILESIZE r"
    using r' s E(1) by (intro exI [of _ r']) simp
qed

lemma geom_warm:
  assumes "fresh_world w" "region_ok r'" "unat (curr_addr r') = unat (sb_start (sb_region (w_rgs w))) + 2 ^ 30"
    "base_addr r' = base_addr (sb_region (w_rgs w))" "FILESIZE r' = FILESIZE (sb_region (w_rgs w))"
    "length (rgs R) = LAST_IDX" "rgs R ! idx_no SB_IDX = Some r'"
    "regions_address R = (regions_address (w_rgs w))[idx_no SB_IDX := sb_start (sb_region (w_rgs w))]"
  shows "geom R" "nsb R = 16384" "Regions_lookup R SB_IDX = sb_start (sb_region (w_rgs w))"
proof -
  let ?r = "sb_region (w_rgs w)"
  note fw = assms(1) [unfolded fresh_world_def Let_def]
  note up = warm_up(3,4) [OF assms(1)]
  have len: "length (regions_address (w_rgs w)) = 5" using fw by (simp add: LAST_IDX_def)
  show sb: "Regions_lookup R SB_IDX = sb_start ?r" by (simp add: Regions_lookup_def assms(8) len)
  have l: "Regions_lookup R DESC_IDX = Regions_lookup (w_rgs w) DESC_IDX" "Regions_lookup R META_IDX = Regions_lookup (w_rgs w) META_IDX"
    by (simp_all add: Regions_lookup_def assms(8))
  have r: "sb_region R = r'" using assms(7) by (simp add: sb_region_def)
  have n: "nsb R = (unat (sb_start ?r) + 2 ^ 30 - unat (sb_start ?r)) div 65536" by (simp add: nsb_def r sb assms(3))
  then show n': "nsb R = 16384" by simp
  show "geom R"
    unfolding geom_def r sb l n' assms(3,4,5)
    using fw up assms(2,6,7) by simp
qed

definition warm_failed :: fault where "warm_failed = AssertFailed ''warmup sb allocation fails!''"

lemma BaseMeta_new_spec:
  assumes "fresh_world w"
  shows "if warm_up_fits w then \<exists>w'. BaseMeta_new w = Inr w' \<and> heap_inv w' g_empty \<and> w_roots w' = replicate MAX_ROOTS 0
       \<and> Regions_lookup (w_rgs w') SB_IDX = sb_start (sb_region (w_rgs w)) \<and> w_mem w' = w_mem w
       \<and> set (queue_abs QUEUE_CAP (w_queue w')) = of_nat ` {1..<16384}
     else BaseMeta_new w = Inl warm_failed"
proof -
  let ?R = "w_rgs w"
  let ?r = "sb_region ?R"
  note fw = assms [unfolded fresh_world_def Let_def]
  have r: "rgs ?R ! idx_no SB_IDX = Some ?r" using fw by (auto simp: sb_region_def)
  have len: "length (rgs ?R) = 5" "length (regions_address ?R) = 5" using fw by (simp_all add: LAST_IDX_def)
  show ?thesis
  proof (cases "warm_up_fits w")
    case True
    obtain r' where r': "nvm_region_allocator ?r (rf_curr (rfile ?r)) SBSIZE SB_REGION_EXPAND_SIZE = (1, Some (sb_start ?r), r')"
      "region_ok r'" "unat (curr_addr r') = unat (sb_start ?r) + 2 ^ 30" "base_addr r' = base_addr ?r" "FILESIZE r' = FILESIZE ?r"
      using warm_up(2) [OF assms True] by blast
    define r2 where "r2 = store_heap_start r' (sb_start ?r)"
    define R2 where "R2 = ?R\<lparr>rgs := (rgs ?R)[1 := Some r2], regions_address := (regions_address ?R)[1 := sb_start ?r]\<rparr>"
    define w2 where "w2 = w\<lparr>w_heaps := fresh_heaps ?R, w_roots := replicate MAX_ROOTS 0, w_rgs := R2\<rparr>"
    have r2: "region_ok r2" "curr_addr r2 = curr_addr r'" "base_addr r2 = base_addr ?r" "FILESIZE r2 = FILESIZE ?r"
      using r' by (simp_all add: r2_def store_heap_start_def region_ok_def curr_addr_def)
    have gm: "geom R2" "nsb R2 = 16384" "Regions_lookup R2 SB_IDX = sb_start ?r"
      using geom_warm [OF assms r2(1), of R2] r2 r' len by (simp_all add: R2_def LAST_IDX_def)
    have inv: "heap_inv w2 g_empty"
      using fw gm(1) by (intro heap_inv_empty [where R = ?R]) (simp_all add: w2_def)
    have q: "queue_abs QUEUE_CAP (w_queue w2) = []" using fw by (simp add: w2_def queue_abs_new QUEUE_CAP_def)
    have cnt: "aq_count QUEUE_CAP (w_queue w2) = 0" using length_queue_abs [of QUEUE_CAP "w_queue w2"] q by simp
    obtain w' where w': "organize_sb_list w2 (sb_addr (w_rgs w2) 1) (of_nat 16383) = Inr w'" "heap_inv w' g_empty" "same_blocks w2 w'" "w_rgs w' = w_rgs w2"
      "set (queue_abs QUEUE_CAP (w_queue w')) = of_nat ` {1..<16384}"
      using organize_sb_list_inv [OF inv, of 1 16383] gm(2) q cnt by (auto simp: w2_def g_empty_def QUEUE_CAP_def)
    have "sb_addr (w_rgs w2) 1 = sb_start ?r + SBSIZE" using gm(3) by (simp add: w2_def sb_addr_def SBSIZE_eq)
    moreover have "SB_REGION_EXPAND_SIZE div SBSIZE - 1 = of_nat 16383" by (simp add: SB_REGION_EXPAND_SIZE_def SBSIZE_eq)
    ultimately have "BaseMeta_new w = Inr w'"
      using r r'(1) w'(1) len
      by (simp add: BaseMeta_new_def Regions_expand_def Let_def set_region_def w2_def R2_def r2_def fresh_heaps_def)
    moreover have "w_roots w' = replicate MAX_ROOTS 0" "Regions_lookup (w_rgs w') SB_IDX = sb_start ?r" "w_mem w' = w_mem w"
      using w'(3,4) gm(3) by (simp_all add: same_blocks_def w2_def)
    ultimately show ?thesis using True w'(2,5) by simp
  next
    case False
    then show ?thesis
      using warm_up(1) [OF assms] r by (simp add: BaseMeta_new_def Regions_expand_def Let_def assertE_def warm_failed_def)
  qed
qed

section \<open>Stores by the client\<close>

lemma load64_cong: "(\<And>i. i < 8 \<Longrightarrow> m (a + of_nat i) = m' (a + of_nat i)) \<Longrightarrow> load64 m a = load64 m' a"
  by (rule bit_word_eqI) (simp add: bit_load64)

lemma owned_bytes_disjoint:
  assumes "heap_inv w g" "g_owner g k = Some c" "x \<in> sb_blocks (w_rgs w) k c" "g_owner g k' = Some c'" "y \<in> sb_blocks (w_rgs w) k' c'"
    "x \<noteq> y" "unat (a - x) < cls_size c" "unat (a - y) < cls_size c'"
  shows False
proof -
  note i = heap_invD [OF assms(1)]
  obtain j j' where j: "j < cls_count c" "x = blk (w_rgs w) k c j" "j' < cls_count c'" "y = blk (w_rgs w) k' c' j'"
    using assms(3,5) by (auto simp: sb_blocks_def)
  have same: "k = k' \<longrightarrow> c = c'" using assms(2,4) by auto
  have lt: "k < nsb (w_rgs w)" "k' < nsb (w_rgs w)" using ownerD [OF i(2)] assms(2,4) by blast+
  show False using blk_bytes_disjoint [OF i(1) lt(1) j(1) lt(2) j(3) same] assms(6-8) j(2,4) by simp
qed

lemma linked_not_live:
  assumes "heap_inv w g" "x \<in> linked g" "i < 8"
  shows "x + of_nat i \<notin> live_bytes (w_rgs w) g"
proof
  assume "x + of_nat i \<in> live_bytes (w_rgs w) g"
  then obtain y k c where y: "y \<in> g_live g" "g_owner g k = Some c" "y \<in> sb_blocks (w_rgs w) k c" "unat (x + of_nat i - y) < cls_size c"
    by (auto simp: live_bytes_def)
  obtain k' c' where x: "g_owner g k' = Some c'" "x \<in> sb_blocks (w_rgs w) k' c'" "x \<notin> g_live g"
    using linked_blocks [OF assms(1,2)] by metis
  have "unat (of_nat i :: u64) < 8" using assms(3) by (simp add: unsigned_of_nat take_bit_nat_eq_self)
  then have "unat (x + of_nat i - x) < cls_size c'" using cls_size_bounds(1) [of c'] by simp
  moreover have "y \<noteq> x" using x(3) y(1) by blast
  ultimately show False using owned_bytes_disjoint [OF assms(1) y(2,3) x(1,2)] y(4) by blast
qed

lemma heap_inv_write:
  assumes "heap_inv w g" "\<And>a. a \<notin> live_bytes (w_rgs w) g \<Longrightarrow> m a = w_mem w a"
  shows "heap_inv (w\<lparr>w_mem := m\<rparr>) g"
proof -
  note i = heap_invD [OF assms(1)]
  have "pptr_get (w_mem w) x = pptr_get m x" if "x \<in> linked g" for x
    unfolding pptr_get_def using linked_not_live [OF assms(1) that] assms(2)
    by (intro arg_cong2 [where f = from_pptr_off] load64_cong) auto
  then have "inv_free (w_rgs w) m g" "inv_cache (w_rgs w) m (w_flist w) g"
    using inv_free_frame [OF i(4)] inv_cache_frame [OF i(6)] by blast+
  then show ?thesis using i by (intro heap_invI) (simp_all add: inv_part_def)
qed

section \<open>The client's view\<close>

text \<open>
  The states a client can reach, with the set of blocks it holds and the sizes it asked for.
\<close>

inductive client :: "world \<Rightarrow> (u64 \<times> u64) set \<Rightarrow> bool" where
  start: "fresh_world w0 \<Longrightarrow> BaseMeta_new w0 = Inr w \<Longrightarrow> client w {}"
| malloc: "client w H \<Longrightarrow> 0 < sz \<Longrightarrow> sz \<le> SBSIZE \<Longrightarrow> do_malloc w sz = Inr (p, w') \<Longrightarrow> client w' (insert (p, sz) H)"
| free: "client w H \<Longrightarrow> (p, sz) \<in> H \<Longrightarrow> do_free w p = Inr w' \<Longrightarrow> client w' (H - {(p, sz)})"
| free_null: "client w H \<Longrightarrow> do_free w 0 = Inr w' \<Longrightarrow> client w' H"
| store: "client w H \<Longrightarrow> (p, sz) \<in> H \<Longrightarrow> a - p < sz \<Longrightarrow> client (w\<lparr>w_mem := (w_mem w)(a := v)\<rparr>) H"
| flush: "client w H \<Longrightarrow> public_flush_cache b w = Inr w' \<Longrightarrow> client w' H"
| root: "client w H \<Longrightarrow> set_root w p i = Inr (q, w') \<Longrightarrow> client w' H"

definition holds :: "regions \<Rightarrow> ghost \<Rightarrow> u64 \<Rightarrow> u64 \<Rightarrow> bool" where
  "holds R g p sz \<longleftrightarrow> (\<exists>k c. g_owner g k = Some c \<and> p \<in> sb_blocks R k c \<and> unat sz \<le> cls_size c \<and> (sz \<le> MAX_SZ \<longrightarrow> c < NLIST))"

definition client_inv :: "world \<Rightarrow> ghost \<Rightarrow> (u64 \<times> u64) set \<Rightarrow> bool" where
  "client_inv w g H \<longleftrightarrow> heap_inv w g \<and> g_live g = fst ` H \<and> inj_on fst H \<and> (\<forall>(p, sz)\<in>H. holds (w_rgs w) g p sz)"

lemma holds_relive [simp]: "holds R (g\<lparr>g_live := L\<rparr>) p sz = holds R g p sz"
  by (simp add: holds_def)

lemma holds_frame:
  assumes "frame w g w' g'" "p \<in> g_live g" "holds (w_rgs w) g p sz"
  shows "holds (w_rgs w') g' p sz"
proof -
  obtain k c where k: "g_owner g k = Some c" "p \<in> sb_blocks (w_rgs w) k c" "unat sz \<le> cls_size c" "sz \<le> MAX_SZ \<longrightarrow> c < NLIST"
    using assms(3) by (auto simp: holds_def)
  have "sb_blocks (w_rgs w') = sb_blocks (w_rgs w)" using same_addresses(5) [of "w_rgs w'" "w_rgs w"] assms(1) by (simp add: frame_def)
  moreover have "g_owner g' k = Some c" using assms(1,2) k by (auto simp: frame_def)
  ultimately show ?thesis using k by (auto simp: holds_def)
qed

lemma holds_bytes:
  assumes "p \<in> g_live g" "holds R g p sz" "a - p < sz"
  shows "a \<in> live_bytes R g"
  using assms by (fastforce simp: holds_def live_bytes_def word_less_nat_alt)

lemma holds_disjoint:
  assumes "heap_inv w g" "holds (w_rgs w) g p s" "holds (w_rgs w) g q t" "p \<noteq> q" "a - p < s"
  shows "\<not> a - q < t"
proof
  assume "a - q < t"
  obtain k c k' c' where k: "g_owner g k = Some c" "p \<in> sb_blocks (w_rgs w) k c" "unat s \<le> cls_size c"
    "g_owner g k' = Some c'" "q \<in> sb_blocks (w_rgs w) k' c'" "unat t \<le> cls_size c'"
    using assms(2,3) by (auto simp: holds_def)
  show False
    using owned_bytes_disjoint [OF assms(1) k(1,2,4,5) assms(4), of a] k(3,6) assms(5) \<open>a - q < t\<close> by (simp add: word_less_nat_alt)
qed

lemma holds_class:
  assumes "heap_inv w g" "holds (w_rgs w) g p sz" "g_owner g k = Some c" "p \<in> sb_blocks (w_rgs w) k c"
  shows "unat sz \<le> cls_size c" "sz \<le> MAX_SZ \<longrightarrow> c < NLIST"
proof -
  note i = heap_invD [OF assms(1)]
  obtain k' c' where k': "g_owner g k' = Some c'" "p \<in> sb_blocks (w_rgs w) k' c'" "unat sz \<le> cls_size c'" "sz \<le> MAX_SZ \<longrightarrow> c' < NLIST"
    using assms(2) by (auto simp: holds_def)
  have "k' = k" using sb_blocks_same [OF i(1) _ _ k'(2) assms(4)] ownerD [OF i(2)] k'(1) assms(3) by blast
  then have "c' = c" using k'(1) assms(3) by simp
  then show "unat sz \<le> cls_size c" "sz \<le> MAX_SZ \<longrightarrow> c < NLIST" using k' by simp_all
qed

lemma client_inv_malloc:
  assumes "client_inv w g H" "allocated w g sz p w' g'"
  shows "client_inv w' g' (insert (p, sz) H)" "p \<notin> fst ` H"
proof -
  have g: "heap_inv w g" "g_live g = fst ` H" "inj_on fst H" "\<forall>(p, sz)\<in>H. holds (w_rgs w) g p sz"
    using assms(1) by (simp_all add: client_inv_def)
  have a: "heap_inv w' g'" "p \<notin> g_live g" "g_live g' = insert p (g_live g)" "holds (w_rgs w') g' p sz" "frame w g w' (g'\<lparr>g_live := g_live g\<rparr>)"
    using assms(2) by (simp_all add: allocated_def holds_def)
  show n: "p \<notin> fst ` H" using a(2) g(2) by simp
  have "holds (w_rgs w') g' q t" if "(q, t) \<in> H" for q t
    using holds_frame [OF a(5), of q t] g(2,4) that by force
  then show "client_inv w' g' (insert (p, sz) H)"
    using a g n by (force simp: client_inv_def)
qed

lemma client_inv_free:
  assumes "client_inv w g H" "(p, sz) \<in> H" "freed w g p w' g'"
  shows "client_inv w' g' (H - {(p, sz)})"
proof -
  have g: "heap_inv w g" "g_live g = fst ` H" "inj_on fst H" "\<forall>(p, sz)\<in>H. holds (w_rgs w) g p sz"
    using assms(1) by (simp_all add: client_inv_def)
  have a: "heap_inv w' g'" "g_live g' = g_live g - {p}" "frame w (g\<lparr>g_live := g_live g - {p}\<rparr>) w' g'"
    using assms(3) by (simp_all add: freed_def)
  have live: "fst ` (H - {(p, sz)}) = fst ` H - {p}"
    using inj_on_image_set_diff [OF g(3), of H "{(p, sz)}"] assms(2) by simp
  have "holds (w_rgs w') g' q t" if "(q, t) \<in> H - {(p, sz)}" for q t
  proof (rule holds_frame [OF a(3)])
    have "q \<in> fst ` (H - {(p, sz)})" using that by force
    then show "q \<in> g_live (g\<lparr>g_live := g_live g - {p}\<rparr>)" using live g(2) by simp
  qed (use g(4) that in auto)
  then show ?thesis using a g(2,3) live by (auto simp: client_inv_def inj_on_diff)
qed

lemma client_inv_frame:
  assumes "client_inv w g H" "heap_inv w' g'" "frame w g w' g'"
  shows "client_inv w' g' H"
proof -
  have "holds (w_rgs w') g' p sz" if "(p, sz) \<in> H" for p sz
    using holds_frame [OF assms(3), of p sz] assms(1) that by (force simp: client_inv_def)
  then show ?thesis using assms by (auto simp: client_inv_def frame_def)
qed

lemma public_flush_cache_inv:
  assumes "heap_inv w g"
  shows "\<exists>w' g'. public_flush_cache b w = Inr w' \<and> heap_inv w' g' \<and> frame w g w' g' \<and> (b \<longrightarrow> (\<forall>c<NLIST. g_cache g' c = []))"
  using flush_upto_inv [OF assms, of NLIST] assms frame_refl by (cases b) (auto simp: public_flush_cache_def)

lemma client_inv_reach: "client w H \<Longrightarrow> \<exists>g. client_inv w g H"
proof (induction rule: client.induct)
  case (start w0 w)
  then have "heap_inv w g_empty" using BaseMeta_new_spec [OF start(1)] by (auto split: if_splits simp: warm_failed_def)
  then show ?case by (intro exI [of _ g_empty]) (simp add: client_inv_def g_empty_def)
next
  case (malloc w H sz p w')
  then obtain g where g: "client_inv w g H" by blast
  then have "heap_inv w g" by (simp add: client_inv_def)
  then obtain g' where "allocated w g sz p w' g'"
    using do_malloc_spec [of w g sz] malloc.hyps by auto
  then show ?case using client_inv_malloc(1) [OF g] by blast
next
  case (free w H p sz w')
  then obtain g where g: "client_inv w g H" by blast
  moreover have "p \<in> g_live g" using free(2) g by (force simp: client_inv_def)
  ultimately obtain g' where "freed w g p w' g'"
    using do_free_spec [of w g p] free.hyps by (auto simp: client_inv_def)
  then show ?case using client_inv_free [OF g free(2)] by blast
next
  case (free_null w H w')
  then show ?case by (simp add: do_free_def)
next
  case (store w H p sz a v)
  then obtain g where g: "client_inv w g H" by blast
  then have i: "heap_inv w g" "holds (w_rgs w) g p sz" "p \<in> g_live g" using store(2) by (force simp: client_inv_def)+
  have "a \<in> live_bytes (w_rgs w) g" by (rule holds_bytes [OF i(3,2) store(3)])
  then have "heap_inv (w\<lparr>w_mem := (w_mem w)(a := v)\<rparr>) g" by (intro heap_inv_write [OF i(1)]) auto
  then show ?case using g by (auto simp: client_inv_def)
next
  case (flush w H b w')
  then obtain g where g: "client_inv w g H" by blast
  then obtain g' where "heap_inv w' g'" "frame w g w' g'"
    using public_flush_cache_inv [of w g b] flush(2) by (auto simp: client_inv_def)
  then show ?case using client_inv_frame [OF g] by blast
next
  case (root w H p i q w')
  then obtain g where g: "client_inv w g H" by blast
  obtain rs where w': "w' = w\<lparr>w_roots := rs\<rparr>" using root(2) by (auto simp: set_root_def Let_def)
  have "heap_inv w' g" using g unfolding w' by (simp add: client_inv_def heap_inv_def inv_part_def phead_def)
  then show ?case using g by (auto simp: client_inv_def w')
qed

lemma client_heldD:
  assumes "client_inv w g H" "(p, sz) \<in> H"
  shows "heap_inv w g" "holds (w_rgs w) g p sz" "p \<in> g_live g"
  using assms by (force simp: client_inv_def)+

text \<open>A held block lies between the start and the end of the superblock region.\<close>

lemma holds_range:
  assumes "heap_inv w g" "holds (w_rgs w) g p sz"
  shows "unat (Regions_lookup (w_rgs w) SB_IDX) < unat p" "unat p + unat sz \<le> unat (curr_addr (sb_region (w_rgs w)))"
    "block_addr p"
proof -
  note i = heap_invD [OF assms(1)]
  let ?R = "w_rgs w"
  obtain k c j where k: "g_owner g k = Some c" "p \<in> sb_blocks ?R k c" "unat sz \<le> cls_size c" "j < cls_count c" "p = blk ?R k c j"
    using assms(2) by (auto simp: holds_def sb_blocks_def)
  note o = ownerD [OF i(2) k(1)]
  have u: "unat p = unat (Regions_lookup ?R SB_IDX) + k * 65536 + j * cls_size c" using unat_blk [OF i(1) _ k(4)] o k(5) by simp
  have c: "unat (curr_addr (sb_region ?R)) = unat (Regions_lookup ?R SB_IDX) + nsb ?R * 65536" using i(1) by (simp add: geom_def)
  have "j * cls_size c + cls_size c \<le> 65536" by (rule cls_extent [OF k(4)])
  moreover have "k * 65536 + 65536 \<le> nsb ?R * 65536" using o by simp
  ultimately show "unat p + unat sz \<le> unat (curr_addr (sb_region ?R))" using u c k(3) by linarith
  show "unat (Regions_lookup ?R SB_IDX) < unat p" using u o by simp
  show "block_addr p" using sb_blocks_addr [OF i(1) _ k(2)] o by simp
qed

section \<open>A concrete heap\<close>

definition sample_world :: world where
  "sample_world = \<lparr>w_mem = \<lambda>_. 0,
     w_rgs = \<lparr>rgs = [None, Some (map_persistent_region (file_size_for 0x100000000) True 0x40000000), None, None, None],
       regions_address = [0x100040, 0, 0, 0, 0x20000000], cur_idx = 5\<rparr>,
     w_queue = ArrayQueue_new QUEUE_CAP, w_desc = \<lambda>_. Descriptor 0, w_heaps = [], w_roots = [], w_flist = ThreadCache_init myclasssize\<rparr>"

definition sample_heap :: world where
  "sample_heap = (case BaseMeta_new sample_world of Inl _ \<Rightarrow> sample_world | Inr w \<Rightarrow> w)"

definition sample_block :: u64 where
  "sample_block = (case do_malloc sample_heap 100 of Inl _ \<Rightarrow> 0 | Inr (p, _) \<Rightarrow> p)"

definition sample_heap1 :: world where
  "sample_heap1 = (case do_malloc sample_heap 100 of Inl _ \<Rightarrow> sample_heap | Inr (_, w) \<Rightarrow> w)"

lemma sample_fresh: "fresh_world sample_world" "warm_up_fits sample_world"
proof -
  let ?r = "map_persistent_region (file_size_for 0x100000000) True 0x40000000"
  have r: "sb_region (w_rgs sample_world) = ?r" by (simp add: sample_world_def sb_region_def)
  have f: "file_size_for 0x100000000 = 0x100002000" by (simp add: file_size_for_def PAGESIZE_def)
  have c: "curr_addr ?r = 0x40001000" by (simp add: curr_addr_def map_persistent_region_def PAGESIZE_def atomic_pptr_load_def atomic_pptr_store_def canonical_def)
  have ok: "region_ok ?r"
    unfolding region_ok_def c by (simp add: map_persistent_region_def f PAGESIZE_def)
  show "fresh_world sample_world"
    unfolding fresh_world_def Let_def r using ok
    by (simp add: sample_world_def LAST_IDX_def Regions_lookup_def) (simp add: map_persistent_region_def f)
  have "sb_start ?r = 0x40010000" by (simp add: sb_start_def c align_up_def Let_def)
  then show "warm_up_fits sample_world"
    unfolding warm_up_fits_def Let_def r by (simp add: map_persistent_region_def f)
qed

lemma sample_client:
  "client sample_heap {}" "\<not> exhausted sample_heap" "client sample_heap1 {(sample_block, 100)}"
  "do_malloc sample_heap 100 = Inr (sample_block, sample_heap1)"
proof -
  obtain w where w: "BaseMeta_new sample_world = Inr w" "heap_inv w g_empty" "set (queue_abs QUEUE_CAP (w_queue w)) = of_nat ` {1..<16384}"
    using BaseMeta_new_spec [OF sample_fresh(1)] sample_fresh(2) by auto
  then have s: "sample_heap = w" by (simp add: sample_heap_def)
  show c: "client sample_heap {}" unfolding s using sample_fresh(1) w(1) by (rule client.start)
  have "queue_abs QUEUE_CAP (w_queue w) \<noteq> []" using w(3) by (metis image_is_empty atLeastLessThan_empty_iff list.set(1) one_less_numeral_iff semiring_norm(76))
  then show ne: "\<not> exhausted sample_heap" by (simp add: s exhausted_def)
  obtain p w' where "do_malloc sample_heap 100 = Inr (p, w')"
    using do_malloc_spec [of w g_empty 100] w(2) ne by (auto simp: s SBSIZE_eq)
  then show m: "do_malloc sample_heap 100 = Inr (sample_block, sample_heap1)" by (simp add: sample_block_def sample_heap1_def)
  show "client sample_heap1 {(sample_block, 100)}" using client.malloc [OF c _ _ m] by (simp add: SBSIZE_eq)
qed

section \<open>Properties\<close>



lemma client_malloc_step:
  assumes "client w H" "0 < sz" "sz \<le> SBSIZE"
  shows "do_malloc w sz = Inl out_of_space \<and> exhausted w
    \<or> (\<exists>p w'. do_malloc w sz = Inr (p, w') \<and> client w' (insert (p, sz) H)
         \<and> (\<forall>q t a. (q, t) \<in> H \<and> a - q < t \<longrightarrow> \<not> a - p < sz \<and> w_mem w' a = w_mem w a))"
proof -
  obtain g where g: "client_inv w g H" using client_inv_reach [OF assms(1)] by blast
  then have i: "heap_inv w g" by (simp add: client_inv_def)
  show ?thesis
  proof (cases "do_malloc w sz = Inl out_of_space \<and> exhausted w")
    case False
    then obtain p w' g' where r: "do_malloc w sz = Inr (p, w')" "allocated w g sz p w' g'" using do_malloc_spec [OF i assms(2,3)] by blast
    note c = client_inv_malloc [OF g r(2)]
    have "\<not> a - p < sz \<and> w_mem w' a = w_mem w a" if q: "(q, t) \<in> H" "a - q < t" for q t a
    proof
      note h = client_heldD [OF c(1), of p sz, simplified] client_heldD [OF c(1), of q t]
      have "q \<noteq> p" using c(2) q(1) by force
      then show "\<not> a - p < sz" using holds_disjoint [OF h(1) _ h(2)] h(5) q by blast
      have "a \<in> live_bytes (w_rgs w) g" using holds_bytes [OF client_heldD(3,2) [OF g q(1)] q(2)] .
      then show "w_mem w' a = w_mem w a" using r(2) by (simp add: allocated_def frame_def keeps_live_def)
    qed
    then show ?thesis using r(1) client.malloc [OF assms r(1)] by blast
  qed simp
qed



lemma client_free_step:
  assumes "client w H" "(p, sz) \<in> H"
  shows "(MAX_SZ < sz \<and> do_free w p = Inl (AssertFailed ''queue is full!'') \<and> length (queue_abs QUEUE_CAP (w_queue w)) \<ge> 79999
    \<or> (\<exists>w'. do_free w p = Inr w' \<and> client w' (H - {(p, sz)})
         \<and> (\<forall>q t a. (q, t) \<in> H - {(p, sz)} \<and> a - q < t \<longrightarrow> w_mem w' a = w_mem w a)))
    \<and> do_free w 0 = Inr w"
proof -
  obtain g where g: "client_inv w g H" using client_inv_reach [OF assms(1)] by blast
  note h = client_heldD [OF g assms(2)]
  have keep: "w_mem w' a = w_mem w a" if "freed w g p w' g'" "(q, t) \<in> H - {(p, sz)}" "a - q < t" for w' g' q t a
  proof -
    have "q \<noteq> p" using that(2) assms(2) g by (force simp: client_inv_def inj_on_def)
    then have "a \<in> live_bytes (w_rgs w) (g\<lparr>g_live := g_live g - {p}\<rparr>)"
      using client_heldD [OF g, of q t] that by (intro holds_bytes [of q _ _ t]) auto
    then show ?thesis using that(1) by (simp add: freed_def frame_def keeps_live_def)
  qed
  have big: "MAX_SZ < sz" if "g_owner g k = Some NLIST" "p \<in> sb_blocks (w_rgs w) k NLIST" for k
    using holds_class [OF h(1,2) that] by auto
  have "do_free w 0 = Inr w" by (simp add: do_free_def)
  then show ?thesis
    using do_free_spec [OF h(1,3)]
  proof (elim disjE exE conjE)
    fix w' g' assume "do_free w p = Inr w'" "freed w g p w' g'"
    then show ?thesis using client.free [OF assms] keep \<open>do_free w 0 = Inr w\<close> by blast
  qed (use big in \<open>auto simp: QUEUE_CAP_def\<close>)
qed



text \<open>C19: Flushing all thread caches (what the destructor of a thread's cache does) always succeeds
  in a reachable state, empties every list and changes no byte of a held block.\<close>

theorem public_flush_cache_client:
  assumes "client w H"
  shows "\<exists>w'. public_flush_cache True w = Inr w' \<and> client w' H
    \<and> (\<forall>c<NLIST. Size (w_flist w' ! c) = 0) \<and> (\<forall>p sz a. (p, sz) \<in> H \<and> a - p < sz \<longrightarrow> w_mem w' a = w_mem w a)"
proof -
  obtain g where g: "client_inv w g H" using client_inv_reach [OF assms] by blast
  then obtain w' g' where r: "public_flush_cache True w = Inr w'" "heap_inv w' g'" "frame w g w' g'" "\<forall>c<NLIST. g_cache g' c = []"
    using public_flush_cache_inv [of w g True] by (auto simp: client_inv_def)
  have "w_mem w' a = w_mem w a" if "(p, sz) \<in> H" "a - p < sz" for p sz a
    using holds_bytes [OF client_heldD(3,2) [OF g that(1)] that(2)] r(3) by (simp add: frame_def keeps_live_def)
  moreover have "\<forall>c<NLIST. Size (w_flist w' ! c) = 0" using cache_size_0 [OF r(2)] r(4) by simp
  ultimately show ?thesis using r(1) client.flush [OF assms r(1)] by blast
qed

theorem public_flush_cache_client_witness:
  "\<exists>w'. public_flush_cache True sample_heap1 = Inr w' \<and> client w' {(sample_block, 100)} \<and> Size (w_flist w' ! 0) = 0"
  using public_flush_cache_client [OF sample_client(3)] by (auto simp: NLIST_def)

text \<open>The constructor of the heap metadata, on freshly mapped regions: when the superblock region
  has room for one expansion it establishes the heap invariant with nothing allocated, null
  roots and the heap start on the first superblock boundary; otherwise its assertion fails.\<close>

lemma BaseMeta_new_establishes:
  assumes "fresh_world w"
  shows "if warm_up_fits w then \<exists>w'. BaseMeta_new w = Inr w' \<and> heap_inv w' g_empty \<and> (\<forall>i<MAX_ROOTS. get_root w' i = Inr 0)
       \<and> Regions_lookup (w_rgs w') SB_IDX = sb_start (sb_region (w_rgs w))
     else BaseMeta_new w = Inl (AssertFailed ''warmup sb allocation fails!'')"
proof (cases "warm_up_fits w")
  case True
  then obtain w' where "BaseMeta_new w = Inr w'" "heap_inv w' g_empty" "w_roots w' = replicate MAX_ROOTS 0"
    "Regions_lookup (w_rgs w') SB_IDX = sb_start (sb_region (w_rgs w))"
    using BaseMeta_new_spec [OF assms] by auto
  then show ?thesis using True by (auto simp: get_root_def assertE_def crossptr_get_def)
next
  case False
  then show ?thesis using BaseMeta_new_spec [OF assms] by (simp add: warm_failed_def)
qed

lemma BaseMeta_new_establishes_witness:
  "\<exists>w'. BaseMeta_new sample_world = Inr w' \<and> heap_inv w' g_empty"
  using BaseMeta_new_establishes [OF sample_fresh(1)] sample_fresh(2) by auto

text \<open>A region of exactly the minimal size passes the size check of \<open>_BXP_init\<close>, but the warm-up
  of a fresh heap on it fails: the header page pushes the first superblock boundary so far that
  one expansion no longer fits.\<close>

lemma minimal_region_warm_up_fails:
  assumes "fresh_world w" "FILESIZE (sb_region (w_rgs w)) = file_size_for 0x40000000"
    "unat (base_addr (sb_region (w_rgs w))) mod 65536 = 0"
  shows "BaseMeta_new w = Inl (AssertFailed ''warmup sb allocation fails!'')"
proof -
  let ?r = "sb_region (w_rgs w)"
  have f: "unat (FILESIZE ?r) = 0x40002000" using assms(2) by (simp add: file_size_for_def PAGESIZE_def)
  have up: "unat (base_addr ?r) < unat (sb_start ?r)" "unat (sb_start ?r) mod 65536 = 0" using warm_up(3,4) [OF assms(1)] by simp_all
  obtain b s where bs: "unat (base_addr ?r) = 65536 * b" "unat (sb_start ?r) = 65536 * s"
    using up(2) assms(3) by (meson dvdE mod_0_imp_dvd)
  then have "b + 1 \<le> s" using up(1) by simp
  then have "unat (base_addr ?r) + 65536 \<le> unat (sb_start ?r)" using bs by simp
  then have "\<not> warm_up_fits w" using f by (simp add: warm_up_fits_def Let_def)
  then show ?thesis using BaseMeta_new_spec [OF assms(1)] by (simp add: warm_failed_def)
qed

definition minimal_world :: world where
  "minimal_world = sample_world\<lparr>w_rgs := (w_rgs sample_world)\<lparr>rgs := [None, Some (map_persistent_region (file_size_for 0x40000000) True 0x40000000), None, None, None]\<rparr>\<rparr>"

lemma minimal_region_warm_up_fails_witness:
  "BaseMeta_new minimal_world = Inl (AssertFailed ''warmup sb allocation fails!'')"
proof (rule minimal_region_warm_up_fails)
  let ?r = "map_persistent_region (file_size_for 0x40000000) True 0x40000000"
  have r: "sb_region (w_rgs minimal_world) = ?r" by (simp add: minimal_world_def sb_region_def)
  have f: "file_size_for 0x40000000 = 0x40002000" by (simp add: file_size_for_def PAGESIZE_def)
  have c: "curr_addr ?r = 0x40001000" by (simp add: curr_addr_def map_persistent_region_def PAGESIZE_def atomic_pptr_load_def atomic_pptr_store_def canonical_def)
  have "region_ok ?r" unfolding region_ok_def c by (simp add: map_persistent_region_def f PAGESIZE_def)
  then show "fresh_world minimal_world"
    unfolding fresh_world_def Let_def r
    by (simp add: minimal_world_def sample_world_def LAST_IDX_def Regions_lookup_def) (simp add: map_persistent_region_def f)
  show "FILESIZE (sb_region (w_rgs minimal_world)) = file_size_for 0x40000000" "unat (base_addr (sb_region (w_rgs minimal_world))) mod 65536 = 0"
    unfolding r by (simp_all add: map_persistent_region_def)
qed

text \<open>C27: A root set in slot \<open>i\<close> is what \<open>get_root\<close> returns for it and the next \<open>set_root\<close> reports, and
  the other roots keep their values; a slot outside the table fails the assertion.  The one
  address that does not survive is the start of the region, whose offset is zero.\<close>

theorem set_root_get_root:
  assumes "length (w_roots w) = MAX_ROOTS" "p \<noteq> Regions_lookup (w_rgs w) SB_IDX"
  shows "(i < MAX_ROOTS \<longrightarrow> (\<exists>q w'. set_root w p i = Inr (q, w') \<and> get_root w i = Inr q \<and> get_root w' i = Inr p
      \<and> (\<forall>j. j \<noteq> i \<longrightarrow> get_root w' j = get_root w j)))
    \<and> (i \<ge> MAX_ROOTS \<longrightarrow> set_root w p i = Inl (AssertFailed ''i<MAX_ROOTS'') \<and> get_root w i = Inl (AssertFailed ''i<MAX_ROOTS''))"
proof -
  have "get_root (w\<lparr>w_roots := (w_roots w)[i := v]\<rparr>) j = get_root w j" if "j \<noteq> i" for j v
    using that by (simp add: get_root_def)
  then show ?thesis
    using assms crossptr_get_assign [OF assms(2)]
    by (auto simp: set_root_def get_root_def assertE_def Let_def crossptr_is_null_def crossptr_get_def)
qed

theorem set_root_get_root_witness:
  "\<exists>q w'. set_root (sample_world\<lparr>w_roots := replicate MAX_ROOTS 0\<rparr>) 0x40020000 7 = Inr (q, w') \<and> get_root w' 7 = Inr 0x40020000"
  using set_root_get_root [of "sample_world\<lparr>w_roots := replicate MAX_ROOTS 0\<rparr>" "0x40020000" 7]
  by (auto simp: sample_world_def Regions_lookup_def MAX_ROOTS_def)

end
