(* ===== verification/Bx_GC.thy ===== *)
theory Bx_GC
  imports Bx_Client
begin

unbundle bit_operations_syntax

text \<open>
  The garbage collection after a dirty restart (\<open>GarbageCollection\<close> in \<open>src/src/BaseMeta.hpp\<close> and
  \<open>src/src/BaseMeta.cpp\<close>): the conservative marking from the roots and the sweep that rebuilds
  descriptors, free chains and partial lists superblock by superblock.
\<close>

section \<open>Marking\<close>

text \<open>
  \<open>std::set\<close> and \<open>std::stack\<close>.  The functions on the second stack are all instances of
  \<open>filter_func\<close>, whose default body does not depend on the type of the node.
\<close>

record gc_state =
  marked_blk :: "u64 set"
  to_filter_node :: "u64 list"

definition GarbageCollection_new :: gc_state where
  "GarbageCollection_new = \<lparr>marked_blk = {}, to_filter_node = []\<rparr>"

definition mark_func :: "regions \<Rightarrow> gc_state \<Rightarrow> u64 \<Rightarrow> gc_state result" where
  "mark_func R gc addr =
     bindE (Regions_in_range R SB_IDX addr) (\<lambda>b.
     if \<not> b then Inr gc
     else if addr \<notin> marked_blk gc
       then Inr (gc\<lparr>marked_blk := insert addr (marked_blk gc), to_filter_node := addr # to_filter_node gc\<rparr>)
       else Inr gc)"

fun filter_loop :: "world \<Rightarrow> nat \<Rightarrow> u64 \<Rightarrow> gc_state \<Rightarrow> gc_state result" where
  "filter_loop w 0 cur gc = Inr gc"
| "filter_loop w (Suc n) cur gc =
     (let curr_content = pptr_get (w_mem w) cur in
      bindE (if curr_content \<noteq> 0 then mark_func (w_rgs w) gc curr_content else Inr gc)
        (filter_loop w n (cur + 1)))"

definition filter_func :: "world \<Rightarrow> gc_state \<Rightarrow> u64 \<Rightarrow> gc_state result" where
  "filter_func w gc ptr =
     (let desc = desc_lookup (w_rgs w) ptr; sz = block_size (w_desc w desc)
      in filter_loop w (unat sz) ptr gc)"

text \<open>
  The roots.  \<open>rf ! i\<close> says whether \<open>get_root\<close> has registered a filter function for slot \<open>i\<close> in
  this run; the registered function marks the root's address.
\<close>

fun mark_roots :: "world \<Rightarrow> bool list \<Rightarrow> nat \<Rightarrow> gc_state \<Rightarrow> gc_state result" where
  "mark_roots w rf 0 gc = Inr gc"
| "mark_roots w rf (Suc i) gc =
     bindE (mark_roots w rf i gc) (\<lambda>gc.
     if \<not> crossptr_is_null (w_roots w ! i)
     then if rf ! i then mark_func (w_rgs w) gc (crossptr_get (w_rgs w) SB_IDX (w_roots w ! i))
          else Inl EmptyFunction
     else Inr gc)"

text \<open>Every call keeps the number of unmarked addresses plus the height of the stack.\<close>

definition gc_measure :: "gc_state \<Rightarrow> nat" where
  "gc_measure gc = card (- marked_blk gc) + length (to_filter_node gc)"

lemma card_unmark: "x \<notin> (M :: u64 set) \<Longrightarrow> card (- insert x M) + 1 = card (- M)"
proof -
  assume "x \<notin> M"
  then have "- M = insert x (- insert x M)" by auto
  then show ?thesis by (metis ComplD Suc_eq_plus1 card_insert_disjoint finite insertI1)
qed

lemma mark_func_measure: "mark_func R gc a = Inr gc' \<Longrightarrow> gc_measure gc' = gc_measure gc"
  using card_unmark by (fastforce simp: mark_func_def gc_measure_def split: if_splits)

lemma filter_loop_measure: "filter_loop w n c gc = Inr gc' \<Longrightarrow> gc_measure gc' = gc_measure gc"
  by (induction n arbitrary: c gc) (auto simp: Let_def split: if_splits dest!: mark_func_measure)

lemma filter_func_measure: "filter_func w gc p = Inr gc' \<Longrightarrow> gc_measure gc' = gc_measure gc"
  by (simp add: filter_func_def Let_def filter_loop_measure)

function mark_loop :: "world \<Rightarrow> gc_state \<Rightarrow> gc_state result" where
  "mark_loop w gc =
     (case to_filter_node gc of
        [] \<Rightarrow> Inr gc
      | node # nodes \<Rightarrow> bindE (filter_func w (gc\<lparr>to_filter_node := nodes\<rparr>) node) (mark_loop w))"
  by pat_completeness auto
termination
  by (relation "measure (\<lambda>(w, gc). gc_measure gc)") (auto dest!: filter_func_measure simp: gc_measure_def)

declare mark_loop.simps [simp del]

definition mark_phase :: "world \<Rightarrow> bool list \<Rightarrow> gc_state result" where
  "mark_phase w rf = bindE (mark_roots w rf MAX_ROOTS GarbageCollection_new) (mark_loop w)"

section \<open>Sweeping\<close>

text \<open>
  The loops that thread the blocks from \<open>free_block\<close> up to \<open>lim\<close> onto the free chain.  Each round
  moves on by the block size; \<open>fuel\<close> rounds are enough when that is positive and the distance is
  at most \<open>fuel\<close>.
\<close>

fun free_run :: "nat \<Rightarrow> memory \<Rightarrow> u64 \<Rightarrow> u64 \<Rightarrow> u64 \<Rightarrow> u64 \<Rightarrow> 31 word \<Rightarrow> (memory \<times> u64 \<times> 31 word) result" where
  "free_run 0 m bs lim free_block head cnt =
     (if free_block < lim then Inl NoProgress else Inr (m, head, cnt))"
| "free_run (Suc fuel) m bs lim free_block head cnt =
     (if free_block < lim
      then free_run fuel (pptr_set m free_block head) bs lim (free_block + bs) free_block (cnt + 1)
      else Inr (m, head, cnt))"

text \<open>The loop over the marked addresses that lie in the current superblock.\<close>

fun sweep_marked ::
    "world \<Rightarrow> u64 \<Rightarrow> u64 \<Rightarrow> u64 list \<Rightarrow> memory \<Rightarrow> u64 \<Rightarrow> u64 \<Rightarrow> anchor \<Rightarrow> (memory \<times> u64 \<times> u64 \<times> anchor \<times> u64 list) result" where
  "sweep_marked w curr_sb curr_desc [] m head last_possible anchor = Inr (m, head, last_possible, anchor, [])"
| "sweep_marked w curr_sb curr_desc (x # xs) m head last_possible anchor =
     (if drop_bit SB_SHIFT curr_sb = drop_bit SB_SHIFT x then
        let R = w_rgs w; d = w_desc w curr_desc in
        if \<not> crossptr_is_null (dheap d) \<and> crossptr_get R SB_IDX (dsuperblock d) = curr_sb then
          bindE (heap_at R (crossptr_deref R META_IDX (dheap d))) (\<lambda>h.
          if sc_idx (w_heaps w ! h) = of_nat NLIST then
            bindE (assertE ''curr_desc->maxcount == 1'' (maxcount d = 1)) (\<lambda>_.
            sweep_marked w curr_sb curr_desc xs m head last_possible (anchor\<lparr>astate := SB_FULL\<rparr>))
          else
            bindE (free_run (unat (x - last_possible)) m (ucast (block_size d)) x last_possible head (acount anchor)) (\<lambda>(m, head, cnt).
            sweep_marked w curr_sb curr_desc xs m head (x + ucast (block_size d)) (anchor\<lparr>astate := SB_PARTIAL, acount := cnt\<rparr>)))
        else sweep_marked w curr_sb curr_desc xs m head last_possible anchor
      else Inr (m, head, last_possible, anchor, x # xs))"

record sweep_state =
  sw_world :: world
  sw_sb :: u64
  sw_desc :: u64
  sw_marked :: "u64 list"
  sw_avail :: u64

text \<open>The three ends of a round: the superblock is unused, in the large branch, in the small branch.\<close>

definition sweep_empty :: "sweep_state \<Rightarrow> sweep_state" where
  "sweep_empty s =
     (let desc = sw_desc s in
      s\<lparr>sw_world := upd_desc desc (\<lambda>_. (Descriptor desc)\<lparr>next_free := atomic_pptr_store desc (sw_avail s)\<rparr>) (sw_world s),
        sw_avail := desc, sw_sb := sw_sb s + SBSIZE, sw_desc := desc + DESCSIZE\<rparr>)"

definition sweep_large :: "sweep_state \<Rightarrow> sweep_state" where
  "sweep_large s =
     (let desc = sw_desc s; w = sw_world s; sb = sw_sb s + ucast (block_size (w_desc w desc)) in
      s\<lparr>sw_world := upd_desc desc (\<lambda>d. d\<lparr>next_free := atomic_pptr_store desc 0, next_partial := atomic_pptr_store (desc + 8) 0,
          danchor := \<lparr>avail = 0, acount = 0, astate = SB_FULL\<rparr>\<rparr>) w,
        sw_sb := sb, sw_desc := desc_lookup (w_rgs w) sb\<rparr>)"

definition sweep_small :: "sweep_state \<Rightarrow> memory \<Rightarrow> u64 \<Rightarrow> u64 \<Rightarrow> anchor \<Rightarrow> sweep_state result" where
  "sweep_small s m head last_possible anchor =
     (let desc = sw_desc s; w = sw_world s; d = w_desc w desc; curr_sb = sw_sb s;
          bs = (ucast (block_size d) :: u64);
          lim = curr_sb + ucast (maxcount d * block_size d)
      in bindE (free_run (unat (lim - last_possible)) m bs lim last_possible head (acount anchor)) (\<lambda>(m, head, cnt).
         let w = w\<lparr>w_mem := m\<rparr>; next = s\<lparr>sw_sb := curr_sb + SBSIZE, sw_desc := desc + DESCSIZE\<rparr> in
         if cnt = 0 then
           Inr (next\<lparr>sw_world := upd_desc desc (\<lambda>d. d\<lparr>next_free := atomic_pptr_store desc 0,
             next_partial := atomic_pptr_store (desc + 8) 0,
             danchor := \<lparr>avail = ucast (maxcount d), acount = cnt, astate = SB_FULL\<rparr>\<rparr>) w\<rparr>)
         else
           bindE (assertE ''free_blocks_head != nullptr'' (head \<noteq> 0)) (\<lambda>_.
           bindE (assertE ''(uint64_t)(free_blocks_head - curr_sb)%curr_desc->block_size == 0'' ((head - curr_sb) mod bs = 0)) (\<lambda>_.
           let anchor = \<lparr>avail = ucast ((head - curr_sb) div bs), acount = cnt, astate = SB_PARTIAL\<rparr>;
               w = upd_desc desc (\<lambda>d. d\<lparr>next_free := atomic_pptr_store desc 0\<rparr>) w
           in bindE (heap_push_partial w desc) (\<lambda>w.
              Inr (next\<lparr>sw_world := upd_desc desc (\<lambda>d. d\<lparr>danchor := anchor\<rparr>) w\<rparr>))))))"

definition sweep_step :: "sweep_state \<Rightarrow> sweep_state result" where
  "sweep_step s =
     (let w = sw_world s in
      bindE (sweep_marked w (sw_sb s) (sw_desc s) (sw_marked s) (w_mem w) 0 (sw_sb s) (Anchor3 0 0 SB_EMPTY))
        (\<lambda>(m, head, last_possible, anchor, xs).
      let w = w\<lparr>w_mem := m\<rparr>; s = s\<lparr>sw_world := w, sw_marked := xs\<rparr>; d = w_desc w (sw_desc s) in
      if astate anchor = SB_EMPTY then Inr (sweep_empty s)
      else bindE (heap_at (w_rgs w) (crossptr_deref (w_rgs w) META_IDX (dheap d))) (\<lambda>h.
        if sc_idx (w_heaps w ! h) = 0 then Inr (sweep_large s)
        else sweep_small s m head last_possible anchor)))"

text \<open>The loop over the region; every round moves on by at least one byte, or never ends.\<close>

fun sweep_loop :: "nat \<Rightarrow> u64 \<Rightarrow> sweep_state \<Rightarrow> sweep_state result" where
  "sweep_loop 0 sb_end s = (if sw_sb s < sb_end then Inl NoProgress else Inr s)"
| "sweep_loop (Suc fuel) sb_end s =
     (if sw_sb s < sb_end then bindE (sweep_step s) (sweep_loop fuel sb_end) else Inr s)"

section \<open>The collection\<close>

definition reset_partial :: "world \<Rightarrow> world" where
  "reset_partial w = w\<lparr>w_heaps := map (\<lambda>h. h\<lparr>partial_list := 0\<rparr>) (take NLIST (w_heaps w)) @ drop NLIST (w_heaps w)\<rparr>"

text \<open>The lines that the loops at the end of the collection and in \<open>writeback\<close> flush.\<close>

definition meta_flush_lines :: "u64 \<Rightarrow> u64 \<Rightarrow> u64 list" where
  "meta_flush_lines addr sz = map (\<lambda>i. addr + (of_nat i + 1) * CACHELINE_SIZE) [0..<(unat sz + 63) div 64]"

definition GarbageCollection :: "world \<Rightarrow> bool list \<Rightarrow> world result" where
  "GarbageCollection w rf =
     (let w = reset_partial w; R = w_rgs w in
      bindE (mark_phase w rf) (\<lambda>gc.
      case rgs R ! idx_no SB_IDX of
        None \<Rightarrow> Inl NullDeref
      | Some r \<Rightarrow>
          let curr_sb = Regions_translate R SB_IDX SBSIZE;
              sb_end = curr_addr r;
              s = \<lparr>sw_world = w, sw_sb = curr_sb, sw_desc = desc_lookup R curr_sb,
                   sw_marked = sorted_list_of_set (marked_blk gc), sw_avail = 0\<rparr>
          in bindE (sweep_loop (unat (sb_end - curr_sb)) sb_end s) (\<lambda>s.
             bindE (assertE ''curr_marked_blk == marked_blk.end()'' (sw_marked s = [])) (\<lambda>_.
             Inr (sw_world s)))))"

section \<open>What is marked\<close>

definition in_sb_range :: "regions \<Rightarrow> u64 \<Rightarrow> bool" where
  "in_sb_range R x \<longleftrightarrow> Regions_in_range R SB_IDX x = Inr True"

definition succs :: "world \<Rightarrow> u64 \<Rightarrow> u64 set" where
  "succs w x = {y. \<exists>i<unat (block_size (w_desc w (desc_lookup (w_rgs w) x))). y = pptr_get (w_mem w) (x + of_nat i)
     \<and> y \<noteq> 0 \<and> in_sb_range (w_rgs w) y}"

definition root_targets :: "world \<Rightarrow> u64 set" where
  "root_targets w = {y. \<exists>i<MAX_ROOTS. \<not> crossptr_is_null (w_roots w ! i) \<and> y = crossptr_get (w_rgs w) SB_IDX (w_roots w ! i)
     \<and> in_sb_range (w_rgs w) y}"

inductive_set reachable :: "world \<Rightarrow> u64 set" for w where
  reach_root: "x \<in> root_targets w \<Longrightarrow> x \<in> reachable w"
| reach_step: "x \<in> reachable w \<Longrightarrow> y \<in> succs w x \<Longrightarrow> y \<in> reachable w"

definition has_sb :: "regions \<Rightarrow> bool" where
  "has_sb R \<longleftrightarrow> rgs R ! idx_no SB_IDX \<noteq> None"

lemma mark_func_eq:
  assumes "has_sb R"
  shows "mark_func R gc a = Inr (if in_sb_range R a \<and> a \<notin> marked_blk gc
    then gc\<lparr>marked_blk := insert a (marked_blk gc), to_filter_node := a # to_filter_node gc\<rparr> else gc)"
proof -
  have "\<exists>b. Regions_in_range R SB_IDX a = Inr b"
    using assms by (cases "rgs R ! idx_no SB_IDX") (auto simp: Regions_in_range_def has_sb_def)
  then obtain b where b: "Regions_in_range R SB_IDX a = Inr b" by blast
  show ?thesis by (simp add: mark_func_def in_sb_range_def b)
qed

text \<open>A call marks the addresses of \<open>A\<close> that are not yet marked and pushes exactly those.\<close>

definition marks :: "u64 set \<Rightarrow> gc_state \<Rightarrow> gc_state \<Rightarrow> bool" where
  "marks A gc gc' \<longleftrightarrow> marked_blk gc' = marked_blk gc \<union> A
     \<and> set (to_filter_node gc') = set (to_filter_node gc) \<union> (A - marked_blk gc)"

lemma marks_none [simp]: "marks {} gc gc"
  by (simp add: marks_def)

lemma marks_trans: "marks A gc gc' \<Longrightarrow> marks B gc' gc'' \<Longrightarrow> marks (A \<union> B) gc gc''"
  by (auto simp: marks_def)

lemma mark_func_marks: "has_sb R \<Longrightarrow> \<exists>gc'. mark_func R gc a = Inr gc' \<and> marks (if in_sb_range R a then {a} else {}) gc gc'"
  by (auto simp: mark_func_eq marks_def)

lemma filter_loop_marks:
  assumes "has_sb (w_rgs w)"
  shows "\<exists>gc'. filter_loop w n c gc = Inr gc'
    \<and> marks {y. \<exists>i<n. y = pptr_get (w_mem w) (c + of_nat i) \<and> y \<noteq> 0 \<and> in_sb_range (w_rgs w) y} gc gc'"
proof (induction n arbitrary: c gc)
  case 0
  then show ?case by simp
next
  case (Suc n)
  let ?y = "pptr_get (w_mem w) c"
  let ?A = "if ?y \<noteq> 0 \<and> in_sb_range (w_rgs w) ?y then {?y} else {}"
  let ?B = "{y. \<exists>i<n. y = pptr_get (w_mem w) (c + 1 + of_nat i) \<and> y \<noteq> 0 \<and> in_sb_range (w_rgs w) y}"
  have "\<exists>gc1. (if ?y \<noteq> 0 then mark_func (w_rgs w) gc ?y else Inr gc) = Inr gc1 \<and> marks ?A gc gc1"
    using mark_func_marks [OF assms, of gc ?y] by auto
  then obtain gc1 where gc1: "(if ?y \<noteq> 0 then mark_func (w_rgs w) gc ?y else Inr gc) = Inr gc1" "marks ?A gc gc1" by blast
  obtain gc2 where gc2: "filter_loop w n (c + 1) gc1 = Inr gc2" "marks ?B gc1 gc2" using Suc.IH by blast
  have "{y. \<exists>i<Suc n. y = pptr_get (w_mem w) (c + of_nat i) \<and> y \<noteq> 0 \<and> in_sb_range (w_rgs w) y} = ?A \<union> ?B"
    by (auto simp: less_Suc_eq_0_disj add.assoc)
  then show ?case using marks_trans [OF gc1(2) gc2(2)] gc1(1) gc2(1) by (auto simp: Let_def split: if_splits)
qed

lemma filter_func_marks:
  assumes "has_sb (w_rgs w)"
  shows "\<exists>gc'. filter_func w gc x = Inr gc' \<and> marks (succs w x) gc gc'"
  using filter_loop_marks [OF assms] by (simp add: filter_func_def succs_def Let_def)

lemma mark_roots_marks:
  assumes "has_sb (w_rgs w)" "\<forall>i<n. \<not> crossptr_is_null (w_roots w ! i) \<longrightarrow> rf ! i"
  shows "\<exists>gc'. mark_roots w rf n gc = Inr gc' \<and> marks {y. \<exists>i<n. \<not> crossptr_is_null (w_roots w ! i)
    \<and> y = crossptr_get (w_rgs w) SB_IDX (w_roots w ! i) \<and> in_sb_range (w_rgs w) y} gc gc'"
  using assms(2)
proof (induction n)
  case 0
  then show ?case by simp
next
  case (Suc n)
  let ?P = "\<lambda>i y. \<not> crossptr_is_null (w_roots w ! i) \<and> y = crossptr_get (w_rgs w) SB_IDX (w_roots w ! i) \<and> in_sb_range (w_rgs w) y"
  obtain gc1 where gc1: "mark_roots w rf n gc = Inr gc1" "marks {y. \<exists>i<n. ?P i y} gc gc1" using Suc by auto
  have split: "{y. \<exists>i<Suc n. ?P i y} = {y. \<exists>i<n. ?P i y} \<union> {y. ?P n y}" by (auto simp: less_Suc_eq)
  have "\<exists>gc2. mark_roots w rf (Suc n) gc = Inr gc2 \<and> marks {y. ?P n y} gc1 gc2"
  proof (cases "crossptr_is_null (w_roots w ! n)")
    case False
    let ?a = "crossptr_get (w_rgs w) SB_IDX (w_roots w ! n)"
    obtain gc2 where "mark_func (w_rgs w) gc1 ?a = Inr gc2" "marks (if in_sb_range (w_rgs w) ?a then {?a} else {}) gc1 gc2"
      using mark_func_marks [OF assms(1)] by blast
    moreover have "{y. ?P n y} = (if in_sb_range (w_rgs w) ?a then {?a} else {})" using False by auto
    ultimately show ?thesis using False gc1(1) Suc.prems by simp
  qed (use gc1(1) in simp)
  then show ?case unfolding split using marks_trans [OF gc1(2)] by blast
qed

text \<open>The loop keeps what is marked inside the reachable set, and has scanned all but the stack.\<close>

lemma mark_loop_reaches:
  assumes "has_sb (w_rgs w)" "root_targets w \<subseteq> marked_blk gc" "marked_blk gc \<subseteq> reachable w"
    "set (to_filter_node gc) \<subseteq> marked_blk gc" "\<forall>x\<in>marked_blk gc - set (to_filter_node gc). succs w x \<subseteq> marked_blk gc"
  shows "\<exists>gc'. mark_loop w gc = Inr gc' \<and> marked_blk gc' = reachable w"
  using assms
proof (induction w gc rule: mark_loop.induct)
  case (1 w gc)
  show ?case
  proof (cases "to_filter_node gc")
    case Nil
    have "x \<in> marked_blk gc" if "x \<in> reachable w" for x
      using that 1(3,6) Nil by (induction rule: reachable.induct) auto
    then show ?thesis using 1(4) Nil by (subst mark_loop.simps) auto
  next
    case (Cons node nodes)
    let ?gc = "gc\<lparr>to_filter_node := nodes\<rparr>"
    obtain gc1 where gc1: "filter_func w ?gc node = Inr gc1" "marks (succs w node) ?gc gc1"
      using filter_func_marks [OF 1(2)] by blast
    have node: "node \<in> reachable w" using 1(4,5) Cons by auto
    have "\<exists>gc'. mark_loop w gc1 = Inr gc' \<and> marked_blk gc' = reachable w"
    proof (rule 1(1) [OF Cons gc1(1) 1(2)])
      show "root_targets w \<subseteq> marked_blk gc1" using 1(3) gc1(2) by (auto simp: marks_def)
      show "marked_blk gc1 \<subseteq> reachable w" using 1(4) gc1(2) node by (auto simp: marks_def intro: reachable.reach_step)
      show "set (to_filter_node gc1) \<subseteq> marked_blk gc1" using 1(5) Cons gc1(2) by (auto simp: marks_def)
      show "\<forall>x\<in>marked_blk gc1 - set (to_filter_node gc1). succs w x \<subseteq> marked_blk gc1"
        using 1(6) Cons gc1(2) by (auto simp: marks_def)
    qed
    then show ?thesis using Cons gc1(1) by (subst mark_loop.simps) simp
  qed
qed

end
