(* ===== verification/Bx_Sweep.thy ===== *)
theory Bx_Sweep
  imports Bx_GC
begin

unbundle bit_operations_syntax

text \<open>
  Correctness of the collection: the sweep rebuilds the free chains, anchors and partial lists of
  the superblocks that hold marked blocks, so that a heap whose process stopped in any reachable
  state recovers with exactly its reachable blocks live.  The last section shows the two kinds of
  superblock for which the sweep does not do this.
\<close>

section \<open>The free chain of a swept superblock\<close>

lemma unat_blk_le:
  assumes "geom R" "k < nsb R" "j \<le> cls_count c"
  shows "unat (blk R k c j) = unat (Regions_lookup R SB_IDX) + k * 65536 + j * cls_size c"
proof -
  have "j * cls_size c \<le> 65536"
    using assms(3) cls_size_bounds(1) [of c] by (simp add: cls_count_def less_eq_div_iff_mult_less_eq)
  moreover have "k * 65536 + 65536 \<le> nsb R * 65536" using assms(2) by simp
  ultimately have "unat (Regions_lookup R SB_IDX) + k * 65536 + j * cls_size c < 2 ^ 64"
    using geom_nsb(2) [OF assms(1)] by simp
  then show ?thesis
    unfolding blk_def using unat_sb_addr [OF assms(1), of k] assms(2) by (subst unat_plus_of_nat) simp_all
qed

lemma blk_less:
  "geom R \<Longrightarrow> k < nsb R \<Longrightarrow> i \<le> cls_count c \<Longrightarrow> j \<le> cls_count c \<Longrightarrow> blk R k c i < blk R k c j \<longleftrightarrow> i < j"
  using cls_size_bounds(1) [of c] by (simp add: word_less_nat_alt unat_blk_le)

lemma blk_Suc: "unat bs = cls_size c \<Longrightarrow> blk R k c j + bs = blk R k c (Suc j)"
  using unat_eq_of_nat [of bs "cls_size c"] by (simp add: blk_def)

text \<open>Memory changes that are confined to the first words of some blocks.\<close>

definition writes_links :: "u64 set \<Rightarrow> memory \<Rightarrow> memory \<Rightarrow> bool" where
  "writes_links B m m' \<longleftrightarrow> (\<forall>a. (\<forall>b\<in>B. \<not> a - b < 8) \<longrightarrow> m' a = m a)"

lemma writes_links_refl [simp]: "writes_links B m m"
  by (simp add: writes_links_def)

lemma writes_links_trans: "writes_links A m m' \<Longrightarrow> writes_links B m' m'' \<Longrightarrow> writes_links (A \<union> B) m m''"
  by (simp add: writes_links_def)

lemma writes_links_mono: "writes_links A m m' \<Longrightarrow> A \<subseteq> B \<Longrightarrow> writes_links B m m'"
  unfolding writes_links_def by blast

lemma writes_links_set: "b \<in> B \<Longrightarrow> writes_links B m (pptr_set m b v)"
  by (auto simp: writes_links_def pptr_set_def store64_def)

lemma free_run_chain:
  assumes "geom R" "k < nsb R" "unat bs = cls_size c" "j \<le> j'" "j' \<le> cls_count c" "j' - j \<le> fuel"
    "chain m head L z" "blocks L" "set L \<inter> blk R k c ` {j..<j'} = {}"
  shows "\<exists>m' head'. free_run fuel m bs (blk R k c j') (blk R k c j) head cnt = Inr (m', head', cnt + of_nat (j' - j))
    \<and> (\<exists>z'. chain m' head' (rev (map (blk R k c) [j..<j']) @ L) z') \<and> blocks (rev (map (blk R k c) [j..<j']) @ L)
    \<and> (j = j' \<longrightarrow> head' = head) \<and> writes_links (blk R k c ` {j..<j'}) m m'"
  using assms(4-9)
proof (induction fuel arbitrary: m j head cnt L z)
  case 0
  then show ?case using blk_less [OF assms(1,2), of j c j'] by auto
next
  case (Suc fuel)
  let ?b = "blk R k c"
  show ?case
  proof (cases "j = j'")
    case True
    then show ?thesis using Suc.prems by auto
  next
    case False
    then have j: "j < j'" "j < cls_count c" using Suc.prems by auto
    have addr: "block_addr (?b j)" using blk_block_addr [OF assms(1,2) j(2)] .
    have nj: "?b j \<notin> set L" using Suc.prems(6) j(1) by auto
    obtain z' where ch: "chain (pptr_set m (?b j) head) (?b j) (?b j # L) z'"
      using chain_link [OF Suc.prems(4,5) addr nj] by auto
    have bl: "blocks (?b j # L)" using Suc.prems(5) addr nj by simp
    have inj: "?b j \<notin> ?b ` {Suc j..<j'}"
    proof
      assume "?b j \<in> ?b ` {Suc j..<j'}"
      then obtain i where "Suc j \<le> i" "i < j'" "?b j = ?b i" by auto
      then show False using blk_less [OF assms(1,2), of j c i] j Suc.prems(2) by simp
    qed
    have dis: "set (?b j # L) \<inter> ?b ` {Suc j..<j'} = {}" using Suc.prems(6) inj by auto
    have f: "Suc j \<le> j'" "j' - Suc j \<le> fuel" using j Suc.prems(3) by auto
    obtain m' head' where r: "free_run fuel (pptr_set m (?b j) head) bs (?b j') (?b (Suc j)) (?b j) (cnt + 1) = Inr (m', head', cnt + 1 + of_nat (j' - Suc j))"
      "\<exists>z'. chain m' head' (rev (map ?b [Suc j..<j']) @ ?b j # L) z'" "blocks (rev (map ?b [Suc j..<j']) @ ?b j # L)"
      "writes_links (?b ` {Suc j..<j'}) (pptr_set m (?b j) head) m'"
      using Suc.IH [OF f(1) Suc.prems(2) f(2) ch bl dis, of "cnt + 1"] by blast
    have "writes_links ({?b j} \<union> ?b ` {Suc j..<j'}) m m'"
      by (rule writes_links_trans [OF writes_links_set r(4)]) simp
    moreover have "{?b j} \<union> ?b ` {Suc j..<j'} = ?b ` {j..<j'}" using j(1) by (auto simp: Suc_le_eq less_le)
    moreover have "rev (map ?b [j..<j']) @ L = rev (map ?b [Suc j..<j']) @ ?b j # L" using j(1) by (simp add: upt_conv_Cons)
    moreover have "cnt + 1 + of_nat (j' - Suc j) = cnt + of_nat (j' - j)" using j(1) by (simp add: of_nat_diff)
    moreover have "?b j < ?b j'" using blk_less [OF assms(1,2)] j Suc.prems(2) by simp
    ultimately show ?thesis using r j(1) by (simp add: blk_Suc [OF assms(3)])
  qed
qed

text \<open>The indices that stay free when \<open>js\<close> are marked, from \<open>i\<close> up to the last marked one.\<close>

definition stop :: "nat \<Rightarrow> nat list \<Rightarrow> nat" where
  "stop i js = (if js = [] then i else Suc (last js))"

definition gaps :: "nat \<Rightarrow> nat list \<Rightarrow> nat \<Rightarrow> nat list" where
  "gaps i js n = filter (\<lambda>j. j \<notin> set js) [i..<n]"

lemma gaps_Cons:
  assumes "sorted_wrt (<) (j # js)" "i \<le> j" "\<forall>j'\<in>set js. j' < n" "j < n"
  shows "gaps i (j # js) n = [i..<j] @ gaps (Suc j) js n"
proof -
  have "[i..<n] = [i..<j] @ j # [Suc j..<n]" using assms(2,4) by (metis le_add_diff_inverse less_imp_le_nat upt_add_eq_append upt_conv_Cons)
  moreover have "filter (\<lambda>x. x \<notin> set (j # js)) [i..<j] = [i..<j]" using assms(1) by (auto simp: filter_id_conv)
  moreover have "filter (\<lambda>x. x \<notin> set (j # js)) [Suc j..<n] = filter (\<lambda>x. x \<notin> set js) [Suc j..<n]"
    by (rule filter_cong) auto
  ultimately show ?thesis by (simp add: gaps_def)
qed

lemma stop_Cons: "stop i (j # js) = stop (Suc j) js"
  by (simp add: stop_def)

lemma stop_bound: "\<forall>j\<in>set js. j < n \<Longrightarrow> i \<le> n \<Longrightarrow> stop i js \<le> n"
  by (simp add: stop_def Suc_leI)

lemma below_stop: "sorted_wrt (<) js \<Longrightarrow> j \<in> set js \<Longrightarrow> j < stop i js"
proof -
  assume a: "sorted_wrt (<) js" "j \<in> set js"
  then have "j \<le> last js" by (induction js) (auto simp: less_imp_le split: if_splits)
  then show ?thesis using a(2) by (auto simp: stop_def)
qed

text \<open>A superblock \<open>k\<close> of class \<open>c\<close> whose persistent descriptor fields are intact.\<close>

definition sweepable :: "world \<Rightarrow> nat \<Rightarrow> nat \<Rightarrow> bool" where
  "sweepable w k c \<longleftrightarrow> (let R = w_rgs w; d = w_desc w (desc_addr R k) in
     geom R \<and> 0 < k \<and> k < nsb R \<and> 0 < c \<and> c < NLIST \<and> (\<forall>c\<le>NLIST. sc_idx (w_heaps w ! c) = of_nat c)
     \<and> dheap d = crossptr_assign R META_IDX (heap_addr R c) \<and> dsuperblock d = crossptr_assign R SB_IDX (sb_addr R k)
     \<and> unat (block_size d) = cls_size c \<and> unat (maxcount d) = cls_count c)"

lemma sweepableD:
  assumes "sweepable w k c"
  shows "geom (w_rgs w)" "0 < k" "k < nsb (w_rgs w)" "0 < c" "c < NLIST"
    "unat (ucast (block_size (w_desc w (desc_addr (w_rgs w) k))) :: u64) = cls_size c"
    "heap_at (w_rgs w) (crossptr_deref (w_rgs w) META_IDX (dheap (w_desc w (desc_addr (w_rgs w) k)))) = Inr c"
    "\<not> crossptr_is_null (dheap (w_desc w (desc_addr (w_rgs w) k)))"
    "crossptr_get (w_rgs w) SB_IDX (dsuperblock (w_desc w (desc_addr (w_rgs w) k))) = sb_addr (w_rgs w) k"
    "sc_idx (w_heaps w ! c) \<noteq> of_nat NLIST" "sc_idx (w_heaps w ! c) \<noteq> 0"
proof -
  note s = assms [unfolded sweepable_def Let_def]
  show g: "geom (w_rgs w)" and k: "0 < k" "k < nsb (w_rgs w)" and c: "0 < c" "c < NLIST" using s by blast+
  show "unat (ucast (block_size (w_desc w (desc_addr (w_rgs w) k))) :: u64) = cls_size c"
    using s cls_size_bounds(2) [of c] by (simp add: unat_ucast_lt)
  show "heap_at (w_rgs w) (crossptr_deref (w_rgs w) META_IDX (dheap (w_desc w (desc_addr (w_rgs w) k)))) = Inr c"
    using heap_at_addr(2) [OF g, of c] s by simp
  have "heap_at (w_rgs w) (crossptr_get (w_rgs w) META_IDX (dheap (w_desc w (desc_addr (w_rgs w) k)))) = Inr c"
    using heap_at_addr(1) [OF g, of c] s by simp
  then show "\<not> crossptr_is_null (dheap (w_desc w (desc_addr (w_rgs w) k)))"
    by (auto simp: crossptr_is_null_def crossptr_get_def heap_at_def)
  show "crossptr_get (w_rgs w) SB_IDX (dsuperblock (w_desc w (desc_addr (w_rgs w) k))) = sb_addr (w_rgs w) k"
    using crossptr_sb [OF g k] s by simp
  have "sc_idx (w_heaps w ! c) = of_nat c" using s by simp
  then show "sc_idx (w_heaps w ! c) \<noteq> of_nat NLIST" "sc_idx (w_heaps w ! c) \<noteq> 0"
    using c by (simp_all add: NLIST_def word_unat_eq_iff unsigned_of_nat take_bit_nat_eq_self)
qed

lemma same_page:
  assumes "geom R" "k < nsb R" "j < cls_count c"
  shows "drop_bit SB_SHIFT (sb_addr R k) = drop_bit SB_SHIFT (blk R k c j)"
proof -
  let ?S = "unat (Regions_lookup R SB_IDX)"
  have lt: "j * cls_size c < 65536" using cls_extent [OF assms(3)] cls_size_bounds(1) [of c] by linarith
  obtain s where s: "?S = 65536 * s" using assms(1) by (auto simp: geom_def mod_eq_0_iff_dvd elim: dvdE)
  have "unat (drop_bit 16 (blk R k c j)) = s + k" using unat_blk [OF assms] lt by (simp add: unat_drop_bit s)
  moreover have "unat (drop_bit 16 (sb_addr R k)) = s + k" using unat_sb_addr [OF assms(1), of k] assms(2) by (simp add: unat_drop_bit s)
  ultimately show ?thesis by (simp add: SB_SHIFT_def word_unat_eq_iff)
qed

lemma dist_fuel:
  assumes "geom R" "k < nsb R" "i \<le> j" "j \<le> cls_count c"
  shows "j - i \<le> unat (blk R k c j - blk R k c i)"
proof -
  have "blk R k c i \<le> blk R k c j" using unat_blk_le [OF assms(1,2)] assms(3,4) cls_size_bounds(1) [of c] by (simp add: word_le_nat_alt)
  then have "unat (blk R k c j - blk R k c i) = j * cls_size c - i * cls_size c"
    using unat_blk_le [OF assms(1,2)] assms(3,4) by (simp add: unat_sub_le)
  also have "\<dots> = (j - i) * cls_size c" by (simp add: diff_mult_distrib)
  finally have e: "unat (blk R k c j - blk R k c i) = (j - i) * cls_size c" .
  show ?thesis using mult_le_mono2 [of 1 "cls_size c" "j - i"] cls_size_bounds(1) [of c] unfolding e by simp
qed

lemma blk_eq:
  "geom R \<Longrightarrow> k < nsb R \<Longrightarrow> i \<le> cls_count c \<Longrightarrow> j \<le> cls_count c \<Longrightarrow> blk R k c i = blk R k c j \<longleftrightarrow> i = j"
  using blk_less [of R k i c j] blk_less [of R k j c i] by (metis less_irrefl nat_neq_iff)

text \<open>
  What the loops have done once the blocks with indices \<open>F\<close> are on the chain, in descending order.
\<close>

definition threaded :: "regions \<Rightarrow> nat \<Rightarrow> nat \<Rightarrow> nat list \<Rightarrow> u64 list \<Rightarrow> memory \<Rightarrow> u64 \<Rightarrow> memory \<Rightarrow> u64 \<Rightarrow> bool" where
  "threaded R k c F L m head m' head' \<longleftrightarrow>
     (\<exists>z'. chain m' head' (rev (map (blk R k c) F) @ L) z') \<and> blocks (rev (map (blk R k c) F) @ L)
     \<and> (F = [] \<longrightarrow> head' = head) \<and> writes_links (blk R k c ` set F) m m'"

lemma threaded_trans:
  assumes "threaded R k c F L m head m1 head1" "threaded R k c G (rev (map (blk R k c) F) @ L) m1 head1 m2 head2"
  shows "threaded R k c (F @ G) L m head m2 head2"
  using assms writes_links_trans [of "blk R k c ` set F" m m1 "blk R k c ` set G" m2]
  by (auto simp: threaded_def image_Un)

lemma free_run_threaded:
  assumes "geom R" "k < nsb R" "unat bs = cls_size c" "j \<le> j'" "j' \<le> cls_count c"
    "chain m head L z" "blocks L" "set L \<inter> blk R k c ` {j..<j'} = {}"
  shows "\<exists>m' head'. free_run (unat (blk R k c j' - blk R k c j)) m bs (blk R k c j') (blk R k c j) head cnt = Inr (m', head', cnt + of_nat (j' - j))
    \<and> threaded R k c [j..<j'] L m head m' head'"
  using free_run_chain [OF assms(1-5) dist_fuel [OF assms(1,2,4,5)] assms(6-8), of cnt] assms(4)
  by (auto simp: threaded_def)

lemma sweep_marked_run:
  assumes "sweepable w k c"
  defines "b \<equiv> blk (w_rgs w) k c" and "sb \<equiv> sb_addr (w_rgs w) k" and "da \<equiv> desc_addr (w_rgs w) k"
  assumes "sorted_wrt (<) js" "\<forall>j\<in>set js. i \<le> j \<and> j < cls_count c" "i \<le> cls_count c"
    "xs = [] \<or> drop_bit SB_SHIFT sb \<noteq> drop_bit SB_SHIFT (hd xs)"
    "chain m head L z" "blocks L" "set L \<inter> b ` {i..<cls_count c} = {}"
  shows "\<exists>m' head' A'. sweep_marked w sb da (map b js @ xs) m head (b i) A = Inr (m', head', b (stop i js), A', xs)
    \<and> threaded (w_rgs w) k c (gaps i js (stop i js)) L m head m' head'
    \<and> acount A' = acount A + of_nat (length (gaps i js (stop i js))) \<and> astate A' = (if js = [] then astate A else SB_PARTIAL)"
  using assms(5-7,9-11)
proof (induction js arbitrary: i m head L z A)
  case Nil
  then show ?case using assms(8) by (cases xs) (auto simp: stop_def gaps_def threaded_def)
next
  case (Cons j js)
  note S = sweepableD [OF assms(1)]
  have j: "i \<le> j" "j < cls_count c" using Cons.prems(2) by auto
  let ?L = "rev (map b [i..<j]) @ L" and ?bs = "ucast (block_size (w_desc w da)) :: u64"
  have dis: "set L \<inter> b ` {i..<j} = {}" using Cons.prems(6) j(2) by fastforce
  obtain m1 h1 where r1: "free_run (unat (b j - b i)) m ?bs (b j) (b i) head (acount A) = Inr (m1, h1, acount A + of_nat (j - i))"
    "threaded (w_rgs w) k c [i..<j] L m head m1 h1"
    using free_run_threaded [OF S(1,3,6) j(1) less_imp_le [OF j(2)] Cons.prems(4,5)] dis unfolding b_def da_def by blast
  obtain z1 where z1: "chain m1 h1 ?L z1" "blocks ?L" using r1(2) by (auto simp: threaded_def b_def)
  let ?A = "A\<lparr>astate := SB_PARTIAL, acount := acount A + of_nat (j - i)\<rparr>"
  have "b ` {i..<j} \<inter> b ` {Suc j..<cls_count c} = {}" using j blk_eq [OF S(1,3)] by (fastforce simp: b_def)
  moreover have "set L \<inter> b ` {Suc j..<cls_count c} = {}" using Cons.prems(6) j(1) by fastforce
  ultimately have d: "set ?L \<inter> b ` {Suc j..<cls_count c} = {}" by auto
  have js: "sorted_wrt (<) js" "\<forall>j'\<in>set js. Suc j \<le> j' \<and> j' < cls_count c" using Cons.prems(1,2) by (auto simp: Suc_le_eq)
  obtain m2 h2 A2 where r2: "sweep_marked w sb da (map b js @ xs) m1 h1 (b (Suc j)) ?A = Inr (m2, h2, b (stop (Suc j) js), A2, xs)"
    "threaded (w_rgs w) k c (gaps (Suc j) js (stop (Suc j) js)) ?L m1 h1 m2 h2"
    "acount A2 = acount ?A + of_nat (length (gaps (Suc j) js (stop (Suc j) js)))" "astate A2 = (if js = [] then astate ?A else SB_PARTIAL)"
    using Cons.IH [OF js _ z1 d, of ?A] j(2) by auto
  have g: "gaps i (j # js) (stop i (j # js)) = [i..<j] @ gaps (Suc j) js (stop (Suc j) js)"
    using gaps_Cons [OF Cons.prems(1) j(1), of "stop i (j # js)"] below_stop [OF Cons.prems(1), of _ i] by (simp add: stop_Cons)
  have "sweep_marked w sb da (map b (j # js) @ xs) m head (b i) A = sweep_marked w sb da (map b js @ xs) m1 h1 (b (Suc j)) ?A"
    using r1(1) same_page [OF S(1,3) j(2)] S(6-10) by (simp add: Let_def blk_Suc b_def sb_def da_def)
  moreover have "threaded (w_rgs w) k c (gaps i (j # js) (stop i (j # js))) L m head m2 h2"
    unfolding g by (rule threaded_trans [OF r1(2)]) (use r2(2) in \<open>simp add: b_def\<close>)
  moreover have "acount A2 = acount A + of_nat (length (gaps i (j # js) (stop i (j # js))))"
    using r2(3) j(1) unfolding g by (simp add: of_nat_diff)
  moreover have "astate A2 = SB_PARTIAL" using r2(4) by simp
  ultimately show ?case using r2(1) by (simp add: stop_Cons)
qed

section \<open>One round of the sweep\<close>

lemma writes_links_get:
  assumes "writes_links B m m'" "\<forall>b\<in>B. aligned8 b" "aligned8 x" "x \<notin> B"
  shows "pptr_get m x = pptr_get m' x"
proof -
  have "m (x + of_nat i) = m' (x + of_nat i)" if i: "i < 8" for i
  proof -
    have "\<not> x + of_nat i - b < 8" if "b \<in> B" for b
    proof -
      have ne: "x \<noteq> b" using that assms(4) by blast
      have d: "8 \<le> x - b" "8 \<le> b - x" using aligned8_diff [of b x] aligned8_diff [of x b] assms(2,3) that ne by auto
      have "unat (b - x) = 2 ^ 64 - unat (x - b)" using unat_uminus [of "x - b"] ne by simp
      then have le: "8 \<le> unat (x - b)" "unat (x - b) + 8 \<le> 2 ^ 64" using d by (simp_all add: word_le_nat_alt)
      have u: "unat (of_nat i :: u64) = i" using i by (simp add: unsigned_of_nat take_bit_nat_eq_self)
      have "unat (x - b + of_nat i) = unat (x - b) + i" using le i u by (subst unat_add_lt) simp_all
      then have "\<not> x - b + of_nat i < 8" using le by (simp add: word_less_nat_alt)
      then show ?thesis by (simp add: algebra_simps)
    qed
    then show ?thesis using assms(1) by (simp add: writes_links_def)
  qed
  then show ?thesis unfolding pptr_get_def by (intro arg_cong2 [where f = from_pptr_off] load64_cong) auto
qed

lemma heap_inv_add_live:
  assumes "heap_inv w g" "g_owner g k = Some c" "X \<subseteq> sb_blocks (w_rgs w) k c" "X \<inter> set (g_free g k) = {}" "g_cache g c = []"
  shows "heap_inv w (g\<lparr>g_live := g_live g \<union> X\<rparr>)"
proof -
  note i = heap_invD [OF assms(1)]
  have "inv_live (w_rgs w) (g\<lparr>g_live := g_live g \<union> X\<rparr>)"
    unfolding inv_live_def
  proof
    fix x assume "x \<in> g_live (g\<lparr>g_live := g_live g \<union> X\<rparr>)"
    then consider "x \<in> g_live g" | "x \<in> X" by auto
    then show "\<exists>k c. g_owner (g\<lparr>g_live := g_live g \<union> X\<rparr>) k = Some c \<and> x \<in> sb_blocks (w_rgs w) k c \<and> x \<notin> set (g_free (g\<lparr>g_live := g_live g \<union> X\<rparr>) k)
        \<and> (c < NLIST \<longrightarrow> x \<notin> set (g_cache (g\<lparr>g_live := g_live g \<union> X\<rparr>) c))"
    proof cases
      case 1
      then show ?thesis using i(8) by (auto simp: inv_live_def)
    next
      case 2
      then show ?thesis using assms(2-5) by (intro exI [of _ k] exI [of _ c]) auto
    qed
  qed
  then show ?thesis using i by (intro heap_invI) (simp_all add: inv_defs)
qed

text \<open>What a round keeps besides the superblock it works on.\<close>

definition sweep_frame :: "nat \<Rightarrow> sweep_state \<Rightarrow> sweep_state \<Rightarrow> bool" where
  "sweep_frame k s s' \<longleftrightarrow> (let w = sw_world s; w' = sw_world s'; R = w_rgs w in
     w_rgs w' = R \<and> w_queue w' = w_queue w \<and> w_flist w' = w_flist w \<and> w_roots w' = w_roots w
     \<and> (\<forall>a. a \<noteq> desc_addr R k \<longrightarrow> w_desc w' a = w_desc w a)
     \<and> sw_sb s' = sb_addr R (Suc k) \<and> sw_desc s' = desc_addr R (Suc k))"

lemma sb_addr_Suc: "sb_addr R k + SBSIZE = sb_addr R (Suc k)"
  by (simp add: sb_addr_def SBSIZE_eq)

lemma sweep_step_unused:
  assumes "heap_inv (sw_world s) g" "g_owner g k = None" "k < nsb (w_rgs (sw_world s))"
    "sw_sb s = sb_addr (w_rgs (sw_world s)) k" "sw_desc s = desc_addr (w_rgs (sw_world s)) k"
    "sw_marked s = [] \<or> drop_bit SB_SHIFT (sw_sb s) \<noteq> drop_bit SB_SHIFT (hd (sw_marked s))"
  shows "\<exists>s'. sweep_step s = Inr s' \<and> heap_inv (sw_world s') g \<and> sweep_frame k s s' \<and> sw_marked s' = sw_marked s
    \<and> w_mem (sw_world s') = w_mem (sw_world s)"
proof -
  let ?w = "sw_world s"
  have "sweep_marked ?w (sw_sb s) (sw_desc s) (sw_marked s) (w_mem ?w) 0 (sw_sb s) A = Inr (w_mem ?w, 0, sw_sb s, A, sw_marked s)" for A
    using assms(6) by (cases "sw_marked s") auto
  then have step: "sweep_step s = Inr (sweep_empty s)"
    by (simp add: sweep_step_def Let_def Anchor3_def)
  have small: "k < 2 ^ 24" using assms(3) geom_nsb(1) [OF heap_invD(1) [OF assms(1)]] by linarith
  have "heap_inv (sw_world (sweep_empty s)) g"
    using heap_inv_upd_unowned [OF assms(1,2) small] by (simp add: sweep_empty_def Let_def assms(5))
  moreover have "sweep_frame k s (sweep_empty s)"
    using assms(4,5) by (simp add: sweep_frame_def sweep_empty_def Let_def upd_desc_def sb_addr_Suc desc_addr_Suc)
  moreover have "w_mem (sw_world (sweep_empty s)) = w_mem ?w" "sw_marked (sweep_empty s) = sw_marked s"
    by (simp_all add: sweep_empty_def Let_def)
  ultimately show ?thesis using step by blast
qed

text \<open>The chain that the two loops leave in a superblock whose blocks \<open>js\<close> are marked.\<close>

lemma gaps_stop: "sorted_wrt (<) js \<Longrightarrow> \<forall>j\<in>set js. j < n \<Longrightarrow> gaps 0 js (stop 0 js) @ [stop 0 js..<n] = gaps 0 js n"
proof -
  assume a: "sorted_wrt (<) js" "\<forall>j\<in>set js. j < n"
  have "[0..<n] = [0..<stop 0 js] @ [stop 0 js..<n]" using stop_bound [OF a(2), of 0] by (metis le0 le_add_diff_inverse upt_add_eq_append)
  moreover have "j \<notin> set js" if "stop 0 js \<le> j" for j using below_stop [OF a(1), of j 0] that by auto
  then have "filter (\<lambda>j. j \<notin> set js) [stop 0 js..<n] = [stop 0 js..<n]" by (simp add: filter_id_conv)
  ultimately show ?thesis by (simp add: gaps_def)
qed

lemma sweep_small_lim:
  assumes "sweepable w k c"
  shows "sb_addr (w_rgs w) k + ucast (maxcount (w_desc w (desc_addr (w_rgs w) k)) * block_size (w_desc w (desc_addr (w_rgs w) k))) = blk (w_rgs w) k c (cls_count c)"
proof -
  let ?d = "w_desc w (desc_addr (w_rgs w) k)"
  have le: "cls_count c * cls_size c \<le> 65536" using cls_extent [of "cls_count c - 1" c] cls_count_bounds(1) [of c]
    by (cases "cls_count c") auto
  have "unat (maxcount ?d) = cls_count c" "unat (block_size ?d) = cls_size c" using assms by (simp_all add: sweepable_def Let_def)
  then have "unat (maxcount ?d * block_size ?d) = cls_count c * cls_size c"
    using le by (subst unat_mult_lem [THEN iffD1]) auto
  then have "unat (ucast (maxcount ?d * block_size ?d) :: u64) = cls_count c * cls_size c" using le by (simp add: unat_ucast_lt)
  then show ?thesis using unat_eq_of_nat by (metis blk_def)
qed

text \<open>
  The superblock's state after the round: the descriptor \<open>d\<close> describes the chain of the unmarked
  blocks, and \<open>heap_inv\<close> holds with the superblock owned and its marked blocks live.
\<close>

lemma rebuilt_inv:
  assumes "heap_inv w g" "sweepable w k c" "g_owner g k = None" "of_nat k \<notin> set (queue_abs QUEUE_CAP (w_queue w))" "g_cache g c = []"
    "\<forall>j\<in>set js. j < cls_count c" "threaded (w_rgs w) k c (gaps 0 js (cls_count c)) [] (w_mem w) 0 (w_mem w') head"
    and w': "w_rgs w' = w_rgs w" "w_queue w' = w_queue w" "w_flist w' = w_flist w" "w_desc w' = (w_desc w)(desc_addr (w_rgs w) k := d)"
    and d: "desc_ok (w_rgs w) d k c (rev (map (blk (w_rgs w) k c) (gaps 0 js (cls_count c))))"
    and part: "length (w_heaps w') = NLIST + 1" "\<forall>c'\<le>NLIST. sc_idx (w_heaps w' ! c') = of_nat c'"
      "\<And>c'. c' < NLIST \<Longrightarrow> c' \<noteq> c \<Longrightarrow> phead w' c' = phead w c'" "pchain (w_rgs w) (w_desc w') (phead w' c) ps" "distinct ps"
      "set ps = set (g_part g c) \<union> (if gaps 0 js (cls_count c) = [] then {} else {k})"
  shows "\<exists>g'. heap_inv w' g' \<and> g_owner g' = (g_owner g)(k := Some c) \<and> g_live g' = g_live g \<union> blk (w_rgs w) k c ` set js \<and> g_cache g' = g_cache g"
proof -
  note i = heap_invD [OF assms(1)]
  note S = sweepableD [OF assms(2)]
  note cf = cache_facts [OF assms(1) S(5)]
  let ?b = "blk (w_rgs w) k c" and ?F = "gaps 0 js (cls_count c)"
  let ?fs = "rev (map ?b ?F)" and ?g = "g_move g k c (rev (map ?b ?F)) [] ps"
  have F: "set ?F = {..<cls_count c} - set js" by (auto simp: gaps_def)
  have sub: "set ?fs \<subseteq> sb_blocks (w_rgs w) k c" using F by (auto simp: sb_blocks_def)
  have th: "\<exists>z. chain (w_mem w') head ?fs z" "blocks ?fs" "writes_links (set ?fs) (w_mem w) (w_mem w')"
    using assms(7) by (simp_all add: threaded_def)
  have hd: "\<exists>z. chain (w_mem w') (hd ?fs) ?fs z"
  proof (cases ?fs)
    case (Cons y ys)
    then show ?thesis using th(1) by auto
  qed auto
  have al: "\<forall>x\<in>set ?fs. aligned8 x" using th(2) by (auto simp: blocks_def block_addr_def)
  have "heap_inv w' ?g"
  proof (rule heap_inv_move [OF assms(1) S(5,2,3), where d = d and f = "w_flist w ! c"])
    show "flist_rep (w_mem w', w_flist w ! c) []" using cf(1) by (auto simp: assms(5) flist_rep_def)
    show "w_flist w' = (w_flist w)[c := w_flist w ! c]" by (simp add: w')
    show "g_live g \<inter> set ?fs = {}" using unowned_not_live [OF assms(1,3) S(3), of c] sub by auto
    show "pptr_get (w_mem w) x = pptr_get (w_mem w') x" if "x \<in> linked_else g k c" for x
    proof (rule writes_links_get [OF th(3) al])
      show "x \<notin> set ?fs" using linked_else_not_in_sb [OF assms(1) S(5) _ S(3) that] assms(3) sub by auto
      show "aligned8 x" using linked_blocks [OF assms(1), of x] linked_else_sub that by (metis block_addr_def in_mono)
    qed
    show "set ps = {k'. g_owner g k' = Some c \<and> g_free g k' \<noteq> [] \<and> k' \<noteq> k} \<union> (if ?fs = [] then {} else {k})"
      using part(6) part_facts(3) [OF assms(1) S(5)] assms(3) by auto
    show "distinct ?fs" using th(2) by (simp add: blocks_def)
  qed (use assms(3,4) cf w' d sub hd part in auto)
  moreover have "?b ` set js \<subseteq> sb_blocks (w_rgs w) k c" using assms(6) by (auto simp: sb_blocks_def)
  moreover have "?b ` set js \<inter> set ?fs = {}"
    using F assms(6) blk_eq [OF S(1,3)] by fastforce
  ultimately have "heap_inv w' (?g\<lparr>g_live := g_live ?g \<union> ?b ` set js\<rparr>)"
    by (intro heap_inv_add_live [where k = k and c = c]) (simp_all add: w')
  moreover have "(g_cache g)(c := []) = g_cache g" using assms(5) by auto
  ultimately show ?thesis by (intro exI [of _ "?g\<lparr>g_live := g_live ?g \<union> ?b ` set js\<rparr>"]) simp
qed

definition sweep_next :: "sweep_state \<Rightarrow> u64 list \<Rightarrow> world \<Rightarrow> sweep_state" where
  "sweep_next s xs w = s\<lparr>sw_marked := xs, sw_sb := sw_sb s + SBSIZE, sw_desc := sw_desc s + DESCSIZE, sw_world := w\<rparr>"

lemma threaded_count:
  assumes "geom R" "k < nsb R" "c < NLIST" "F = gaps 0 js (cls_count c)"
  shows "length F \<le> 8192" "(of_nat (length F) :: 31 word) = 0 \<longleftrightarrow> F = []" "unat (of_nat (length F) :: 31 word) = length F"
proof -
  have "length F \<le> length [0..<cls_count c]" unfolding assms(4) gaps_def by (rule length_filter_le)
  then show l: "length F \<le> 8192" using cls_count_bounds(2) [of c] by simp
  then show u: "unat (of_nat (length F) :: 31 word) = length F" by (simp add: unsigned_of_nat take_bit_nat_eq_self)
  show "(of_nat (length F) :: 31 word) = 0 \<longleftrightarrow> F = []" unfolding unat_0_iff [symmetric] u by simp
qed

lemma sweep_step_loops:
  fixes s :: sweep_state
  defines "w \<equiv> sw_world s" and "R \<equiv> w_rgs (sw_world s)" and "da \<equiv> sw_desc s"
  assumes "sweepable w k c" "sw_sb s = sb_addr R k" "sw_desc s = desc_addr R k" "sw_marked s = map (blk R k c) js @ xs"
    "js \<noteq> []" "sorted_wrt (<) js" "\<forall>j\<in>set js. j < cls_count c" "xs = [] \<or> drop_bit SB_SHIFT (sw_sb s) \<noteq> drop_bit SB_SHIFT (hd xs)"
  obtains m head where "threaded R k c (gaps 0 js (cls_count c)) [] (w_mem w) 0 m head"
    "gaps 0 js (cls_count c) = [] \<longrightarrow> sweep_step s = Inr (sweep_next s xs (upd_desc da (\<lambda>d. d\<lparr>next_free := atomic_pptr_store da 0,
       next_partial := atomic_pptr_store (da + 8) 0, danchor := \<lparr>avail = ucast (maxcount d), acount = 0, astate = SB_FULL\<rparr>\<rparr>) (w\<lparr>w_mem := m\<rparr>)))"
    "gaps 0 js (cls_count c) \<noteq> [] \<longrightarrow> sweep_step s = bindE (heap_push_partial (upd_desc da (\<lambda>d. d\<lparr>next_free := atomic_pptr_store da 0\<rparr>) (w\<lparr>w_mem := m\<rparr>)) da)
       (\<lambda>w. Inr (sweep_next s xs (upd_desc da (\<lambda>d. d\<lparr>danchor := \<lparr>avail = of_nat (last (gaps 0 js (cls_count c))),
          acount = of_nat (length (gaps 0 js (cls_count c))), astate = SB_PARTIAL\<rparr>\<rparr>) w)))"
proof -
  note S = sweepableD [OF assms(4), unfolded w_def, folded R_def]
  let ?b = "blk R k c" and ?n = "cls_count c" and ?d = "w_desc w da" and ?F = "gaps 0 js (cls_count c)"
  let ?bs = "ucast (block_size ?d) :: u64"
  have da: "da = desc_addr R k" by (simp add: da_def assms(6))
  have bs: "unat ?bs = cls_size c" using S(6) by (simp add: w_def da)
  have lim: "sb_addr R k + ucast (maxcount ?d * block_size ?d) = ?b ?n" using sweep_small_lim [OF assms(4)] by (simp add: w_def R_def da)
  have st: "stop 0 js \<le> ?n" using stop_bound [OF assms(10)] by simp
  obtain m1 h1 A1 where r1: "sweep_marked w (sb_addr R k) da (map ?b js @ xs) (w_mem w) 0 (?b 0) (Anchor3 0 0 SB_EMPTY) = Inr (m1, h1, ?b (stop 0 js), A1, xs)"
    "threaded R k c (gaps 0 js (stop 0 js)) [] (w_mem w) 0 m1 h1" "acount A1 = of_nat (length (gaps 0 js (stop 0 js)))" "astate A1 = SB_PARTIAL"
    using sweep_marked_run [OF assms(4), of js 0 xs "w_mem w" 0 "[]" 0 "Anchor3 0 0 SB_EMPTY"] assms(8-11)
    by (auto simp: w_def R_def da Anchor3_def assms(5))
  let ?L = "rev (map ?b (gaps 0 js (stop 0 js)))"
  obtain z where z: "chain m1 h1 ?L z" "blocks ?L" using r1(2) by (auto simp: threaded_def)
  have "set (gaps 0 js (stop 0 js)) \<subseteq> {..<stop 0 js}" by (auto simp: gaps_def)
  then have dis: "set ?L \<inter> ?b ` {stop 0 js..<?n} = {}" using blk_eq [OF S(1,3)] st by fastforce
  obtain m2 h2 where r2: "free_run (unat (?b ?n - ?b (stop 0 js))) m1 ?bs (?b ?n) (?b (stop 0 js)) h1 (acount A1) = Inr (m2, h2, acount A1 + of_nat (?n - stop 0 js))"
    "threaded R k c [stop 0 js..<?n] ?L m1 h1 m2 h2"
    using free_run_threaded [OF S(1,3) bs st le_refl z dis] by blast
  have F: "?F = gaps 0 js (stop 0 js) @ [stop 0 js..<?n]" using gaps_stop [OF assms(9,10)] by simp
  have cnt: "acount A1 + of_nat (?n - stop 0 js) = of_nat (length ?F)" by (simp add: F r1(3))
  have th: "threaded R k c ?F [] (w_mem w) 0 m2 h2" unfolding F by (rule threaded_trans [OF r1(2)]) (use r2(2) in simp)
  note tc = threaded_count [OF S(1,3,5) refl, of js]
  have heap: "heap_at R (crossptr_deref R META_IDX (dheap ?d)) = Inr c" "sc_idx (w_heaps w ! c) \<noteq> 0" using S by (simp_all add: w_def da)
  have small: "sweep_step s = sweep_small (s\<lparr>sw_world := w\<lparr>w_mem := m1\<rparr>, sw_marked := xs\<rparr>) m1 h1 (?b (stop 0 js)) A1"
    using r1(1,4) heap by (simp add: sweep_step_def Let_def assms(5,7) w_def [symmetric] da_def [symmetric] R_def [symmetric] blk_0)
      (simp add: R_def w_def)
  have last: "last ?F < ?n" "h2 = ?b (last ?F)" if ne: "?F \<noteq> []"
  proof -
    have "last ?F \<in> set ?F" using ne by simp
    then show "last ?F < ?n" by (simp add: gaps_def)
    obtain z2 where "chain m2 h2 (rev (map ?b ?F)) z2" using th by (auto simp: threaded_def)
    moreover obtain G where G: "?F = G @ [last ?F]" using ne by (metis append_butlast_last_id)
    have "rev (map ?b ?F) = ?b (last ?F) # rev (map ?b G)" by (subst G) simp
    ultimately show "h2 = ?b (last ?F)" by simp
  qed
  show thesis
  proof (rule that [OF th]; rule impI)
    assume "?F = []"
    then show "sweep_step s = Inr (sweep_next s xs (upd_desc da (\<lambda>d. d\<lparr>next_free := atomic_pptr_store da 0,
       next_partial := atomic_pptr_store (da + 8) 0, danchor := \<lparr>avail = ucast (maxcount d), acount = 0, astate = SB_FULL\<rparr>\<rparr>) (w\<lparr>w_mem := m2\<rparr>)))"
      using r2(1) lim cnt unfolding small
      by (simp add: sweep_small_def Let_def assms(5) w_def [symmetric] da_def [symmetric] R_def [symmetric] sweep_next_def)
  next
    assume ne: "?F \<noteq> []"
    note l = last [OF ne]
    have off: "unat (h2 - sb_addr R k) = last ?F * cls_size c"
    proof -
      have "last ?F * cls_size c < 2 ^ 64" using cls_extent [OF l(1)] cls_size_bounds(1) [of c] by simp
      then show ?thesis by (simp add: l(2) blk_def unsigned_of_nat take_bit_nat_eq_self del: of_nat_mult)
    qed
    have "unat ((h2 - sb_addr R k) mod ?bs) = 0" "unat ((h2 - sb_addr R k) div ?bs) = last ?F"
      using cls_size_bounds(1) [of c] by (simp_all add: unat_mod_distrib unat_div_distrib off bs)
    moreover have "last ?F < 2 ^ 31" using l(1) cls_count_bounds(2) [of c] by simp
    ultimately have div: "(h2 - sb_addr R k) mod ?bs = 0" "(ucast ((h2 - sb_addr R k) div ?bs) :: 31 word) = of_nat (last ?F)"
      using unat_eq_of_nat [of "ucast ((h2 - sb_addr R k) div ?bs) :: 31 word" "last ?F"]
      by (simp_all add: unat_ucast_lt unat_eq_zero)
    have nz: "h2 \<noteq> 0" using blk_block_addr [OF S(1,3) l(1)] by (simp add: l(2) block_addr_def)
    show "sweep_step s = bindE (heap_push_partial (upd_desc da (\<lambda>d. d\<lparr>next_free := atomic_pptr_store da 0\<rparr>) (w\<lparr>w_mem := m2\<rparr>)) da)
       (\<lambda>w. Inr (sweep_next s xs (upd_desc da (\<lambda>d. d\<lparr>danchor := \<lparr>avail = of_nat (last ?F), acount = of_nat (length ?F), astate = SB_PARTIAL\<rparr>\<rparr>) w)))"
      using r2(1) lim cnt div nz tc(2) ne unfolding small
      by (simp add: sweep_small_def Let_def assms(5) w_def [symmetric] da_def [symmetric] R_def [symmetric] sweep_next_def)
  qed
qed

lemma sweep_step_used:
  fixes s :: sweep_state
  defines "w \<equiv> sw_world s" and "R \<equiv> w_rgs (sw_world s)" and "da \<equiv> sw_desc s"
  assumes "sweepable w k c" "sw_sb s = sb_addr R k" "sw_desc s = desc_addr R k" "sw_marked s = map (blk R k c) js @ xs"
    "js \<noteq> []" "sorted_wrt (<) js" "\<forall>j\<in>set js. j < cls_count c" "xs = [] \<or> drop_bit SB_SHIFT (sw_sb s) \<noteq> drop_bit SB_SHIFT (hd xs)"
    and g: "heap_inv w g" "g_owner g k = None" "of_nat k \<notin> set (queue_abs QUEUE_CAP (w_queue w))" "g_cache g c = []"
  shows "\<exists>s' g'. sweep_step s = Inr s' \<and> heap_inv (sw_world s') g' \<and> sweep_frame k s s' \<and> sw_marked s' = xs
    \<and> g_owner g' = (g_owner g)(k := Some c) \<and> g_live g' = g_live g \<union> blk R k c ` set js \<and> g_cache g' = g_cache g
    \<and> writes_links (sb_blocks R k c - blk R k c ` set js) (w_mem w) (w_mem (sw_world s'))"
proof -
  note S = sweepableD [OF assms(4), unfolded w_def, folded R_def]
  note pf = part_facts [OF g(1) S(5)]
  have Rw: "w_rgs w = R" by (simp add: w_def R_def)
  have da: "da = desc_addr R k" by (simp add: da_def assms(6))
  let ?F = "gaps 0 js (cls_count c)" and ?b = "blk R k c"
  let ?fs = "rev (map ?b ?F)"
  obtain m head where th: "threaded R k c ?F [] (w_mem w) 0 m head"
    and full: "?F = [] \<longrightarrow> sweep_step s = Inr (sweep_next s xs (upd_desc da (\<lambda>d. d\<lparr>next_free := atomic_pptr_store da 0,
       next_partial := atomic_pptr_store (da + 8) 0, danchor := \<lparr>avail = ucast (maxcount d), acount = 0, astate = SB_FULL\<rparr>\<rparr>) (w\<lparr>w_mem := m\<rparr>)))"
    and part: "?F \<noteq> [] \<longrightarrow> sweep_step s = bindE (heap_push_partial (upd_desc da (\<lambda>d. d\<lparr>next_free := atomic_pptr_store da 0\<rparr>) (w\<lparr>w_mem := m\<rparr>)) da)
       (\<lambda>w. Inr (sweep_next s xs (upd_desc da (\<lambda>d. d\<lparr>danchor := \<lparr>avail = of_nat (last ?F), acount = of_nat (length ?F), astate = SB_PARTIAL\<rparr>\<rparr>) w)))"
    unfolding w_def R_def da_def by (rule sweep_step_loops [OF assms(4) [unfolded w_def] assms(5-11) [unfolded R_def]])
  have Fset: "set ?F = {..<cls_count c} - set js" by (auto simp: gaps_def)
  have "writes_links (?b ` set ?F) (w_mem w) m" using th by (simp add: threaded_def)
  moreover have "?b ` set ?F \<subseteq> sb_blocks R k c - ?b ` set js"
    using Fset assms(10) blk_eq [OF S(1,3)] by (fastforce simp: sb_blocks_def)
  ultimately have wl: "writes_links (sb_blocks R k c - ?b ` set js) (w_mem w) m" by (rule writes_links_mono)
  have frame: "sweep_frame k s (sweep_next s xs w')" if "w_rgs w' = R" "w_queue w' = w_queue w" "w_flist w' = w_flist w" "w_roots w' = w_roots w"
    "\<forall>a. a \<noteq> da \<longrightarrow> w_desc w' a = w_desc w a" for w'
    using that by (simp add: sweep_frame_def sweep_next_def Let_def w_def R_def da assms(5,6) sb_addr_Suc desc_addr_Suc)
  have st: "dheap (w_desc w da) = crossptr_assign R META_IDX (heap_addr R c)" "dsuperblock (w_desc w da) = crossptr_assign R SB_IDX (sb_addr R k)"
    "unat (block_size (w_desc w da)) = cls_size c" "unat (maxcount (w_desc w da)) = cls_count c"
    using assms(4) by (simp_all add: sweepable_def Let_def Rw da)
  have small: "k < 2 ^ 24" using S(3) geom_nsb(1) [OF S(1)] by linarith
  have kp: "k \<notin> set (g_part g c)" using pf(3) g(2) by simp
  have psm: "\<forall>k\<in>set (g_part g c). k < 2 ^ 24" using part_small [OF g(1) S(5)] by auto
  have chp: "pchain R ((w_desc w)(da := d')) (phead w c) (g_part g c)" for d'
    using pf(2) pchain_upd_other [OF S(1) kp small psm] by (simp add: Rw da)
  show ?thesis
  proof (cases "?F = []")
    case True
    let ?w' = "upd_desc da (\<lambda>d. d\<lparr>next_free := atomic_pptr_store da 0, next_partial := atomic_pptr_store (da + 8) 0,
       danchor := \<lparr>avail = ucast (maxcount d), acount = 0, astate = SB_FULL\<rparr>\<rparr>) (w\<lparr>w_mem := m\<rparr>)"
    have "\<exists>g'. heap_inv ?w' g' \<and> g_owner g' = (g_owner g)(k := Some c) \<and> g_live g' = g_live g \<union> blk (w_rgs w) k c ` set js \<and> g_cache g' = g_cache g"
    proof (rule rebuilt_inv [OF g(1) assms(4) g(2-4) assms(10), where head = head and ps = "g_part g c"])
      show "w_desc ?w' = (w_desc w)(desc_addr (w_rgs w) k := (w_desc w da)\<lparr>next_free := atomic_pptr_store da 0, next_partial := atomic_pptr_store (da + 8) 0,
         danchor := \<lparr>avail = ucast (maxcount (w_desc w da)), acount = 0, astate = SB_FULL\<rparr>\<rparr>)" by (simp add: Rw da)
      show "pchain (w_rgs w) (w_desc ?w') (phead ?w' c) (g_part g c)" using chp by (simp add: Rw)
    qed (use th pf True st in \<open>auto simp: Rw desc_ok_def anchor_ok_def\<close>)
    then obtain g' where "heap_inv ?w' g'" "g_owner g' = (g_owner g)(k := Some c)" "g_live g' = g_live g \<union> ?b ` set js" "g_cache g' = g_cache g"
      unfolding Rw by blast
    moreover have "sweep_frame k s (sweep_next s xs ?w')" by (rule frame) (simp_all add: Rw upd_desc_def)
    ultimately show ?thesis using full True wl
      by (intro exI [of _ "sweep_next s xs ?w'"] exI [of _ g']) (simp add: sweep_next_def)
  next
    case False
    let ?w1 = "upd_desc da (\<lambda>d. d\<lparr>next_free := atomic_pptr_store da 0\<rparr>) (w\<lparr>w_mem := m\<rparr>)"
    have "dheap (w_desc ?w1 (desc_addr (w_rgs ?w1) k)) = crossptr_assign (w_rgs ?w1) META_IDX (heap_addr (w_rgs ?w1) c)"
      using st(1) by (simp add: Rw da)
    then obtain cell np where push: "heap_push_partial ?w1 da = Inr (set_partial c cell (upd_desc da (\<lambda>d. d\<lparr>next_partial := np\<rparr>) ?w1))"
      "pc_ptr (acpc_load R DESC_IDX cell) = da"
      "pchain R ((w_desc ?w1)(da := (w_desc ?w1 da)\<lparr>next_partial := np\<rparr>)) da (k # g_part g c)"
      using heap_push_partial_spec [of ?w1 c k "g_part g c", OF _ _ S(5) _ S(2) small _ kp psm] S(1) pf(4) chp
      by (simp add: Rw da) metis
    define A where "A = \<lparr>avail = of_nat (last ?F), acount = of_nat (length ?F) :: 31 word, astate = SB_PARTIAL\<rparr>"
    let ?w2 = "set_partial c cell (upd_desc da (\<lambda>d. d\<lparr>next_partial := np\<rparr>) ?w1)"
    let ?w' = "upd_desc da (\<lambda>d. d\<lparr>danchor := A\<rparr>) ?w2"
    let ?d = "(w_desc w da)\<lparr>next_free := atomic_pptr_store da 0, next_partial := np, danchor := A\<rparr>"
    have wd: "w_desc ?w' = (w_desc w)(da := ?d)" by simp
    have last: "last ?F \<in> set ?F" using False by simp
    then have lc: "last ?F < cls_count c" "last ?F \<notin> set js" using Fset by auto
    have hd: "hd ?fs = ?b (last ?F)" using False by (simp add: hd_rev last_map)
    note tc = threaded_count [OF S(1,3,5) refl, of js]
    have av: "unat (of_nat (last ?F) :: 31 word) = last ?F" using lc(1) cls_count_bounds(2) [of c] by (simp add: unsigned_of_nat take_bit_nat_eq_self)
    have lt: "length ?F < cls_count c"
    proof -
      obtain j where j: "j \<in> set js" using assms(8) by (metis list.set_intros(1) neq_Nil_conv)
      have "card (set ?F) < card {..<cls_count c}" unfolding Fset using j assms(10) by (intro psubset_card_mono) auto
      then show ?thesis by (simp add: gaps_def distinct_card [symmetric])
    qed
    have dok: "desc_ok R ?d k c ?fs"
      using st av tc(3) lt False lc(1) hd by (simp add: desc_ok_def anchor_ok_def A_def)
    note hp = heaps_set_partial [of "upd_desc da (\<lambda>d. d\<lparr>next_partial := np\<rparr>) ?w1", simplified, OF pf(4) [simplified] S(5), where cell = cell]
    have pc: "pchain R ((w_desc w)(da := ?d)) da (k # g_part g c)"
    proof -
      have "pchain R ((w_desc w)(da := ?d)) da (k # g_part g c) = pchain R ((w_desc ?w1)(da := (w_desc ?w1 da)\<lparr>next_partial := np\<rparr>)) da (k # g_part g c)"
        by (rule pchain_cong) simp
      then show ?thesis using push(3) by blast
    qed
    have "\<exists>g'. heap_inv ?w' g' \<and> g_owner g' = (g_owner g)(k := Some c) \<and> g_live g' = g_live g \<union> blk (w_rgs w) k c ` set js \<and> g_cache g' = g_cache g"
    proof (rule rebuilt_inv [OF g(1) assms(4) g(2-4) assms(10), where head = head and ps = "k # g_part g c" and d = ?d])
      show "w_desc ?w' = (w_desc w)(desc_addr (w_rgs w) k := ?d)" using wd by (simp add: Rw da)
      show "pchain (w_rgs w) (w_desc ?w') (phead ?w' c) (k # g_part g c)"
      proof -
        have "phead ?w' c = da" using push(2) hp(4) by (simp add: Rw)
        then show ?thesis unfolding wd Rw using pc by (simp only:)
      qed
    qed (use th pf False kp dok hp in \<open>auto simp: Rw\<close>)
    then obtain g' where "heap_inv ?w' g'" "g_owner g' = (g_owner g)(k := Some c)" "g_live g' = g_live g \<union> ?b ` set js" "g_cache g' = g_cache g"
      unfolding Rw by blast
    moreover have "sweep_frame k s (sweep_next s xs ?w')" by (rule frame) (simp_all add: Rw upd_desc_def set_partial_def)
    moreover have "sweep_step s = Inr (sweep_next s xs ?w')" using part False push(1) by (simp add: A_def)
    ultimately show ?thesis using wl
      by (intro exI [of _ "sweep_next s xs ?w'"] exI [of _ g']) (simp add: sweep_next_def)
  qed
qed

section \<open>The whole sweep\<close>

text \<open>
  A heap that a crash has left: the persistent descriptor fields of the superblocks that \<open>own\<close>
  assigns to a class, the queue and the sizes of the heaps are intact, and the marked addresses
  \<open>M\<close> are blocks of those superblocks.  The classes are the small ones except class 0.
\<close>

definition recoverable :: "world \<Rightarrow> (nat \<Rightarrow> nat option) \<Rightarrow> u64 set \<Rightarrow> bool" where
  "recoverable w own M \<longleftrightarrow> geom (w_rgs w) \<and> length (w_heaps w) = NLIST + 1 \<and> (\<forall>c\<le>NLIST. sc_idx (w_heaps w ! c) = of_nat c)
     \<and> ring_inv (w_queue w) \<and> distinct (queue_abs QUEUE_CAP (w_queue w))
     \<and> (\<forall>i\<in>set (queue_abs QUEUE_CAP (w_queue w)). 0 < unat i \<and> unat i < nsb (w_rgs w) \<and> own (unat i) = None)
     \<and> w_flist w = ThreadCache_init myclasssize \<and> (\<forall>k c. own k = Some c \<longrightarrow> sweepable w k c)
     \<and> (\<forall>x\<in>M. \<exists>k c. own k = Some c \<and> x \<in> sb_blocks (w_rgs w) k c)"

definition marked_bytes :: "world \<Rightarrow> (nat \<Rightarrow> nat option) \<Rightarrow> u64 set \<Rightarrow> u64 set" where
  "marked_bytes w own M = {a. \<exists>x\<in>M. \<exists>k c. own k = Some c \<and> x \<in> sb_blocks (w_rgs w) k c \<and> unat (a - x) < cls_size c}"

definition owners_upto :: "world \<Rightarrow> (nat \<Rightarrow> nat option) \<Rightarrow> u64 set \<Rightarrow> nat \<Rightarrow> nat \<Rightarrow> nat option" where
  "owners_upto w own M k = (\<lambda>j. case own j of None \<Rightarrow> None
     | Some c \<Rightarrow> if j < k \<and> M \<inter> sb_blocks (w_rgs w) j c \<noteq> {} then Some c else None)"

definition swept_upto :: "world \<Rightarrow> (nat \<Rightarrow> nat option) \<Rightarrow> u64 set \<Rightarrow> nat \<Rightarrow> sweep_state \<Rightarrow> ghost \<Rightarrow> bool" where
  "swept_upto w own M k s g \<longleftrightarrow> (let R = w_rgs w; w' = sw_world s in
     heap_inv w' g \<and> w_rgs w' = R \<and> w_queue w' = w_queue w \<and> w_roots w' = w_roots w
     \<and> (\<forall>j. k \<le> j \<and> j < nsb R \<longrightarrow> w_desc w' (desc_addr R j) = w_desc w (desc_addr R j))
     \<and> sw_sb s = sb_addr R k \<and> sw_desc s = desc_addr R k \<and> sw_marked s = sorted_list_of_set {x\<in>M. sb_addr R k \<le> x}
     \<and> g_owner g = owners_upto w own M k \<and> g_live g = {x\<in>M. x < sb_addr R k} \<and> g_cache g = (\<lambda>_. [])
     \<and> (\<forall>a\<in>marked_bytes w own M. w_mem w' a = w_mem w a))"

lemma sb_below:
  assumes "geom R" "k < nsb R" "x \<in> sb_blocks R k c" "j \<le> nsb R"
  shows "sb_addr R j \<le> x \<longleftrightarrow> j \<le> k" "x < sb_addr R j \<longleftrightarrow> k < j"
proof -
  obtain i where i: "i < cls_count c" "x = blk R k c i" using assms(3) by (auto simp: sb_blocks_def)
  have lt: "i * cls_size c < 65536" using cls_extent [OF i(1)] cls_size_bounds(1) [of c] by linarith
  have "unat x = unat (Regions_lookup R SB_IDX) + k * 65536 + i * cls_size c" using unat_blk [OF assms(1,2) i(1)] i(2) by simp
  moreover have "unat (sb_addr R j) = unat (Regions_lookup R SB_IDX) + j * 65536" using unat_sb_addr [OF assms(1,4)] .
  ultimately have e: "unat (sb_addr R j) \<le> unat x \<longleftrightarrow> j * 65536 \<le> k * 65536 + i * cls_size c" by simp
  have "j * 65536 \<le> k * 65536 + i * cls_size c \<longleftrightarrow> j \<le> k"
  proof
    assume "j * 65536 \<le> k * 65536 + i * cls_size c"
    then have "j * 65536 < Suc k * 65536" using lt by simp
    then show "j \<le> k" by simp
  next
    assume "j \<le> k"
    then have "j * 65536 \<le> k * 65536" by simp
    then show "j * 65536 \<le> k * 65536 + i * cls_size c" by simp
  qed
  then show le: "sb_addr R j \<le> x \<longleftrightarrow> j \<le> k" using e by (simp add: word_le_nat_alt)
  then show "x < sb_addr R j \<longleftrightarrow> k < j" by (meson not_le)
qed

lemma page_of:
  assumes "geom R" "k < nsb R" "x \<in> sb_blocks R k c" "j < nsb R" "j \<noteq> k"
  shows "drop_bit SB_SHIFT (sb_addr R j) \<noteq> drop_bit SB_SHIFT x"
proof -
  let ?S = "unat (Regions_lookup R SB_IDX)"
  obtain s where s: "?S = 65536 * s" using assms(1) by (auto simp: geom_def mod_eq_0_iff_dvd elim: dvdE)
  have u: "unat (drop_bit 16 (sb_addr R i)) = s + i" if "i < nsb R" for i
    using unat_sb_addr [OF assms(1), of i] that by (simp add: unat_drop_bit s)
  obtain i where "i < cls_count c" "x = blk R k c i" using assms(3) by (auto simp: sb_blocks_def)
  then have "drop_bit SB_SHIFT x = drop_bit SB_SHIFT (sb_addr R k)" using same_page [OF assms(1,2)] by simp
  then show ?thesis using u [OF assms(2)] u [OF assms(4)] assms(5) by (auto simp: SB_SHIFT_def word_unat_eq_iff)
qed

lemma sorted_list_split:
  fixes A B :: "'a::linorder set"
  assumes "finite A" "finite B" "\<forall>a\<in>A. \<forall>b\<in>B. a < b"
  shows "sorted_list_of_set (A \<union> B) = sorted_list_of_set A @ sorted_list_of_set B"
proof -
  have "sorted_wrt (<) (sorted_list_of_set A @ sorted_list_of_set B)"
    using assms by (simp add: sorted_wrt_append)
  moreover have "set (sorted_list_of_set A @ sorted_list_of_set B) = A \<union> B" using assms by simp
  moreover have "A \<inter> B = {}" using assms(3) by fastforce
  then have "length (sorted_list_of_set A @ sorted_list_of_set B) = card (A \<union> B)" using assms by (simp add: card_Un_disjoint)
  ultimately show ?thesis using sorted_list_of_set_unique [of "A \<union> B"] assms(1,2) by (metis finite_UnI)
qed

text \<open>The marked addresses of superblock \<open>k\<close> come first, as the blocks with ascending indices.\<close>

lemma marked_split:
  assumes "recoverable w own M" "own k = Some c"
  shows "sorted_list_of_set {x\<in>M. sb_addr (w_rgs w) k \<le> x} =
    map (blk (w_rgs w) k c) (sorted_list_of_set {j. j < cls_count c \<and> blk (w_rgs w) k c j \<in> M})
    @ sorted_list_of_set {x\<in>M. sb_addr (w_rgs w) (Suc k) \<le> x}"
proof -
  let ?R = "w_rgs w" and ?b = "blk (w_rgs w) k c"
  have sw: "sweepable w k c" using assms by (simp add: recoverable_def)
  note S = sweepableD [OF sw]
  let ?J = "{j. j < cls_count c \<and> ?b j \<in> M}" and ?B = "{x\<in>M. sb_addr ?R (Suc k) \<le> x}"
  have in_M: "\<exists>k' c'. own k' = Some c' \<and> x \<in> sb_blocks ?R k' c' \<and> k' < nsb ?R" if "x \<in> M" for x
    using assms(1) that sweepableD(3) unfolding recoverable_def by metis
  have "{x\<in>M. sb_addr ?R k \<le> x} = ?b ` ?J \<union> ?B"
  proof (intro set_eqI iffI)
    fix x assume x: "x \<in> {x\<in>M. sb_addr ?R k \<le> x}"
    then obtain k' c' where k': "own k' = Some c'" "x \<in> sb_blocks ?R k' c'" "k' < nsb ?R" using in_M by blast
    then have "k \<le> k'" using x sb_below(1) [OF S(1) k'(3,2), of k] S(3) by simp
    show "x \<in> ?b ` ?J \<union> ?B"
    proof (cases "k' = k")
      case True
      then show ?thesis using k' x assms(2) by (auto simp: sb_blocks_def)
    next
      case False
      then show ?thesis using \<open>k \<le> k'\<close> x sb_below(1) [OF S(1) k'(3,2), of "Suc k"] S(3) by simp
    qed
  next
    fix x assume x: "x \<in> ?b ` ?J \<union> ?B"
    then have M: "x \<in> M" by auto
    then obtain k' c' where k': "own k' = Some c'" "x \<in> sb_blocks ?R k' c'" "k' < nsb ?R" using in_M by blast
    have "k \<le> k'"
    proof (cases "x \<in> ?B")
      case True
      then show ?thesis using sb_below(1) [OF S(1) k'(3,2), of "Suc k"] S(3) by simp
    next
      case False
      then have "x \<in> sb_blocks ?R k c" using x by (auto simp: sb_blocks_def)
      then show ?thesis using sb_blocks_same [OF S(1,3) k'(3) _ k'(2)] by simp
    qed
    then show "x \<in> {x\<in>M. sb_addr ?R k \<le> x}" using M sb_below(1) [OF S(1) k'(3,2), of k] S(3) by simp
  qed
  moreover have "\<forall>a\<in>?b ` ?J. \<forall>b\<in>?B. a < b"
  proof (intro ballI)
    fix a x assume a: "a \<in> ?b ` ?J" and x: "x \<in> ?B"
    have "a \<in> sb_blocks ?R k c" using a by (auto simp: sb_blocks_def)
    then have "a < sb_addr ?R (Suc k)" using sb_below(2) [OF S(1,3), of a c "Suc k"] S(3) by simp
    then show "a < x" using x less_le_trans by blast
  qed
  ultimately have "sorted_list_of_set {x\<in>M. sb_addr ?R k \<le> x} = sorted_list_of_set (?b ` ?J) @ sorted_list_of_set ?B"
    using sorted_list_split [of "?b ` ?J" ?B] by simp
  moreover have "sorted_list_of_set (?b ` ?J) = map ?b (sorted_list_of_set ?J)"
  proof -
    have "sorted_wrt (<) (map ?b (sorted_list_of_set ?J))"
      unfolding sorted_wrt_map
      by (rule sorted_wrt_mono_rel [of _ "(<)"]) (use blk_less [OF S(1,3)] in auto)
    moreover have "inj_on ?b ?J" using blk_eq [OF S(1,3)] by (auto intro!: inj_onI)
    then have "length (map ?b (sorted_list_of_set ?J)) = card (?b ` ?J)" by (simp add: card_image)
    ultimately show ?thesis using sorted_list_of_set_unique [of "?b ` ?J" "map ?b (sorted_list_of_set ?J)"] by simp
  qed
  ultimately show ?thesis by simp
qed

lemma unmarked_skip:
  assumes "recoverable w own M" "k < nsb (w_rgs w)" "\<forall>c. own k = Some c \<longrightarrow> M \<inter> sb_blocks (w_rgs w) k c = {}"
  shows "{x\<in>M. sb_addr (w_rgs w) k \<le> x} = {x\<in>M. sb_addr (w_rgs w) (Suc k) \<le> x}"
    "{x\<in>M. x < sb_addr (w_rgs w) (Suc k)} = {x\<in>M. x < sb_addr (w_rgs w) k}"
    "\<forall>x\<in>M. drop_bit SB_SHIFT (sb_addr (w_rgs w) k) \<noteq> drop_bit SB_SHIFT x"
    "owners_upto w own M (Suc k) = owners_upto w own M k"
proof -
  let ?R = "w_rgs w"
  have geom: "geom ?R" using assms(1) by (simp add: recoverable_def)
  have *: "(sb_addr ?R k \<le> x \<longleftrightarrow> sb_addr ?R (Suc k) \<le> x) \<and> drop_bit SB_SHIFT (sb_addr ?R k) \<noteq> drop_bit SB_SHIFT x" if "x \<in> M" for x
  proof -
    obtain k' c' where k': "own k' = Some c'" "x \<in> sb_blocks ?R k' c'" using assms(1) \<open>x \<in> M\<close> unfolding recoverable_def by metis
    then have "k' < nsb ?R" using assms(1) sweepableD(3) unfolding recoverable_def by metis
    moreover have "k' \<noteq> k" using k' assms(3) that by auto
    ultimately show ?thesis using sb_below(1) [OF geom _ k'(2)] page_of [OF geom _ k'(2) assms(2)] assms(2) by auto
  qed
  then show "{x\<in>M. sb_addr ?R k \<le> x} = {x\<in>M. sb_addr ?R (Suc k) \<le> x}" by auto
  show "{x\<in>M. x < sb_addr ?R (Suc k)} = {x\<in>M. x < sb_addr ?R k}" using * by (auto simp: not_le [symmetric])
  show "\<forall>x\<in>M. drop_bit SB_SHIFT (sb_addr ?R k) \<noteq> drop_bit SB_SHIFT x" using * by blast
  show "owners_upto w own M (Suc k) = owners_upto w own M k"
    using assms(3) by (auto simp: owners_upto_def fun_eq_iff less_Suc_eq split: option.splits)
qed

lemma swept_upto_step:
  assumes "recoverable w own M" "swept_upto w own M k s g" "0 < k" "k < nsb (w_rgs w)"
  shows "\<exists>s' g'. sweep_step s = Inr s' \<and> swept_upto w own M (Suc k) s' g'"
proof -
  let ?R = "w_rgs w"
  note U = assms(2) [unfolded swept_upto_def Let_def]
  have geom: "geom ?R" using assms(1) by (simp add: recoverable_def)
  have hi: "heap_inv (sw_world s) g" and Rw: "w_rgs (sw_world s) = ?R" using U by simp_all
  have no: "g_owner g k = None" using U by (simp add: owners_upto_def split: option.splits)
  have ne: "desc_addr ?R j \<noteq> desc_addr ?R k" if "Suc k \<le> j" "j < nsb ?R" for j
    using that assms(4) geom_nsb(1) [OF geom] by (subst desc_addr_inj [OF geom]) auto
  show ?thesis
  proof (cases "\<exists>c. own k = Some c \<and> M \<inter> sb_blocks ?R k c \<noteq> {}")
    case False
    note skip = unmarked_skip [OF assms(1,4)]
    have sk: "\<forall>c. own k = Some c \<longrightarrow> M \<inter> sb_blocks ?R k c = {}" using False by blast
    have "sw_marked s = [] \<or> drop_bit SB_SHIFT (sw_sb s) \<noteq> drop_bit SB_SHIFT (hd (sw_marked s))"
    proof (cases "sw_marked s")
      case (Cons x xs)
      then have "x \<in> set (sorted_list_of_set {x\<in>M. sb_addr ?R k \<le> x})" using U by (metis list.set_intros(1))
      then have "x \<in> M" by simp
      moreover have "sw_sb s = sb_addr ?R k" using U by simp
      ultimately show ?thesis using skip(3) [OF sk] Cons by simp
    qed simp
    then obtain s' where s': "sweep_step s = Inr s'" "heap_inv (sw_world s') g" "sweep_frame k s s'" "sw_marked s' = sw_marked s"
      "w_mem (sw_world s') = w_mem (sw_world s)"
      using sweep_step_unused [OF hi no] U assms(4) by auto
    have "swept_upto w own M (Suc k) s' g"
      using s' U skip(1,2,4) [OF sk] ne by (auto simp: swept_upto_def sweep_frame_def Let_def)
    then show ?thesis using s'(1) by blast
  next
    case True
    then obtain c where c: "own k = Some c" "M \<inter> sb_blocks ?R k c \<noteq> {}" by blast
    define js where "js = sorted_list_of_set {j. j < cls_count c \<and> blk ?R k c j \<in> M}"
    define xs where "xs = sorted_list_of_set {x\<in>M. sb_addr ?R (Suc k) \<le> x}"
    have sw0: "sweepable w k c" using assms(1) c(1) by (simp add: recoverable_def)
    have "\<forall>c\<le>NLIST. sc_idx (w_heaps (sw_world s) ! c) = of_nat c" using heap_invD(7) [OF hi] by (simp add: inv_part_def)
    then have sw: "sweepable (sw_world s) k c" using sw0 U assms(4) by (simp add: sweepable_def Let_def)
    have js: "set js = {j. j < cls_count c \<and> blk ?R k c j \<in> M}" "sorted_wrt (<) js" by (simp_all add: js_def)
    have img: "blk ?R k c ` set js = M \<inter> sb_blocks ?R k c" using js(1) by (auto simp: sb_blocks_def)
    have jne: "js \<noteq> []" using img c(2) by auto
    have mk: "sw_marked s = map (blk ?R k c) js @ xs" using marked_split [OF assms(1) c(1)] U by (simp add: js_def xs_def)
    have hdx: "xs = [] \<or> drop_bit SB_SHIFT (sw_sb s) \<noteq> drop_bit SB_SHIFT (hd xs)"
    proof (cases xs)
      case (Cons x ys)
      then have x: "x \<in> M" "sb_addr ?R (Suc k) \<le> x" using set_sorted_list_of_set [of "{x\<in>M. sb_addr ?R (Suc k) \<le> x}"] by (auto simp: xs_def)
      obtain k' c' where k': "own k' = Some c'" "x \<in> sb_blocks ?R k' c'" using assms(1) x(1) unfolding recoverable_def by metis
      then have k'n: "k' < nsb ?R" using assms(1) sweepableD(3) unfolding recoverable_def by metis
      then have "Suc k \<le> k'" using sb_below(1) [OF geom k'n k'(2), of "Suc k"] x(2) assms(4) by simp
      moreover have "sw_sb s = sb_addr ?R k" using U by simp
      ultimately show ?thesis using page_of [OF geom k'n k'(2) assms(4)] Cons by simp
    qed simp
    have nq: "of_nat k \<notin> set (queue_abs QUEUE_CAP (w_queue (sw_world s)))"
    proof
      assume "of_nat k \<in> set (queue_abs QUEUE_CAP (w_queue (sw_world s)))"
      then have "own (unat (of_nat k :: u64)) = None" using assms(1) U by (simp add: recoverable_def)
      then show False using c(1) unat_of_nat_small [of k] assms(4) geom_nsb(1) [OF geom] by simp
    qed
    obtain s' g' where s': "sweep_step s = Inr s'" "heap_inv (sw_world s') g'" "sweep_frame k s s'" "sw_marked s' = xs"
      "g_owner g' = (g_owner g)(k := Some c)" "g_live g' = g_live g \<union> blk ?R k c ` set js" "g_cache g' = g_cache g"
      "writes_links (sb_blocks ?R k c - blk ?R k c ` set js) (w_mem (sw_world s)) (w_mem (sw_world s'))"
      using sweep_step_used [OF sw, of js xs g, unfolded Rw] U mk jne js hdx hi no nq by auto
    have own: "(owners_upto w own M k)(k := Some c) = owners_upto w own M (Suc k)"
      using c by (auto simp: owners_upto_def fun_eq_iff less_Suc_eq split: option.splits)
    have live: "{x\<in>M. x < sb_addr ?R k} \<union> M \<inter> sb_blocks ?R k c = {x\<in>M. x < sb_addr ?R (Suc k)}"
    proof -
      have "x < sb_addr ?R (Suc k) \<longleftrightarrow> x < sb_addr ?R k \<or> x \<in> sb_blocks ?R k c" if "x \<in> M" for x
      proof -
        obtain k' c' where k': "own k' = Some c'" "x \<in> sb_blocks ?R k' c'" using assms(1) \<open>x \<in> M\<close> unfolding recoverable_def by metis
        then have k'n: "k' < nsb ?R" using assms(1) sweepableD(3) unfolding recoverable_def by metis
        have "x \<in> sb_blocks ?R k c \<longleftrightarrow> k' = k" using k' c(1) sb_blocks_same [OF geom k'n assms(4) k'(2)] by auto
        then show ?thesis using sb_below(2) [OF geom k'n k'(2)] assms(4) by auto
      qed
      then show ?thesis by auto
    qed
    have "\<forall>a\<in>marked_bytes w own M. w_mem (sw_world s') a = w_mem (sw_world s) a"
    proof
      fix a assume "a \<in> marked_bytes w own M"
      then obtain x k' c' where x: "x \<in> M" "own k' = Some c'" "x \<in> sb_blocks ?R k' c'" "unat (a - x) < cls_size c'"
        by (auto simp: marked_bytes_def)
      then have k'n: "k' < nsb ?R" using assms(1) sweepableD(3) unfolding recoverable_def by metis
      obtain i where i: "i < cls_count c'" "x = blk ?R k' c' i" using x(3) by (auto simp: sb_blocks_def)
      have "\<not> a - y < 8" if y: "y \<in> sb_blocks ?R k c - blk ?R k c ` set js" for y
      proof
        assume "a - y < 8"
        then have l: "unat (a - y) < cls_size c" using cls_size_bounds(1) [of c] by (simp add: word_less_nat_alt)
        obtain j where j: "j < cls_count c" "y = blk ?R k c j" using y by (auto simp: sb_blocks_def)
        have "x \<noteq> y" using x(1) y img by auto
        moreover have "k' = k \<longrightarrow> c' = c" using x(2) c(1) by auto
        ultimately show False using blk_bytes_disjoint [OF geom k'n i(1) assms(4) j(1), of a] i j x(4) l by simp
      qed
      then show "w_mem (sw_world s') a = w_mem (sw_world s) a" using s'(8) by (simp add: writes_links_def)
    qed
    then have "swept_upto w own M (Suc k) s' g'"
      using s'(2-7) U ne own live img by (auto simp: swept_upto_def sweep_frame_def Let_def xs_def)
    then show ?thesis using s'(1) by blast
  qed
qed

lemma recoverable_block:
  assumes "recoverable w own M" "x \<in> M"
  obtains k c where "own k = Some c" "x \<in> sb_blocks (w_rgs w) k c" "0 < k" "k < nsb (w_rgs w)"
proof -
  obtain k c where k: "own k = Some c" "x \<in> sb_blocks (w_rgs w) k c" using assms unfolding recoverable_def by metis
  then have "sweepable w k c" using assms(1) by (simp add: recoverable_def)
  then show thesis using that [OF k] sweepableD(2,3) by blast
qed

lemma sweep_loop_swept:
  assumes "recoverable w own M" "swept_upto w own M k s g" "0 < k" "k \<le> nsb (w_rgs w)" "nsb (w_rgs w) - k \<le> fuel"
  shows "\<exists>s' g'. sweep_loop fuel (sb_addr (w_rgs w) (nsb (w_rgs w))) s = Inr s' \<and> swept_upto w own M (nsb (w_rgs w)) s' g'"
  using assms(2-5)
proof (induction fuel arbitrary: k s g)
  case 0
  then show ?case by (auto simp: swept_upto_def Let_def)
next
  case (Suc fuel)
  let ?R = "w_rgs w"
  have geom: "geom ?R" using assms(1) by (simp add: recoverable_def)
  have at: "sw_sb s = sb_addr ?R k" using Suc.prems(1) by (simp add: swept_upto_def Let_def)
  show ?case
  proof (cases "k = nsb ?R")
    case True
    then show ?thesis using Suc.prems(1) at by auto
  next
    case False
    then have lt: "k < nsb ?R" using Suc.prems(3) by simp
    obtain s1 g1 where s1: "sweep_step s = Inr s1" "swept_upto w own M (Suc k) s1 g1"
      using swept_upto_step [OF assms(1) Suc.prems(1,2) lt] by blast
    have "sw_sb s < sb_addr ?R (nsb ?R)"
      using lt unat_sb_addr [OF geom, of k] unat_sb_addr [OF geom, of "nsb ?R"] by (simp add: at word_less_nat_alt)
    then show ?thesis using s1(1) Suc.IH [OF s1(2)] lt Suc.prems(4) by auto
  qed
qed

lemma reset_partial_simps [simp]:
  "w_rgs (reset_partial w) = w_rgs w" "w_mem (reset_partial w) = w_mem w" "w_desc (reset_partial w) = w_desc w"
  "w_roots (reset_partial w) = w_roots w" "w_queue (reset_partial w) = w_queue w" "w_flist (reset_partial w) = w_flist w"
  by (simp_all add: reset_partial_def)

lemma reachable_cong:
  assumes "w_rgs w' = w_rgs w" "w_mem w' = w_mem w" "w_desc w' = w_desc w" "w_roots w' = w_roots w"
  shows "reachable w' = reachable w"
proof -
  have "root_targets w' = root_targets w" using assms by (simp add: root_targets_def)
  moreover have "succs w' x = succs w x" for x using assms by (simp add: succs_def)
  ultimately have eq: "root_targets w' = root_targets w" "succs w' x = succs w x" for x by simp_all
  have "x \<in> reachable w" if "x \<in> reachable w'" for x
    using that by induction (auto simp: eq intro: reachable.reach_root reachable.reach_step)
  moreover have "x \<in> reachable w'" if "x \<in> reachable w" for x
    using that by induction (auto simp: eq [symmetric] intro: reachable.reach_root reachable.reach_step)
  ultimately show ?thesis by blast
qed

lemma reset_heaps:
  assumes "length (w_heaps w) = NLIST + 1" "\<forall>c\<le>NLIST. sc_idx (w_heaps w ! c) = of_nat c"
  shows "length (w_heaps (reset_partial w)) = NLIST + 1" "\<forall>c\<le>NLIST. sc_idx (w_heaps (reset_partial w) ! c) = of_nat c"
    "\<forall>c<NLIST. phead (reset_partial w) c = 0"
  using assms by (auto simp: reset_partial_def nth_append phead_def acpc_load_def acpc_unpack_def)

lemma mark_phase_reachable:
  assumes "has_sb (w_rgs w)" "\<forall>i<MAX_ROOTS. \<not> crossptr_is_null (w_roots w ! i) \<longrightarrow> rf ! i"
  shows "\<exists>gc. mark_phase w rf = Inr gc \<and> marked_blk gc = reachable w"
proof -
  obtain gc1 where gc1: "mark_roots w rf MAX_ROOTS GarbageCollection_new = Inr gc1" "marks (root_targets w) GarbageCollection_new gc1"
    using mark_roots_marks [OF assms] unfolding root_targets_def by blast
  then have "marked_blk gc1 = root_targets w" "set (to_filter_node gc1) = root_targets w" by (simp_all add: marks_def GarbageCollection_new_def)
  moreover have "root_targets w \<subseteq> reachable w" by (auto intro: reachable.reach_root)
  ultimately obtain gc where "mark_loop w gc1 = Inr gc" "marked_blk gc = reachable w"
    using mark_loop_reaches [OF assms(1), of gc1] by auto
  then show ?thesis using gc1(1) by (simp add: mark_phase_def)
qed

lemma gc_recovers_aux:
  assumes "recoverable w own (reachable w)" "\<forall>i<MAX_ROOTS. \<not> crossptr_is_null (w_roots w ! i) \<longrightarrow> rf ! i"
  shows "\<exists>w' g. GarbageCollection w rf = Inr w' \<and> heap_inv w' g \<and> g_live g = reachable w \<and> w_roots w' = w_roots w \<and> w_rgs w' = w_rgs w
    \<and> g_owner g = owners_upto w own (reachable w) (nsb (w_rgs w)) \<and> (\<forall>a\<in>marked_bytes w own (reachable w). w_mem w' a = w_mem w a)"
proof -
  let ?w = "reset_partial w" and ?R = "w_rgs w" and ?M = "reachable w"
  note rec = assms(1) [unfolded recoverable_def]
  have geom: "geom ?R" using rec by simp
  have r: "rgs ?R ! idx_no SB_IDX = Some (sb_region ?R)" and cur: "unat (curr_addr (sb_region ?R)) = unat (Regions_lookup ?R SB_IDX) + nsb ?R * 65536"
    and n: "0 < nsb ?R" using geom by (auto simp: geom_def sb_region_def)
  note rh = reset_heaps [of w]
  have rw: "recoverable ?w own ?M"
    using rec rh(1,2) by (simp add: recoverable_def sweepable_def Let_def)
  have M: "reachable ?w = ?M" by (rule reachable_cong) simp_all
  obtain gc where gc: "mark_phase ?w rf = Inr gc" "marked_blk gc = ?M"
    using mark_phase_reachable [of ?w rf] assms(2) r M by (auto simp: has_sb_def)
  define s0 where "s0 = \<lparr>sw_world = ?w, sw_sb = sb_addr ?R 1, sw_desc = desc_addr ?R 1, sw_marked = sorted_list_of_set ?M, sw_avail = 0\<rparr>"
  have above: "sb_addr ?R 1 \<le> x" if x: "x \<in> ?M" for x
  proof -
    obtain k c where k: "x \<in> sb_blocks ?R k c" "0 < k" "k < nsb ?R" using recoverable_block [OF assms(1) x] by blast
    then show ?thesis using sb_below(1) [OF geom k(3,1), of 1] by simp
  qed
  have "owners_upto ?w own ?M 1 = (\<lambda>_. None)"
  proof -
    have "own 0 = None"
    proof (cases "own 0")
      case (Some c)
      then have "sweepable w 0 c" using rec by blast
      then show ?thesis using sweepableD(2) by blast
    qed
    then show ?thesis by (auto simp: owners_upto_def fun_eq_iff split: option.splits)
  qed
  moreover have "heap_inv ?w g_empty"
  proof (rule heap_inv_nothing)
    show "inv_queue (w_rgs ?w) (w_queue ?w) g_empty" using rec by (simp add: inv_queue_def g_empty_def)
  qed (use rec rh in auto)
  moreover have "{x\<in>?M. sb_addr ?R 1 \<le> x} = ?M" "{x\<in>?M. x < sb_addr ?R 1} = {}" using above by (auto simp: not_le [symmetric])
  ultimately have s0: "swept_upto ?w own ?M 1 s0 g_empty"
    by (simp add: swept_upto_def Let_def s0_def g_empty_def)
  have e: "curr_addr (sb_region ?R) = sb_addr ?R (nsb ?R)" using cur unat_sb_addr [OF geom, of "nsb ?R"] by (simp add: word_unat_eq_iff)
  have "unat (sb_addr ?R (nsb ?R) - sb_addr ?R 1) = (nsb ?R - 1) * 65536"
    using unat_sb_addr [OF geom] n by (subst unat_sub_le) (simp_all add: word_le_nat_alt diff_mult_distrib)
  then have fuel: "nsb ?R - 1 \<le> unat (curr_addr (sb_region ?R) - sb_addr ?R 1)" by (simp add: e)
  obtain s' g where s': "sweep_loop (unat (curr_addr (sb_region ?R) - sb_addr ?R 1)) (curr_addr (sb_region ?R)) s0 = Inr s'"
    "swept_upto ?w own ?M (nsb ?R) s' g"
    using sweep_loop_swept [OF rw s0, of "unat (curr_addr (sb_region ?R) - sb_addr ?R 1)"] n fuel by (simp add: e) blast
  note U = s'(2) [unfolded swept_upto_def Let_def]
  have below: "x < sb_addr ?R (nsb ?R)" if x: "x \<in> ?M" for x
  proof -
    obtain k c where k: "x \<in> sb_blocks ?R k c" "k < nsb ?R" using recoverable_block [OF assms(1) x] by blast
    then show ?thesis using sb_below(2) [OF geom k(2,1), of "nsb ?R"] by simp
  qed
  then have fin: "{x\<in>?M. sb_addr ?R (nsb ?R) \<le> x} = {}" "{x\<in>?M. x < sb_addr ?R (nsb ?R)} = ?M" by (auto simp: not_less [symmetric])
  have st: "Regions_translate ?R SB_IDX SBSIZE = sb_addr ?R 1" by (simp add: Regions_translate_def sb_addr_def Regions_lookup_def SBSIZE_eq)
  have "desc_lookup ?R (sb_addr ?R 1) = desc_addr ?R 1"
    using unat_sb_addr [OF geom, of 1] n by (intro desc_lookup_in_sb [OF geom, where d = 0]) simp_all
  then have "GarbageCollection w rf = Inr (sw_world s')"
    using gc s'(1) r U fin(1) by (simp add: GarbageCollection_def Let_def st s0_def)
  moreover have "g_live g = ?M" using U fin(2) by simp
  moreover have "owners_upto ?w own ?M = owners_upto w own ?M" "marked_bytes ?w own ?M = marked_bytes w own ?M"
    unfolding owners_upto_def fun_eq_iff marked_bytes_def reset_partial_simps by simp_all
  ultimately show ?thesis using U by (intro exI [of _ "sw_world s'"] exI [of _ g]) simp
qed

section \<open>A crash\<close>

text \<open>
  The state a new process finds when the old one has stopped in \<open>w\<close> and all its stores have
  reached the files: everything but the thread caches.
\<close>

definition crashed :: "world \<Rightarrow> world" where
  "crashed w = w\<lparr>w_flist := ThreadCache_init myclasssize\<rparr>"

definition marked_owner :: "world \<Rightarrow> ghost \<Rightarrow> u64 set \<Rightarrow> nat \<Rightarrow> nat option" where
  "marked_owner w g M = (\<lambda>k. case g_owner g k of None \<Rightarrow> None | Some c \<Rightarrow> if M \<inter> sb_blocks (w_rgs w) k c \<noteq> {} then Some c else None)"

lemma marked_owner_Some: "marked_owner w g M k = Some c \<longleftrightarrow> g_owner g k = Some c \<and> M \<inter> sb_blocks (w_rgs w) k c \<noteq> {}"
  by (auto simp: marked_owner_def split: option.splits if_splits)

definition mid_blocks :: "(u64 \<times> u64) set \<Rightarrow> u64 set" where
  "mid_blocks H = {p. \<exists>s. (p, s) \<in> H \<and> 8 < s \<and> s \<le> MAX_SZ}"

lemma mid_block_class:
  assumes "client_inv w g H" "p \<in> mid_blocks H" "g_owner g k = Some c" "p \<in> sb_blocks (w_rgs w) k c"
  shows "0 < c" "c < NLIST"
proof -
  obtain s where s: "(p, s) \<in> H" "8 < s" "s \<le> MAX_SZ" using assms(2) by (auto simp: mid_blocks_def)
  note h = client_heldD [OF assms(1) s(1)]
  note cl = holds_class [OF h(1,2) assms(3,4)]
  show "c < NLIST" using cl(2) s(3) by simp
  have "cls_size 0 = 8" by (simp add: cls_size_def NLIST_def class_bytes_def)
  then show "0 < c" using cl(1) s(2) by (cases c) (auto simp: word_less_nat_alt)
qed

lemma client_recoverable:
  assumes "client_inv w g H" "M \<subseteq> mid_blocks H"
  shows "recoverable (crashed w) (marked_owner w g M) M"
proof -
  have hi: "heap_inv w g" and live: "g_live g = fst ` H" using assms(1) by (simp_all add: client_inv_def)
  note i = heap_invD [OF hi]
  have sw: "sweepable (crashed w) k c" if mo: "marked_owner w g M k = Some c" for k c
  proof -
    obtain x where x: "g_owner g k = Some c" "x \<in> M" "x \<in> sb_blocks (w_rgs w) k c" using mo by (auto simp: marked_owner_Some)
    have c: "0 < c" "c < NLIST" using mid_block_class [OF assms(1) _ x(1,3)] assms(2) x(2) by blast+
    have "desc_ok (w_rgs w) (w_desc w (desc_addr (w_rgs w) k)) k c (g_free g k)" using i(3) x(1) by (simp add: inv_desc_def)
    then show ?thesis
      using c ownerD [OF i(2) x(1)] i(1,7) by (simp add: sweepable_def crashed_def Let_def desc_ok_def inv_part_def)
  qed
  have blk: "\<exists>k c. marked_owner w g M k = Some c \<and> x \<in> sb_blocks (w_rgs w) k c" if "x \<in> M" for x
  proof -
    have "x \<in> g_live g" using assms(2) \<open>x \<in> M\<close> live by (force simp: mid_blocks_def)
    then obtain k c where "g_owner g k = Some c" "x \<in> sb_blocks (w_rgs w) k c" using i(8) by (auto simp: inv_live_def)
    then show ?thesis using that by (auto simp: marked_owner_Some)
  qed
  have q: "\<forall>i\<in>set (queue_abs QUEUE_CAP (w_queue w)). 0 < unat i \<and> unat i < nsb (w_rgs w) \<and> marked_owner w g M (unat i) = None"
    using i(5) by (auto simp: inv_queue_def marked_owner_def)
  show ?thesis
    unfolding recoverable_def using sw blk q i(1,5,7) by (simp add: crashed_def inv_queue_def inv_part_def)
qed

section \<open>Properties\<close>



text \<open>The collection after a crash.\<close>

lemma gc_recovers_client:
  assumes "client w H" "reachable w \<subseteq> mid_blocks H" "\<forall>i<MAX_ROOTS. \<not> crossptr_is_null (w_roots w ! i) \<longrightarrow> rf ! i"
  shows "\<exists>w' g. GarbageCollection (crashed w) rf = Inr w' \<and> heap_inv w' g \<and> g_live g = reachable w \<and> w_roots w' = w_roots w \<and> w_rgs w' = w_rgs w
    \<and> (\<forall>p s a. (p, s) \<in> H \<and> p \<in> reachable w \<and> a - p < s \<longrightarrow> w_mem w' a = w_mem w a)"
proof -
  let ?M = "reachable w"
  obtain g0 where g0: "client_inv w g0 H" using client_inv_reach [OF assms(1)] by blast
  have M: "reachable (crashed w) = ?M" by (rule reachable_cong) (simp_all add: crashed_def)
  have "recoverable (crashed w) (marked_owner w g0 ?M) (reachable (crashed w))" using client_recoverable [OF g0 assms(2)] M by simp
  then obtain w' g where r: "GarbageCollection (crashed w) rf = Inr w'" "heap_inv w' g" "g_live g = ?M" "w_roots w' = w_roots w" "w_rgs w' = w_rgs w"
    "\<forall>a\<in>marked_bytes (crashed w) (marked_owner w g0 ?M) ?M. w_mem w' a = w_mem w a"
    using gc_recovers_aux [of "crashed w" "marked_owner w g0 ?M" rf] assms(3) M by (auto simp: crashed_def)
  have "w_mem w' a = w_mem w a" if p: "(p, s) \<in> H" "p \<in> ?M" "a - p < s" for p s a
  proof -
    obtain k c where k: "g_owner g0 k = Some c" "p \<in> sb_blocks (w_rgs w) k c" "unat s \<le> cls_size c"
      using client_heldD(2) [OF g0 p(1)] by (auto simp: holds_def)
    have "marked_owner w g0 ?M k = Some c" using k(1,2) p(2) by (auto simp: marked_owner_Some)
    moreover have "unat (a - p) < cls_size c" using p(3) k(3) by (simp add: word_less_nat_alt)
    ultimately have "a \<in> marked_bytes (crashed w) (marked_owner w g0 ?M) ?M" using p(2) k(2) by (auto simp: marked_bytes_def crashed_def)
    then show ?thesis using r(6) by blast
  qed
  then show ?thesis using r(1-5) by blast
qed


lemma no_roots:
  assumes "w_roots w = replicate MAX_ROOTS 0"
  shows "reachable w = {}" "\<forall>i<MAX_ROOTS. crossptr_is_null (w_roots w ! i)"
proof -
  show r: "\<forall>i<MAX_ROOTS. crossptr_is_null (w_roots w ! i)" using assms by (simp add: crossptr_is_null_def)
  have "x \<notin> reachable w" for x
  proof
    assume "x \<in> reachable w"
    then show False by induction (use r in \<open>auto simp: root_targets_def\<close>)
  qed
  then show "reachable w = {}" by blast
qed

lemma sample_no_roots: "reachable sample_heap = {}" "\<forall>i<MAX_ROOTS. crossptr_is_null (w_roots sample_heap ! i)"
proof -
  obtain w where "BaseMeta_new sample_world = Inr w" "w_roots w = replicate MAX_ROOTS 0"
    using BaseMeta_new_spec [OF sample_fresh(1)] sample_fresh(2) by auto
  then have "w_roots sample_heap = replicate MAX_ROOTS 0" by (simp add: sample_heap_def)
  then show "reachable sample_heap = {}" "\<forall>i<MAX_ROOTS. crossptr_is_null (w_roots sample_heap ! i)" by (rule no_roots)+
qed


lemma mark_roots_unregistered:
  assumes "has_sb (w_rgs w)" "\<exists>i<n. \<not> crossptr_is_null (w_roots w ! i) \<and> \<not> rf ! i"
  shows "mark_roots w rf n gc = Inl EmptyFunction"
  using assms(2)
proof (induction n)
  case (Suc n)
  show ?case
  proof (cases "\<exists>i<n. \<not> crossptr_is_null (w_roots w ! i) \<and> \<not> rf ! i")
    case False
    then have n: "\<not> crossptr_is_null (w_roots w ! n)" "\<not> rf ! n" using Suc.prems by (auto simp: less_Suc_eq)
    obtain gc1 where "mark_roots w rf n gc = Inr gc1" using mark_roots_marks [OF assms(1), of n rf gc] False by blast
    then show ?thesis using n by simp
  qed (use Suc.IH in simp)
qed simp

text \<open>C37: A root that is set but whose filter has not been registered in this run (by a call of
  \<open>get_root\<close> before the recovery) makes the collection call an empty function, whatever the other
  roots are.\<close>

theorem gc_unregistered_root:
  assumes "rgs (w_rgs w) ! idx_no SB_IDX = Some r" "i < MAX_ROOTS" "\<not> crossptr_is_null (w_roots w ! i)" "\<not> rf ! i"
  shows "GarbageCollection w rf = Inl EmptyFunction"
proof -
  have "mark_roots (reset_partial w) rf MAX_ROOTS GarbageCollection_new = Inl EmptyFunction"
    by (rule mark_roots_unregistered) (use assms in \<open>auto simp: has_sb_def\<close>)
  then show ?thesis by (simp add: GarbageCollection_def Let_def mark_phase_def)
qed

theorem gc_unregistered_root_witness:
  "GarbageCollection (sample_world\<lparr>w_roots := replicate MAX_ROOTS 0x10000\<rparr>) (replicate MAX_ROOTS False) = Inl EmptyFunction"
  by (rule gc_unregistered_root [where i = 0]) (simp_all add: sample_world_def crossptr_is_null_def MAX_ROOTS_def)

section \<open>Superblocks that the sweep mishandles\<close>

text \<open>
  A superblock \<open>k\<close> of class \<open>c\<close> (here class 0 or the large class) with its first block marked.
\<close>

definition marked_first :: "sweep_state \<Rightarrow> nat \<Rightarrow> nat \<Rightarrow> u64 list \<Rightarrow> bool" where
  "marked_first s k c xs \<longleftrightarrow> (let w = sw_world s; R = w_rgs w; d = w_desc w (desc_addr R k) in
     geom R \<and> 0 < k \<and> k < nsb R \<and> c \<le> NLIST \<and> length (w_heaps w) = NLIST + 1 \<and> (\<forall>c\<le>NLIST. sc_idx (w_heaps w ! c) = of_nat c)
     \<and> dheap d = crossptr_assign R META_IDX (heap_addr R c) \<and> dsuperblock d = crossptr_assign R SB_IDX (sb_addr R k)
     \<and> unat (block_size d) = cls_size c \<and> unat (maxcount d) = cls_count c
     \<and> sw_sb s = sb_addr R k \<and> sw_desc s = desc_addr R k \<and> sw_marked s = sb_addr R k # xs
     \<and> (xs = [] \<or> drop_bit SB_SHIFT (sb_addr R k) \<noteq> drop_bit SB_SHIFT (hd xs)))"

lemma other_page_stops:
  "xs = [] \<or> drop_bit SB_SHIFT sb \<noteq> drop_bit SB_SHIFT (hd xs) \<Longrightarrow> sweep_marked w sb da xs m h l A = Inr (m, h, l, A, xs)"
  by (cases xs) auto

lemma marked_firstD:
  assumes "marked_first s k c xs"
  defines "w \<equiv> sw_world s" and "R \<equiv> w_rgs (sw_world s)"
  shows "geom R" "0 < k" "k < nsb R" "sw_sb s = sb_addr R k" "sw_desc s = desc_addr R k" "sw_marked s = sb_addr R k # xs"
    "heap_at R (crossptr_deref R META_IDX (dheap (w_desc w (desc_addr R k)))) = Inr c"
    "heap_at R (crossptr_get R META_IDX (dheap (w_desc w (desc_addr R k)))) = Inr c"
    "\<not> crossptr_is_null (dheap (w_desc w (desc_addr R k)))"
    "crossptr_get R SB_IDX (dsuperblock (w_desc w (desc_addr R k))) = sb_addr R k" "sc_idx (w_heaps w ! c) = of_nat c"
    "unat (ucast (block_size (w_desc w (desc_addr R k))) :: u64) = cls_size c"
    "xs = [] \<or> drop_bit SB_SHIFT (sb_addr R k) \<noteq> drop_bit SB_SHIFT (hd xs)" "c \<le> NLIST"
proof -
  note s = assms(1) [unfolded marked_first_def Let_def, folded w_def R_def]
  show g: "geom R" and k: "0 < k" "k < nsb R" and "sw_sb s = sb_addr R k" "sw_desc s = desc_addr R k" "sw_marked s = sb_addr R k # xs" "c \<le> NLIST"
    using s by simp_all
  show "heap_at R (crossptr_deref R META_IDX (dheap (w_desc w (desc_addr R k)))) = Inr c"
    "heap_at R (crossptr_get R META_IDX (dheap (w_desc w (desc_addr R k)))) = Inr c"
    using heap_at_addr [OF g, of c] s by simp_all
  then show "\<not> crossptr_is_null (dheap (w_desc w (desc_addr R k)))"
    by (auto simp: crossptr_is_null_def crossptr_get_def heap_at_def)
  show "crossptr_get R SB_IDX (dsuperblock (w_desc w (desc_addr R k))) = sb_addr R k" using crossptr_sb [OF g k] s by simp
  show "sc_idx (w_heaps w ! c) = of_nat c" using s by simp
  show "unat (ucast (block_size (w_desc w (desc_addr R k))) :: u64) = cls_size c" using s cls_size_bounds(2) [of c] by (simp add: unat_ucast_lt)
  show "xs = [] \<or> drop_bit SB_SHIFT (sb_addr R k) \<noteq> drop_bit SB_SHIFT (hd xs)" using s by blast
qed

lemma heap_push_partial_any:
  assumes "geom (w_rgs w)" "heap_at (w_rgs w) (crossptr_get (w_rgs w) META_IDX (dheap (w_desc w desc))) = Inr h"
  shows "\<exists>w'. heap_push_partial w desc = Inr w' \<and> w_mem w' = w_mem w"
  using assms by (simp add: heap_push_partial_def acpc_compare_exchange_weak_def Let_def acpc_load_def acpc_pack_unpack upd_desc_def set_partial_def)

text \<open>C36: The sweep takes a superblock that is in use as one large block for a free one: it writes a null
  link over the first eight bytes of the live block and leaves an anchor that counts the block as
  free, because it recognises large superblocks by class index 0 and not \<open>NLIST\<close>.\<close>

theorem gc_overwrites_large_block:
  assumes "marked_first s k NLIST xs"
  shows "\<exists>s'. sweep_step s = Inr s' \<and> load64 (w_mem (sw_world s')) (sb_addr (w_rgs (sw_world s)) k) = PPTR_PATTERN_POS
    \<and> danchor (w_desc (sw_world s') (desc_addr (w_rgs (sw_world s)) k)) = \<lparr>avail = 0, acount = 1, astate = SB_PARTIAL\<rparr>"
proof -
  define w where "w = sw_world s"
  define R where "R = w_rgs w"
  note D = marked_firstD [OF assms, folded w_def, folded R_def]
  let ?sb = "sb_addr R k" and ?da = "desc_addr R k"
  let ?d = "w_desc w ?da"
  have mc: "maxcount ?d = 1" and bsz: "block_size ?d = 65536"
    using assms by (simp_all add: marked_first_def Let_def w_def [symmetric] R_def [symmetric] word_unat_eq_iff)
  have nz: "(of_nat NLIST :: u64) \<noteq> 0" by (simp add: NLIST_def)
  have u: "unat ?sb + 65536 < 2 ^ 64" using unat_sb_addr [OF D(1), of k] D(3) geom_nsb(2) [OF D(1)] by simp
  then have lt: "?sb < ?sb + 65536" using unat_plus_of_nat [of ?sb 65536] by (simp add: word_less_nat_alt)
  have sbz: "?sb \<noteq> 0" using unat_sb_addr [OF D(1), of k] D(1,3) by (auto simp: geom_def)
  let ?m = "pptr_set (w_mem w) ?sb 0"
  have run: "free_run 65536 (w_mem w) 65536 (?sb + 65536) ?sb 0 0 = Inr (?m, ?sb, 1)"
  proof -
    have "free_run (Suc n) (w_mem w) 65536 (?sb + 65536) ?sb 0 0 = Inr (?m, ?sb, 1)" for n
      using lt by (cases n) simp_all
    moreover have "Suc 65535 = 65536" by simp
    ultimately show ?thesis by metis
  qed
  let ?w1 = "upd_desc ?da (\<lambda>d. d\<lparr>next_free := atomic_pptr_store ?da 0\<rparr>) (w\<lparr>w_mem := ?m\<rparr>)"
  obtain w2 where w2: "heap_push_partial ?w1 ?da = Inr w2" "w_mem w2 = ?m"
    using heap_push_partial_any [of ?w1 ?da NLIST] D(1,8) by (auto simp: R_def)
  have "sweep_marked w ?sb ?da (?sb # xs) (w_mem w) 0 ?sb A = Inr (w_mem w, 0, ?sb, A\<lparr>astate := SB_FULL\<rparr>, xs)" for A
    using D(7,9-11) other_page_stops [OF D(13)] mc by (simp add: Let_def R_def [symmetric])
  then have "sweep_step s = sweep_small (s\<lparr>sw_world := w\<lparr>w_mem := w_mem w\<rparr>, sw_marked := xs\<rparr>) (w_mem w) 0 ?sb (\<lparr>avail = 0, acount = 0, astate = SB_FULL\<rparr>)"
    using D(4-7,11) nz by (simp add: sweep_step_def Let_def w_def [symmetric] R_def [symmetric] Anchor3_def del: sweep_marked.simps)
  also have "\<dots> = Inr (sweep_next s xs (upd_desc ?da (\<lambda>d. d\<lparr>danchor := \<lparr>avail = 0, acount = 1, astate = SB_PARTIAL\<rparr>\<rparr>) w2))"
    using run w2(1) sbz D(4,5) by (simp add: sweep_small_def Let_def mc bsz sweep_next_def)
  finally have step: "sweep_step s = Inr (sweep_next s xs (upd_desc ?da (\<lambda>d. d\<lparr>danchor := \<lparr>avail = 0, acount = 1, astate = SB_PARTIAL\<rparr>\<rparr>) w2))" .
  have "load64 ?m ?sb = PPTR_PATTERN_POS" by (simp add: pptr_set_def to_pptr_off_def)
  then show ?thesis using step w2(2) by (simp add: sweep_next_def w_def [symmetric] R_def [symmetric])
qed

lemma sample_layout:
  "geom (w_rgs sample_heap)" "1 < nsb (w_rgs sample_heap)" "length (w_heaps sample_heap) = NLIST + 1"
  "\<forall>c\<le>NLIST. sc_idx (w_heaps sample_heap ! c) = of_nat c"
proof -
  obtain w where w: "BaseMeta_new sample_world = Inr w" "heap_inv w g_empty" "set (queue_abs QUEUE_CAP (w_queue w)) = of_nat ` {1..<16384}"
    using BaseMeta_new_spec [OF sample_fresh(1)] sample_fresh(2) by auto
  then have s: "sample_heap = w" by (simp add: sample_heap_def)
  note i = heap_invD [OF w(2)]
  show "geom (w_rgs sample_heap)" "length (w_heaps sample_heap) = NLIST + 1" "\<forall>c\<le>NLIST. sc_idx (w_heaps sample_heap ! c) = of_nat c"
    using i(1,7) by (simp_all add: s inv_part_def)
  have "(of_nat 2 :: u64) \<in> set (queue_abs QUEUE_CAP (w_queue w))" unfolding w(3) by (rule imageI) simp
  moreover have "\<forall>i\<in>set (queue_abs QUEUE_CAP (w_queue w)). unat i < nsb (w_rgs w)" using i(5) by (simp add: inv_queue_def)
  ultimately have "unat (of_nat 2 :: u64) < nsb (w_rgs w)" by blast
  then show "1 < nsb (w_rgs sample_heap)" by (simp add: s)
qed

definition sample_sweep :: "nat \<Rightarrow> u32 \<Rightarrow> u32 \<Rightarrow> sweep_state" where
  "sample_sweep c bsize cnt = (let R = w_rgs sample_heap in
     \<lparr>sw_world = sample_heap\<lparr>w_desc := \<lambda>_. (Descriptor 0)\<lparr>dheap := crossptr_assign R META_IDX (heap_addr R c),
        dsuperblock := crossptr_assign R SB_IDX (sb_addr R 1), block_size := bsize, maxcount := cnt\<rparr>\<rparr>,
      sw_sb = sb_addr R 1, sw_desc = desc_addr R 1, sw_marked = [sb_addr R 1], sw_avail = 0\<rparr>)"

lemma sample_sweep_first:
  "c \<le> NLIST \<Longrightarrow> unat bsize = cls_size c \<Longrightarrow> unat cnt = cls_count c \<Longrightarrow> marked_first (sample_sweep c bsize cnt) 1 c []"
  using sample_layout by (simp add: marked_first_def sample_sweep_def Let_def)

theorem gc_overwrites_large_block_witness:
  "\<exists>s'. sweep_step (sample_sweep NLIST 65536 1) = Inr s'
    \<and> load64 (w_mem (sw_world s')) (sb_addr (w_rgs sample_heap) 1) = PPTR_PATTERN_POS"
  using gc_overwrites_large_block [OF sample_sweep_first [of NLIST 65536 1]] by (auto simp: sample_sweep_def Let_def)

text \<open>A superblock of class 0 (8-byte blocks) with a marked block is taken for a large one: the
  sweep moves on by only the block size, so that the next round finds no marked block left,
  erases the descriptor of the superblock and goes on eight bytes past every superblock boundary.\<close>

lemma gc_erases_class0_descriptor:
  assumes "marked_first s k 0 xs"
  shows "\<exists>s' s''. sweep_step s = Inr s' \<and> sweep_step s' = Inr s''
    \<and> crossptr_is_null (dheap (w_desc (sw_world s'') (desc_addr (w_rgs (sw_world s)) k)))
    \<and> sw_sb s'' = sb_addr (w_rgs (sw_world s)) (Suc k) + 8"
proof -
  define w where "w = sw_world s"
  define R where "R = w_rgs w"
  note D = marked_firstD [OF assms, folded w_def, folded R_def]
  let ?sb = "sb_addr R k" and ?da = "desc_addr R k"
  have bs: "(ucast (block_size (w_desc w ?da)) :: u64) = 8"
    using D(12) by (simp add: word_unat_eq_iff cls_size_def NLIST_def class_bytes_def)
  have n0: "(0 :: u64) \<noteq> of_nat NLIST" by (simp add: NLIST_def)
  have "sweep_marked w ?sb ?da (?sb # xs) (w_mem w) 0 ?sb A = Inr (w_mem w, 0, ?sb + 8, A\<lparr>astate := SB_PARTIAL\<rparr>, xs)" for A
    using D(7,9-11) other_page_stops [OF D(13)] bs n0 by (simp add: Let_def R_def [symmetric])
  then have s1: "sweep_step s = Inr (sweep_large (s\<lparr>sw_world := w, sw_marked := xs\<rparr>))"
    using D(4-7,11) by (simp add: sweep_step_def Let_def w_def [symmetric] R_def [symmetric] Anchor3_def del: sweep_marked.simps)
  define s1 where "s1 = sweep_large (s\<lparr>sw_world := w, sw_marked := xs\<rparr>)"
  have u: "unat ?sb = unat (Regions_lookup R SB_IDX) + k * 65536" using unat_sb_addr [OF D(1), of k] D(3) by simp
  have u8: "unat (?sb + 8) = unat ?sb + 8"
    using u D(3) geom_nsb(2) [OF D(1)] unat_plus_of_nat [of ?sb 8] by simp
  have dl: "desc_lookup R (?sb + 8) = ?da" by (rule desc_lookup_in_sb [OF D(1), where d = 8]) (simp_all add: u8 u)
  have f: "sw_sb s1 = ?sb + 8" "sw_desc s1 = ?da" "sw_marked s1 = xs" "w_rgs (sw_world s1) = R"
    using dl bs by (simp_all add: s1_def sweep_large_def Let_def D(4,5) w_def [symmetric] R_def [symmetric])
  have page: "drop_bit SB_SHIFT (?sb + 8) = drop_bit SB_SHIFT ?sb"
  proof -
    obtain t where t: "unat (Regions_lookup R SB_IDX) = 65536 * t" using D(1) by (auto simp: geom_def mod_eq_0_iff_dvd elim: dvdE)
    have "unat (drop_bit 16 (?sb + 8)) = unat (drop_bit 16 ?sb)" using u u8 by (simp add: unat_drop_bit t)
    then show ?thesis by (simp add: SB_SHIFT_def word_unat_eq_iff)
  qed
  have "sweep_marked (sw_world s1) (sw_sb s1) (sw_desc s1) (sw_marked s1) m 0 (sw_sb s1) A = Inr (m, 0, sw_sb s1, A, xs)" for m A
    using other_page_stops [of xs "?sb + 8"] D(13) page f by simp
  then have "sweep_step s1 = Inr (sweep_empty (s1\<lparr>sw_marked := xs\<rparr>))" using f(3) by (simp add: sweep_step_def Let_def Anchor3_def)
  moreover have "crossptr_is_null (dheap (w_desc (sw_world (sweep_empty (s1\<lparr>sw_marked := xs\<rparr>))) ?da))" "sw_sb (sweep_empty (s1\<lparr>sw_marked := xs\<rparr>)) = sb_addr R (Suc k) + 8"
    using f by (simp_all add: sweep_empty_def Let_def Descriptor_def crossptr_is_null_def sb_addr_Suc [symmetric] algebra_simps)
  ultimately show ?thesis using s1 by (auto simp: s1_def w_def [symmetric] R_def [symmetric])
qed

lemma gc_erases_class0_descriptor_witness:
  "\<exists>s' s''. sweep_step (sample_sweep 0 8 8192) = Inr s' \<and> sweep_step s' = Inr s''
    \<and> crossptr_is_null (dheap (w_desc (sw_world s'') (desc_addr (w_rgs sample_heap) 1)))"
  using gc_erases_class0_descriptor [OF sample_sweep_first [of 0 8 8192]]
  by (auto simp: sample_sweep_def Let_def cls_count_def cls_size_def NLIST_def class_bytes_def)

end
