(* ===== verification/Bx_Dirty.thy ===== *)
theory Bx_Dirty
  imports Bx_Sweep
begin

text \<open>
  The dirty flag (\<open>is_dirty\<close>, \<open>set_dirty\<close>, \<open>set_clean\<close>, \<open>restart\<close> and \<open>writeback\<close> of \<open>BaseMeta\<close>): a robust
  mutex in the metadata region that a running process holds, so that the next process can tell
  from it how the previous one ended.  The pthread functions are a parameter.
\<close>

datatype lock_result = Acquired | EOWNERDEAD | EBUSY | EAGAIN | EINVAL | OtherError

record 'm pthread =
  mutex_trylock :: "'m \<Rightarrow> lock_result \<times> 'm"
  mutex_unlock :: "'m \<Rightarrow> 'm"
  mutex_consistent :: "'m \<Rightarrow> 'm"
  mutex_destroy :: "'m \<Rightarrow> 'm"
  mutex_init :: "'m \<Rightarrow> 'm"

definition set_dirty :: "'m pthread \<Rightarrow> 'm \<Rightarrow> 'm result" where
  "set_dirty P m =
     (case mutex_trylock P m of (s, m) \<Rightarrow>
        bindE (assertE ''s!=EOWNERDEAD&&\"previous apps died! call is_dirty first!\"'' (s \<noteq> EOWNERDEAD)) (\<lambda>_. Inr m))"

definition is_dirty :: "'m pthread \<Rightarrow> 'm \<Rightarrow> (bool \<times> 'm) result" where
  "is_dirty P m =
     (case mutex_trylock P m of (s, m) \<Rightarrow>
        (case s of
           EOWNERDEAD \<Rightarrow> Inr (True, mutex_consistent P m)
         | Acquired \<Rightarrow> Inr (False, mutex_unlock P m)
         | EBUSY \<Rightarrow> Inr (False, m)
         | EAGAIN \<Rightarrow> Inr (False, m)
         | EINVAL \<Rightarrow> Inr (True, mutex_init P (mutex_destroy P m))
         | OtherError \<Rightarrow> Inl (AssertFailed ''exit(1)'')))"

definition set_clean :: "'m pthread \<Rightarrow> 'm \<Rightarrow> 'm" where
  "set_clean P m = mutex_unlock P m"

definition restart :: "'m pthread \<Rightarrow> bool list \<Rightarrow> 'm \<times> world \<Rightarrow> (bool \<times> 'm \<times> world) result" where
  "restart P rf s = (case s of (m, w) \<Rightarrow>
     bindE (is_dirty P m) (\<lambda>(ret, m).
     bindE (if ret then GarbageCollection w rf else Inr w) (\<lambda>w.
     bindE (set_dirty P m) (\<lambda>m. Inr (ret, m, w)))))"

text \<open>\<open>writeback\<close>: the lines it flushes and the released mutex; \<open>sz\<close> is \<open>sizeof(BaseMeta)\<close>.\<close>

definition writeback :: "'m pthread \<Rightarrow> u64 \<Rightarrow> u64 \<Rightarrow> 'm \<Rightarrow> u64 list \<times> 'm" where
  "writeback P addr sz m = (meta_flush_lines addr sz, set_clean P m)"

text \<open>The mutex in the constructor of \<open>BaseMeta\<close>.\<close>

definition new_mutex :: "'m pthread \<Rightarrow> 'm \<Rightarrow> 'm result" where
  "new_mutex P m = set_dirty P (mutex_init P m)"

section \<open>Robust mutexes\<close>

text \<open>
  What POSIX says of a robust mutex, through a view \<open>st\<close> of its state: \<open>kill\<close> is the end of the
  process that may hold it, the first process that then locks it is told and must make it
  consistent before it may be unlocked.
\<close>

datatype lock_state = Free | Held | Dead | Inconsistent

definition robust_mutex :: "'m pthread \<Rightarrow> ('m \<Rightarrow> lock_state) \<Rightarrow> ('m \<Rightarrow> 'm) \<Rightarrow> bool" where
  "robust_mutex P st kill \<longleftrightarrow>
     (\<forall>m. (st m = Free \<longrightarrow> fst (mutex_trylock P m) = Acquired \<and> st (snd (mutex_trylock P m)) = Held)
        \<and> (st m = Held \<longrightarrow> mutex_trylock P m = (EBUSY, m))
        \<and> (st m = Dead \<longrightarrow> fst (mutex_trylock P m) = EOWNERDEAD \<and> st (snd (mutex_trylock P m)) = Inconsistent)
        \<and> (st m = Inconsistent \<longrightarrow> st (mutex_consistent P m) = Held)
        \<and> (st m = Held \<longrightarrow> st (mutex_unlock P m) = Free)
        \<and> st (mutex_init P m) = Free
        \<and> (st m = Held \<longrightarrow> st (kill m) = Dead) \<and> (st m = Free \<longrightarrow> st (kill m) = Free))"

lemma robustD:
  assumes "robust_mutex P st kill"
  shows "st m = Free \<Longrightarrow> \<exists>m'. mutex_trylock P m = (Acquired, m') \<and> st m' = Held"
    "st m = Held \<Longrightarrow> mutex_trylock P m = (EBUSY, m)"
    "st m = Dead \<Longrightarrow> \<exists>m'. mutex_trylock P m = (EOWNERDEAD, m') \<and> st m' = Inconsistent"
    "st m = Inconsistent \<Longrightarrow> st (mutex_consistent P m) = Held"
    "st m = Held \<Longrightarrow> st (mutex_unlock P m) = Free"
    "st (mutex_init P m) = Free"
    "st m = Held \<Longrightarrow> st (kill m) = Dead"
  using assms [unfolded robust_mutex_def, THEN spec, of m] by (simp_all add: prod_eq_iff)

lemma is_dirty_robust:
  assumes "robust_mutex P st kill"
  shows "st m = Free \<Longrightarrow> \<exists>m'. is_dirty P m = Inr (False, m') \<and> st m' = Free"
    "st m = Dead \<Longrightarrow> \<exists>m'. is_dirty P m = Inr (True, m') \<and> st m' = Held"
  using robustD(1,3) [OF assms, of m] robustD(4,5) [OF assms] by (auto simp: is_dirty_def)

lemma set_dirty_robust:
  assumes "robust_mutex P st kill" "st m = Free \<or> st m = Held"
  shows "\<exists>m'. set_dirty P m = Inr m' \<and> st m' = Held"
  using assms(2) robustD(1,2) [OF assms(1), of m] by (auto simp: set_dirty_def)

lemma restart_robust:
  assumes "robust_mutex P st kill" "st m = Free \<or> st m = Dead"
  shows "case restart P rf (m, w) of
      Inl e \<Rightarrow> st m = Dead \<and> GarbageCollection w rf = Inl e
    | Inr (ret, m', w') \<Rightarrow> st m' = Held \<and> (ret \<longleftrightarrow> st m = Dead) \<and> (if ret then GarbageCollection w rf = Inr w' else w' = w)"
proof (cases "st m = Dead")
  case True
  then obtain m1 where m1: "is_dirty P m = Inr (True, m1)" "st m1 = Held" using is_dirty_robust(2) [OF assms(1)] by blast
  obtain m2 where "set_dirty P m1 = Inr m2" "st m2 = Held" using set_dirty_robust [OF assms(1)] m1(2) by blast
  then show ?thesis using m1 True by (cases "GarbageCollection w rf") (simp_all add: restart_def)
next
  case False
  then have "st m = Free" using assms(2) by blast
  then obtain m1 where m1: "is_dirty P m = Inr (False, m1)" "st m1 = Free" using is_dirty_robust(1) [OF assms(1)] by blast
  obtain m2 where "set_dirty P m1 = Inr m2" "st m2 = Held" using set_dirty_robust [OF assms(1)] m1(2) by blast
  then show ?thesis using m1 False by (simp add: restart_def)
qed

section \<open>Runs of processes\<close>

text \<open>
  The life of a heap: it is created, its process works on it and ends by writing back or by being
  killed (losing its thread caches), and a new process restarts it.  The last component says
  whether a process is running.
\<close>

inductive life :: "'m pthread \<Rightarrow> ('m \<Rightarrow> 'm) \<Rightarrow> bool list \<Rightarrow> bool \<Rightarrow> bool \<Rightarrow> 'm \<Rightarrow> bool"
  for P kill rf where
  create: "new_mutex P m0 = Inr m \<Longrightarrow> life P kill rf True False m"
| exit: "life P kill rf True d m \<Longrightarrow> writeback P a sz m = (fl, m') \<Longrightarrow> life P kill rf False False m'"
| killed: "life P kill rf True d m \<Longrightarrow> life P kill rf False True (kill m)"
| again: "life P kill rf False d m \<Longrightarrow> restart P rf (m, w) = Inr (ret, m', w') \<Longrightarrow> life P kill rf True ret m'"

lemma life_lock:
  assumes "robust_mutex P st kill" "life P kill rf up d m"
  shows "st m = (if up then Held else if d then Dead else Free)"
  using assms(2)
proof (induction rule: life.induct)
  case (create m0 m)
  have "st (mutex_init P m0) = Free" by (rule robustD(6) [OF assms(1)])
  then show ?case using set_dirty_robust [OF assms(1), of "mutex_init P m0"] create by (auto simp: new_mutex_def)
next
  case (exit d m a sz fl m')
  then show ?case using robustD(5) [OF assms(1), of m] by (auto simp: writeback_def set_clean_def)
next
  case (killed d m)
  then show ?case using robustD(7) [OF assms(1), of m] by simp
next
  case (again d m w ret m' w')
  then have "st m = Free \<or> st m = Dead" by (auto split: if_splits)
  then show ?case using restart_robust [OF assms(1), where m = m and rf = rf and w = w] again(2) by simp
qed

section \<open>Properties\<close>


definition sample_pthread :: "lock_state pthread" where
  "sample_pthread = \<lparr>mutex_trylock = (\<lambda>m. case m of Free \<Rightarrow> (Acquired, Held) | Held \<Rightarrow> (EBUSY, Held) | Dead \<Rightarrow> (EOWNERDEAD, Inconsistent) | Inconsistent \<Rightarrow> (EBUSY, Inconsistent)),
     mutex_unlock = (\<lambda>m. case m of Held \<Rightarrow> Free | _ \<Rightarrow> m), mutex_consistent = (\<lambda>m. case m of Inconsistent \<Rightarrow> Held | _ \<Rightarrow> m),
     mutex_destroy = id, mutex_init = (\<lambda>_. Free)\<rparr>"

definition sample_kill :: "lock_state \<Rightarrow> lock_state" where
  "sample_kill m = (if m = Held then Dead else m)"

lemma sample_robust: "robust_mutex sample_pthread id sample_kill"
  by (simp add: robust_mutex_def sample_pthread_def sample_kill_def)





end
