(* ===== verification/Bx_Buddy.thy ===== *)
theory Bx_Buddy
  imports Bx_Region "HOL-Library.Signed_Division"
begin

unbundle bit_operations_syntax

text \<open>
  The buddy allocator of the large blocks (\<open>src/src/BuddyAllocator.h\<close>, \<open>BuddyAllocator.cpp\<close>):
  headers of 16 bytes in front of the blocks, one singly linked free list per power of two,
  \<open>alloc\<close> with splitting, \<open>free\<close> with merging, the constructors and the recovery scan.

  The C++ type \<open>int\<close> is HOL's \<open>int\<close>: a computation whose result leaves the 32-bit range is
  undefined behaviour and gives \<open>SignedOverflow\<close>, a conversion from a wider integer wraps.  The
  headers are a store from addresses to header values; \<open>bh_next = 0\<close> is the null pointer.
\<close>

definition cint :: "int \<Rightarrow> int result" where
  "cint x = (if - (2 ^ 31) \<le> x \<and> x < 2 ^ 31 then Inr x else Inl SignedOverflow)"

definition to_int :: "int \<Rightarrow> int" where
  "to_int x = signed_take_bit 31 x"

text \<open>\<open>int i = log2(x)\<close>: the logarithm of a positive \<open>int\<close> rounded down.\<close>

fun ilog2 :: "nat \<Rightarrow> nat" where
  "ilog2 n = (if n < 2 then 0 else Suc (ilog2 (n div 2)))"

declare ilog2.simps [simp del]

definition log2_int :: "int \<Rightarrow> nat result" where
  "log2_int x = (if x \<le> 0 then Inl BadConversion else Inr (ilog2 (nat x)))"

section \<open>Headers and lists\<close>

record block_header =
  bh_free :: bool
  bh_block_size :: int
  bh_next :: u64

type_synonym headers = "u64 \<Rightarrow> block_header"

definition HEADER_BYTES :: u64 where "HEADER_BYTES = 16"

definition LinkedList_insert :: "headers \<Rightarrow> u64 \<Rightarrow> u64 \<Rightarrow> headers \<times> u64" where
  "LinkedList_insert H head b = (H(b := (H b)\<lparr>bh_next := head\<rparr>), b)"

text \<open>The loops over a list: a list longer than the address space has a cycle and no end.\<close>

definition LIST_FUEL :: nat where "LIST_FUEL = 2 ^ 64"

fun remove_loop :: "nat \<Rightarrow> headers \<Rightarrow> u64 \<Rightarrow> u64 \<Rightarrow> headers result" where
  "remove_loop 0 H currPtr b = (if currPtr = 0 then Inr H else Inl NoProgress)"
| "remove_loop (Suc n) H currPtr b =
     (if currPtr = 0 then Inr H
      else if bh_next (H currPtr) = b then
        if b = 0 then Inl NullDeref
        else let H = H(currPtr := (H currPtr)\<lparr>bh_next := bh_next (H b)\<rparr>)
             in remove_loop n H (bh_next (H currPtr)) b
      else remove_loop n H (bh_next (H currPtr)) b)"

definition LinkedList_remove :: "headers \<Rightarrow> u64 \<Rightarrow> u64 \<Rightarrow> (headers \<times> u64) result" where
  "LinkedList_remove H head b =
     (if head = b then if head = 0 then Inl NullDeref else Inr (H, bh_next (H head))
      else bindE (remove_loop LIST_FUEL H head b) (\<lambda>H. Inr (H, head)))"

section \<open>Buddies\<close>

definition getbuddy :: "headers \<Rightarrow> u64 \<Rightarrow> u64 \<Rightarrow> u64" where
  "getbuddy H addr start = ((addr - start) XOR of_int (bh_block_size (H addr))) + start"

definition arebuddies :: "headers \<Rightarrow> u64 \<Rightarrow> u64 \<Rightarrow> u64 \<Rightarrow> bool" where
  "arebuddies H block1 block2 start \<longleftrightarrow> getbuddy H block1 start = block2"

definition buddy_merge :: "headers \<Rightarrow> u64 \<Rightarrow> u64 \<Rightarrow> (headers \<times> u64) result" where
  "buddy_merge H block1 block2 =
     (if block1 < block2
      then bindE (cint (bh_block_size (H block1) * 2)) (\<lambda>s. Inr (H(block1 := (H block1)\<lparr>bh_block_size := s\<rparr>), block1))
      else bindE (cint (bh_block_size (H block2) * 2)) (\<lambda>s. Inr (H(block2 := (H block2)\<lparr>bh_block_size := s\<rparr>), block2)))"

definition buddy_split :: "headers \<Rightarrow> u64 \<Rightarrow> headers \<times> u64" where
  "buddy_split H block =
     (let block2 = block + of_int (bh_block_size (H block) sdiv 2);
          H = H(block2 := \<lparr>bh_free = True, bh_block_size = bh_block_size (H block) sdiv 2, bh_next = 0\<rparr>);
          H = H(block := (H block)\<lparr>bh_next := block2, bh_block_size := bh_block_size (H block) sdiv 2\<rparr>)
      in (H, block))"

section \<open>The allocator\<close>

record buddy =
  FreeList :: "u64 list"
  basic_block_size :: int
  total_memory_size :: int
  max_block_size :: int
  bstart :: u64

record buddy_world =
  bw_buddy :: buddy
  bw_hdr :: headers
  bw_rgs :: regions

definition MIN_SB_REGION_SIZE :: u64 where "MIN_SB_REGION_SIZE = 1024 * 1024 * 1024"

text \<open>The first loop of \<open>alloc\<close>: the first level with a block that is large enough.\<close>

fun find_level :: "u64 list \<Rightarrow> int \<Rightarrow> int \<Rightarrow> nat \<Rightarrow> nat option result" where
  "find_level [] basic req i = Inr None"
| "find_level (h # hs) basic req i =
     (if h = 0 then find_level hs basic req (Suc i)
      else bindE (cint (req + 16)) (\<lambda>need. bindE (cint (2 ^ i * basic)) (\<lambda>room.
        if need > room then find_level hs basic req (Suc i) else Inr (Some i))))"

text \<open>
  The body of that loop when no level is left: the region grows by \<open>MIN_SB_REGION_SIZE\<close> and a
  block of \<open>max_block_size\<close> bytes is put on the last list.
\<close>

definition buddy_expand :: "buddy_world \<Rightarrow> buddy_world result" where
  "buddy_expand w =
     (case rgs (bw_rgs w) ! idx_no LAR_SB_IDX of
        None \<Rightarrow> Inl NullDeref
      | Some r \<Rightarrow>
          bindE (Regions_expand (bw_rgs w) LAR_SB_IDX (rf_curr (rfile r)) PAGESIZE MIN_SB_REGION_SIZE) (\<lambda>(res, a, R).
          bindE (assertE ''space runs out!'' (res \<noteq> -1)) (\<lambda>_.
          case a of
            None \<Rightarrow> Inl NoProgress
          | Some b \<Rightarrow>
              let B = bw_buddy w; l = length (FreeList B) - 1;
                  H = (bw_hdr w)(b := \<lparr>bh_free = True, bh_block_size = max_block_size B, bh_next = 0\<rparr>);
                  (H, h) = LinkedList_insert H (FreeList B ! l) b
              in Inr \<lparr>bw_buddy = B\<lparr>total_memory_size := to_int (total_memory_size B + uint MIN_SB_REGION_SIZE),
                         FreeList := (FreeList B)[l := h]\<rparr>,
                      bw_hdr = H, bw_rgs = R\<rparr>)))"

text \<open>The second loop: the block at the head of list \<open>i\<close> is halved while the half is larger than the request.\<close>

fun split_loop :: "headers \<Rightarrow> u64 list \<Rightarrow> int \<Rightarrow> int \<Rightarrow> nat \<Rightarrow> (headers \<times> u64 list \<times> nat) result" where
  "split_loop H F basic req 0 =
     (let half = bh_block_size (H (F ! 0)) sdiv 2 in
      bindE (cint (req + 16)) (\<lambda>need.
      if half > need \<and> half \<ge> basic then Inl OutOfBounds else Inr (H, F, 0)))"
| "split_loop H F basic req (Suc i) =
     (let half = bh_block_size (H (F ! Suc i)) sdiv 2 in
      bindE (cint (req + 16)) (\<lambda>need.
      if half > need \<and> half \<ge> basic then
        let b = bh_next (H (F ! Suc i));
            (H, h) = buddy_split H (F ! Suc i)
        in split_loop H (F[i := h, Suc i := b]) basic req i
      else Inr (H, F, Suc i)))"

definition alloc_from :: "(buddy_world \<Rightarrow> (u64 \<times> buddy_world) result) \<Rightarrow> int \<Rightarrow> buddy_world \<Rightarrow> (u64 \<times> buddy_world) result" where
  "alloc_from again req w =
     (let B = bw_buddy w in
      if FreeList B = [] then Inl OutOfBounds else
      bindE (find_level (FreeList B) (basic_block_size B) req 0) (\<lambda>l.
      case l of
        None \<Rightarrow> bindE (buddy_expand w) again
      | Some i \<Rightarrow>
          bindE (split_loop (bw_hdr w) (FreeList B) (basic_block_size B) req i) (\<lambda>(H, F, i).
          let b = F ! i in
          bindE (LinkedList_remove H (F ! i) b) (\<lambda>(H, h).
          Inr (b + HEADER_BYTES,
               w\<lparr>bw_buddy := B\<lparr>FreeList := F[i := h]\<rparr>, bw_hdr := H(b := (H b)\<lparr>bh_free := False\<rparr>)\<rparr>)))))"

primrec buddy_alloc :: "nat \<Rightarrow> int \<Rightarrow> buddy_world \<Rightarrow> (u64 \<times> buddy_world) result" where
  "buddy_alloc 0 req = alloc_from (\<lambda>_. Inl NoProgress) req"
| "buddy_alloc (Suc n) req = alloc_from (buddy_alloc n req) req"

text \<open>The loop of \<open>free\<close>: at most one round per level above \<open>i\<close>.\<close>

fun merge_loop :: "nat \<Rightarrow> headers \<Rightarrow> u64 list \<Rightarrow> u64 \<Rightarrow> u64 \<Rightarrow> nat \<Rightarrow> (headers \<times> u64 list) result" where
  "merge_loop 0 H F start b i = Inr (H, F)"
| "merge_loop (Suc n) H F start b i =
     (if bh_free (H (getbuddy H b start)) then
        bindE (LinkedList_remove H (F ! i) b) (\<lambda>(H, h).
        bindE (LinkedList_remove H h (getbuddy H b start)) (\<lambda>(H, h).
        bindE (buddy_merge H b (getbuddy H b start)) (\<lambda>(H, b).
        let (H, h') = LinkedList_insert H (F ! Suc i) b
        in merge_loop n H (F[i := h, Suc i := h']) start b (Suc i))))
      else Inr (H, F))"

definition buddy_free :: "buddy_world \<Rightarrow> u64 \<Rightarrow> buddy_world result" where
  "buddy_free w a =
     (let B = bw_buddy w; b = a - HEADER_BYTES; start = bstart B;
          H = (bw_hdr w)(b := (bw_hdr w b)\<lparr>bh_free := True\<rparr>) in
      bindE (log2_int (bh_block_size (H b) sdiv basic_block_size B)) (\<lambda>i.
      let len = length (FreeList B) in
      if bh_free (H (getbuddy H b start)) \<and> bh_block_size (H b) = bh_block_size (H (getbuddy H b start)) then
        bindE (merge_loop (len - 1 - i) H (FreeList B) start b i) (\<lambda>(H, F).
        Inr (w\<lparr>bw_buddy := B\<lparr>FreeList := F\<rparr>, bw_hdr := H\<rparr>))
      else if i < len then
        let (H, h) = LinkedList_insert H (FreeList B ! i) b
        in Inr (w\<lparr>bw_buddy := B\<lparr>FreeList := (FreeList B)[i := h]\<rparr>, bw_hdr := H\<rparr>)
      else Inl OutOfBounds))"


section \<open>Constructors\<close>

text \<open>
  The parameter \<open>max_block_size\<close> of the second constructor hides the member, which keeps whatever
  the memory held: \<open>junk\<close>.  \<open>FreeList.resize\<close> makes empty lists.
\<close>

fun init_loop :: "nat \<Rightarrow> headers \<Rightarrow> u64 \<Rightarrow> u64 \<Rightarrow> int \<Rightarrow> headers \<times> u64" where
  "init_loop 0 H head temp maxsz = (H, head)"
| "init_loop (Suc n) H head temp maxsz =
     (let H = H(temp := \<lparr>bh_free = True, bh_block_size = maxsz, bh_next = 0\<rparr>);
          (H, head) = LinkedList_insert H head temp
      in init_loop n H head (temp + of_int maxsz) maxsz)"

fun recover_loop :: "nat \<Rightarrow> headers \<Rightarrow> u64 list \<Rightarrow> u64 \<Rightarrow> u64 \<Rightarrow> int \<Rightarrow> (headers \<times> u64 list) result" where
  "recover_loop 0 H F cur ending basic = (if cur < ending then Inl NoProgress else Inr (H, F))"
| "recover_loop (Suc n) H F cur ending basic =
     (if cur < ending then
        bindE (if bh_free (H cur) then
                 bindE (log2_int (bh_block_size (H cur) sdiv basic)) (\<lambda>idx.
                 if idx < length F then
                   (let (H, h) = LinkedList_insert H (F ! idx) cur in Inr (H, F[idx := h]))
                 else Inl OutOfBounds)
               else Inr (H, F)) (\<lambda>(H, F).
        recover_loop n H F (cur + of_int (bh_block_size (H cur))) ending basic)
      else Inr (H, F))"

definition BuddyAllocator_new ::
    "int \<Rightarrow> headers \<Rightarrow> u64 \<Rightarrow> int \<Rightarrow> int \<Rightarrow> int \<Rightarrow> bool \<Rightarrow> (buddy \<times> headers) result" where
  "BuddyAllocator_new junk H start basic maxsz tot rec =
     bindE (log2_int (maxsz sdiv basic)) (\<lambda>l.
     let F = replicate (l + 1) 0;
         mk = (\<lambda>F. \<lparr>FreeList = F, basic_block_size = basic, total_memory_size = (tot sdiv basic) * basic,
                     max_block_size = junk, bstart = start\<rparr>) in
     if \<not> rec then
       let (H, h) = init_loop (nat (tot sdiv maxsz)) H (F ! l) start maxsz in Inr (mk (F[l := h]), H)
     else
       bindE (recover_loop LIST_FUEL H F start (start + of_int tot) basic) (\<lambda>(H, F). Inr (mk F, H)))"

text \<open>The constructor for transient memory: \<open>mem\<close> is the result of \<open>malloc\<close>.\<close>

definition BuddyAllocator_new_malloc :: "int \<Rightarrow> headers \<Rightarrow> u64 \<Rightarrow> int \<Rightarrow> int \<Rightarrow> (buddy \<times> headers) result" where
  "BuddyAllocator_new_malloc junk H mem basic tot =
     bindE (log2_int (tot sdiv basic)) (\<lambda>l.
     Inr (\<lparr>FreeList = (replicate (l + 1) 0)[l := mem], basic_block_size = basic, total_memory_size = tot,
            max_block_size = junk, bstart = mem\<rparr>,
          H(mem := \<lparr>bh_free = True, bh_block_size = tot, bh_next = 0\<rparr>)))"

definition BuddyAllocator_delete :: "buddy \<Rightarrow> buddy" where
  "BuddyAllocator_delete B = B\<lparr>FreeList := []\<rparr>"

section \<open>Statistics\<close>

text \<open>
  \<open>get_free_memory\<close>: the loop over one list gives the total so far, or says that it has reached
  the size asked for.
\<close>

fun sum_list_upto :: "nat \<Rightarrow> headers \<Rightarrow> u64 \<Rightarrow> int \<Rightarrow> u64 \<Rightarrow> u64 \<Rightarrow> (bool \<times> u64) result" where
  "sum_list_upto 0 H b blocksize sz tot = (if b = 0 then Inr (False, tot) else Inl NoProgress)"
| "sum_list_upto (Suc n) H b blocksize sz tot =
     (if b = 0 then Inr (False, tot)
      else let tot = tot + of_int blocksize in
        if tot \<ge> sz then Inr (True, tot)
        else if bh_block_size (H b) \<noteq> blocksize then Inl (AssertFailed ''ERROR:: Block is in a wrong list'')
        else sum_list_upto n H (bh_next (H b)) blocksize sz tot)"

fun free_memory_loop :: "headers \<Rightarrow> u64 list \<Rightarrow> int \<Rightarrow> nat \<Rightarrow> u64 \<Rightarrow> u64 \<Rightarrow> bool result" where
  "free_memory_loop H [] basic i sz tot = Inr False"
| "free_memory_loop H (h # hs) basic i sz tot =
     bindE (cint (2 ^ i * basic)) (\<lambda>blocksize.
     bindE (sum_list_upto LIST_FUEL H h blocksize sz tot) (\<lambda>(enough, tot).
     if enough then Inr True else free_memory_loop H hs basic (Suc i) sz tot))"

definition get_free_memory :: "buddy_world \<Rightarrow> u64 \<Rightarrow> bool result" where
  "get_free_memory w sz =
     free_memory_loop (bw_hdr w) (FreeList (bw_buddy w)) (basic_block_size (bw_buddy w)) 0 sz 0"

text \<open>\<open>printlist\<close>: for every level the block size, the number of blocks and the total so far.\<close>

fun count_list :: "nat \<Rightarrow> headers \<Rightarrow> u64 \<Rightarrow> int \<Rightarrow> int \<Rightarrow> int \<Rightarrow> (int \<times> int) result" where
  "count_list 0 H b blocksize tot cnt = (if b = 0 then Inr (tot, cnt) else Inl NoProgress)"
| "count_list (Suc n) H b blocksize tot cnt =
     (if b = 0 then Inr (tot, cnt)
      else if bh_block_size (H b) \<noteq> blocksize then Inl (AssertFailed ''ERROR:: Block is in a wrong list'')
      else count_list n H (bh_next (H b)) blocksize (tot + blocksize) (cnt + 1))"

fun print_loop :: "headers \<Rightarrow> u64 list \<Rightarrow> int \<Rightarrow> nat \<Rightarrow> int \<Rightarrow> (int \<times> int \<times> int) list result" where
  "print_loop H [] basic i tot = Inr []"
| "print_loop H (h # hs) basic i tot =
     bindE (cint (2 ^ i * basic)) (\<lambda>blocksize.
     bindE (count_list LIST_FUEL H h blocksize tot 0) (\<lambda>(tot, cnt).
     bindE (print_loop H hs basic (Suc i) tot) (\<lambda>ls. Inr ((blocksize, cnt, tot) # ls))))"

definition printlist :: "buddy_world \<Rightarrow> (int \<times> int \<times> int) list result" where
  "printlist w = print_loop (bw_hdr w) (FreeList (bw_buddy w)) (basic_block_size (bw_buddy w)) 0 0"

section \<open>The manager\<close>

record buddy_manager =
  largesb :: u64
  baseblock :: int
  maxblock :: int
  total_bytes :: int
  revover :: bool

definition BuddyManager :: "u64 \<Rightarrow> int \<Rightarrow> int \<Rightarrow> int \<Rightarrow> bool \<Rightarrow> buddy_manager" where
  "BuddyManager start a b c p = \<lparr>largesb = start, baseblock = a, maxblock = b, total_bytes = c, revover = p\<rparr>"

definition initBuddyAllocator :: "int \<Rightarrow> headers \<Rightarrow> buddy_manager \<Rightarrow> (buddy \<times> headers) result" where
  "initBuddyAllocator junk H M = BuddyAllocator_new junk H (largesb M) (baseblock M) (maxblock M) (total_bytes M) (revover M)"

text \<open>
  \<open>alloc\<close> calls itself after every expansion; a region of less than \<open>2 ^ 48\<close> bytes grows at most
  \<open>2 ^ 18\<close> times.
\<close>

definition EXPAND_FUEL :: nat where "EXPAND_FUEL = 2 ^ 18"

definition balloc :: "u64 \<Rightarrow> buddy_world \<Rightarrow> (u64 \<times> buddy_world) result" where
  "balloc sz w = buddy_alloc EXPAND_FUEL (to_int (uint sz)) w"

definition bfree :: "u64 \<Rightarrow> buddy_world \<Rightarrow> buddy_world result" where
  "bfree ptr w = buddy_free w ptr"

end
