(* ===== verification/Bx_Arena.thy ===== *)
theory Bx_Arena
  imports Bx_Buddy
begin

unbundle bit_operations_syntax

text \<open>
  The invariant of the buddy allocator: the arena is tiled by blocks whose sizes are powers of two
  and whose offsets are multiples of their size, and list \<open>j\<close> links exactly the free blocks of
  level \<open>j\<close>.  Offsets are counted in basic blocks.  Every operation of the allocator is a sequence
  of the steps shown here to preserve it: detach a block from its list, halve or join detached
  blocks, change the flag of a detached block, insert a detached block.
\<close>

section \<open>The arena\<close>

record arena =
  ar_start :: u64
  ar_shift :: nat
  ar_levels :: nat
  ar_units :: nat

definition arena_ok :: "arena \<Rightarrow> bool" where
  "arena_ok A \<longleftrightarrow> 5 \<le> ar_shift A \<and> 0 < ar_levels A \<and> ar_shift A + ar_levels A \<le> 31 \<and> ar_start A \<noteq> 0
     \<and> unat (ar_start A) + ar_units A * 2 ^ ar_shift A < 2 ^ 64 \<and> 2 ^ (ar_levels A - 1) dvd ar_units A"

definition unit_addr :: "arena \<Rightarrow> nat \<Rightarrow> u64" where
  "unit_addr A x = ar_start A + of_nat (x * 2 ^ ar_shift A)"

definition buddy_of :: "nat \<Rightarrow> nat \<Rightarrow> nat" where
  "buddy_of x j = (if even (x div 2 ^ j) then x + 2 ^ j else x - 2 ^ j)"

lemma unat_unit_addr:
  assumes "arena_ok A" "x \<le> ar_units A"
  shows "unat (unit_addr A x) = unat (ar_start A) + x * 2 ^ ar_shift A"
proof -
  have "x * 2 ^ ar_shift A \<le> ar_units A * 2 ^ ar_shift A" using assms(2) by simp
  then have lt: "unat (ar_start A) + x * 2 ^ ar_shift A < 2 ^ 64" using assms(1) unfolding arena_ok_def by linarith
  show ?thesis unfolding unit_addr_def by (rule unat_plus_of_nat) (use lt in simp)
qed

lemma unit_addr_inj:
  assumes "arena_ok A" "x \<le> ar_units A" "y \<le> ar_units A"
  shows "unit_addr A x = unit_addr A y \<longleftrightarrow> x = y"
proof
  assume e: "unit_addr A x = unit_addr A y"
  have "unat (ar_start A) + x * 2 ^ ar_shift A = unat (ar_start A) + y * 2 ^ ar_shift A"
    unfolding unat_unit_addr [OF assms(1,2), symmetric] unat_unit_addr [OF assms(1,3), symmetric] e by (rule refl)
  then show "x = y" by simp
qed simp

lemma unit_addr_less:
  assumes "arena_ok A" "x \<le> ar_units A" "y \<le> ar_units A"
  shows "unit_addr A x < unit_addr A y \<longleftrightarrow> x < y"
  using unat_unit_addr [OF assms(1,2)] unat_unit_addr [OF assms(1,3)] by (simp add: word_less_nat_alt)

lemma unit_addr_nonzero:
  assumes "arena_ok A" "x \<le> ar_units A"
  shows "unit_addr A x \<noteq> 0"
proof -
  have "unat (ar_start A) \<noteq> 0" using assms(1) by (simp add: arena_ok_def unat_eq_zero)
  then have "unat (unit_addr A x) \<noteq> 0" using unat_unit_addr [OF assms] by simp
  then show ?thesis by auto
qed

lemma unit_addr_plus: "unit_addr A x + of_nat (2 ^ ar_shift A * n) = unit_addr A (x + n)"
  by (simp add: unit_addr_def algebra_simps)

lemma xor_exp:
  assumes "k < 64"
  shows "(a :: u64) XOR 2 ^ k = (if bit a k then a - 2 ^ k else a + 2 ^ k)"
proof -
  have "a XOR 2 ^ k = flip_bit k a" by (simp add: flip_bit_def push_bit_eq_mult)
  then show ?thesis by (simp add: flip_bit_eq_if set_bit_eq unset_bit_eq)
qed

text \<open>The exclusive or of \<open>getbuddy\<close> computes the neighbour that completes a block of the next level.\<close>

lemma getbuddy_eq:
  assumes "arena_ok A" "j < ar_levels A" "bh_block_size (H (unit_addr A x)) = 2 ^ (ar_shift A + j)"
  shows "getbuddy H (unit_addr A x) (ar_start A) = unit_addr A (buddy_of x j)"
proof -
  let ?p = "ar_shift A" and ?a = "of_nat (x * 2 ^ ar_shift A) :: u64"
  have lt: "?p + j < 64" using assms(1,2) by (simp add: arena_ok_def)
  have "bit ?a (?p + j) \<longleftrightarrow> bit (x * 2 ^ ?p) (?p + j)" using lt by (simp only: bit_of_nat_iff) simp
  also have "\<dots> \<longleftrightarrow> odd (x div 2 ^ j)" by (simp add: bit_iff_odd power_add)
  finally have b: "bit ?a (?p + j) \<longleftrightarrow> odd (x div 2 ^ j)" .
  have e: "?a XOR of_int (2 ^ (?p + j)) = of_nat (buddy_of x j * 2 ^ ?p)"
  proof (cases "odd (x div 2 ^ j)")
    case True
    then have "x div 2 ^ j \<noteq> 0" by (intro notI) simp
    then have "2 ^ j \<le> x" by (simp add: div_eq_0_iff)
    then show ?thesis using True b xor_exp [OF lt, of ?a] by (simp add: buddy_of_def of_nat_diff power_add algebra_simps)
  next
    case False
    then show ?thesis using b xor_exp [OF lt, of ?a] by (simp add: buddy_of_def power_add algebra_simps)
  qed
  have "unit_addr A x - ar_start A = ?a" by (simp add: unit_addr_def)
  then show ?thesis unfolding getbuddy_def assms(3) using e by (simp add: unit_addr_def add.commute)
qed

section \<open>Tilings\<close>

type_synonym tiles = "nat \<Rightarrow> nat option"

definition tiling :: "arena \<Rightarrow> tiles \<Rightarrow> bool" where
  "tiling A lv \<longleftrightarrow>
     (\<forall>x j. lv x = Some j \<longrightarrow> j < ar_levels A \<and> 2 ^ j dvd x \<and> x + 2 ^ j \<le> ar_units A \<and> (\<forall>y. x < y \<and> y < x + 2 ^ j \<longrightarrow> lv y = None))
     \<and> (\<forall>y<ar_units A. \<exists>x j. lv x = Some j \<and> x \<le> y \<and> y < x + 2 ^ j)"

lemma tilingD:
  assumes "tiling A lv" "lv x = Some j"
  shows "j < ar_levels A" "2 ^ j dvd x" "x + 2 ^ j \<le> ar_units A" "x < y \<Longrightarrow> y < x + 2 ^ j \<Longrightarrow> lv y = None" "x < ar_units A"
proof -
  show "j < ar_levels A" "2 ^ j dvd x" "x + 2 ^ j \<le> ar_units A" "x < y \<Longrightarrow> y < x + 2 ^ j \<Longrightarrow> lv y = None"
    using assms unfolding tiling_def by blast+
  then show "x < ar_units A" using zero_less_power [of "2 :: nat" j] by linarith
qed

lemma tilingE:
  assumes "tiling A lv" "y < ar_units A"
  obtains x j where "lv x = Some j" "x \<le> y" "y < x + 2 ^ j"
  using assms unfolding tiling_def by blast

lemma tiles_disjoint:
  assumes "tiling A lv" "lv x = Some j" "lv y = Some k" "x \<noteq> y"
  shows "x + 2 ^ j \<le> y \<or> y + 2 ^ k \<le> x"
  using tilingD(4) [OF assms(1,2), of y] tilingD(4) [OF assms(1,3), of x] assms(2-4) by (metis linorder_neqE_nat not_le option.distinct(1))

lemma buddy_of_cases:
  assumes "2 ^ j dvd x"
  obtains "even (x div 2 ^ j)" "buddy_of x j = x + 2 ^ j" "2 ^ Suc j dvd x"
  | "odd (x div 2 ^ j)" "x = buddy_of x j + 2 ^ j" "2 ^ Suc j dvd buddy_of x j"
proof (cases "even (x div 2 ^ j)")
  case True
  then have "2 ^ Suc j dvd x" using assms by (metis dvd_mult_div_cancel mult.commute mult_dvd_mono power_Suc dvd_refl)
  then show ?thesis using that(1) True by (simp add: buddy_of_def)
next
  case False
  obtain q where q: "x = 2 ^ j * q" using assms by blast
  then have "odd q" using False by simp
  then obtain r where "q = 2 * r + 1" by (elim oddE)
  then have "x = 2 ^ Suc j * r + 2 ^ j" using q by (simp add: algebra_simps)
  then show ?thesis using that(2) False by (simp add: buddy_of_def)
qed

lemma buddy_of_le:
  assumes "tiling A lv" "arena_ok A" "lv x = Some j" "Suc j < ar_levels A"
  shows "buddy_of x j + 2 ^ j \<le> ar_units A"
proof -
  have d: "2 ^ Suc j dvd ar_units A"
    using assms(2,4) by (metis Suc_le_eq Suc_pred' arena_ok_def dvd_trans le_imp_power_dvd less_Suc_eq_le)
  note t = tilingD [OF assms(1,3)]
  show ?thesis
  proof (rule buddy_of_cases [OF t(2)])
    assume a: "buddy_of x j = x + 2 ^ j" "2 ^ Suc j dvd x"
    obtain q r where q: "x = 2 ^ Suc j * q" "ar_units A = 2 ^ Suc j * r" using a(2) d by (auto elim!: dvdE)
    then have "2 ^ Suc j * q < 2 ^ Suc j * r" using t(5) by simp
    then have "q + 1 \<le> r" by simp
    then have "2 ^ Suc j * (q + 1) \<le> 2 ^ Suc j * r" by (rule mult_le_mono2)
    then show ?thesis using a(1) q by simp
  next
    assume "x = buddy_of x j + 2 ^ j"
    then show ?thesis using t(3) by linarith
  qed
qed

text \<open>Where the buddy would be there is always a block, of the same size or smaller.\<close>

lemma buddy_is_block:
  assumes "tiling A lv" "arena_ok A" "lv x = Some j" "Suc j < ar_levels A"
  shows "\<exists>k\<le>j. lv (buddy_of x j) = Some k"
proof -
  let ?y = "buddy_of x j"
  note t = tilingD [OF assms(1,3)]
  have "?y < ar_units A" using buddy_of_le [OF assms] zero_less_power [of "2 :: nat" j] by linarith
  then obtain z k where z: "lv z = Some k" "z \<le> ?y" "?y < z + 2 ^ k" using tilingE [OF assms(1)] by blast
  note tz = tilingD [OF assms(1) z(1)]
  have dy: "2 ^ j dvd ?y"
  proof (rule buddy_of_cases [OF t(2)])
    assume "2 ^ Suc j dvd ?y"
    then show ?thesis by (rule power_le_dvd) simp
  qed (use t(2) in simp)
  show ?thesis
  proof (cases "k \<le> j")
    case True
    then have "2 ^ k dvd ?y" using dy le_imp_power_dvd dvd_trans by blast
    then have d: "2 ^ k dvd ?y - z" using tz(2) z(2) by (simp add: dvd_diff_nat)
    have "?y - z < 2 ^ k" using z(2,3) by simp
    then have "?y = z" using d z(2) by (metis diff_is_0_eq dvd_imp_le le_antisym not_le zero_less_diff)
    then show ?thesis using True z(1) by blast
  next
    case False
    then have dz: "2 ^ Suc j dvd z" "2 ^ Suc j dvd (2 :: nat) ^ k" using tz(2) by (meson Suc_leI dvd_trans le_imp_power_dvd not_le)+
    have "z \<le> x \<and> x < z + 2 ^ k"
    proof (rule buddy_of_cases [OF t(2)])
      assume a: "?y = x + 2 ^ j" "2 ^ Suc j dvd x"
      obtain q r where q: "x = 2 ^ Suc j * q" "z = 2 ^ Suc j * r" using a(2) dz(1) by (auto elim!: dvdE)
      have "x + 2 ^ j < x + 2 ^ Suc j" by simp
      then have "2 ^ Suc j * r < 2 ^ Suc j * (q + 1)" using z(2) a(1) q by (simp only: distrib_left mult_1_right)
      then have "r < q + 1" by (rule mult_left_less_imp_less) simp
      then show ?thesis using z(3) a(1) q by simp
    next
      assume a: "x = ?y + 2 ^ j" "2 ^ Suc j dvd ?y"
      obtain q r s where q: "?y = 2 ^ Suc j * q" "z = 2 ^ Suc j * r" "(2 :: nat) ^ k = 2 ^ Suc j * s" using a(2) dz by (auto elim!: dvdE)
      have "2 ^ Suc j * q < 2 ^ Suc j * (r + s)" using z(3) q by (simp add: algebra_simps)
      then have "q + 1 \<le> r + s" by simp
      then have "2 ^ Suc j * (q + 1) \<le> 2 ^ Suc j * (r + s)" by (rule mult_le_mono2)
      then have "?y + 2 ^ Suc j \<le> z + 2 ^ k" using q by (simp add: algebra_simps)
      moreover have "(2 :: nat) ^ j < 2 ^ Suc j" by simp
      ultimately show ?thesis using z(2) a(1) by linarith
    qed
    moreover have "z \<noteq> x" using z(1) assms(3) False by auto
    ultimately show ?thesis using tz(4) [of x] assms(3) by simp
  qed
qed


section \<open>Free lists\<close>

fun fchain :: "arena \<Rightarrow> headers \<Rightarrow> u64 \<Rightarrow> nat list \<Rightarrow> bool" where
  "fchain A H h [] \<longleftrightarrow> h = 0"
| "fchain A H h (x # xs) \<longleftrightarrow> h = unit_addr A x \<and> fchain A H (bh_next (H h)) xs"

lemma fchain_cong: "(\<And>x. x \<in> set xs \<Longrightarrow> bh_next (H' (unit_addr A x)) = bh_next (H (unit_addr A x))) \<Longrightarrow> fchain A H' h xs = fchain A H h xs"
  by (induction xs arbitrary: h) auto

text \<open>Headers that differ in their links only, at the given addresses.\<close>

definition relinked :: "u64 set \<Rightarrow> headers \<Rightarrow> headers \<Rightarrow> bool" where
  "relinked S H H' \<longleftrightarrow> (\<forall>a. bh_free (H' a) = bh_free (H a) \<and> bh_block_size (H' a) = bh_block_size (H a)) \<and> (\<forall>a. a \<notin> S \<longrightarrow> H' a = H a)"

lemma relinked_refl [simp]: "relinked S H H"
  by (simp add: relinked_def)

lemma relinked_mono: "relinked S H H' \<Longrightarrow> S \<subseteq> T \<Longrightarrow> relinked T H H'"
  by (auto simp: relinked_def)

lemma remove_loop_absent:
  assumes "arena_ok A" "y \<le> ar_units A"
  shows "fchain A H h xs \<Longrightarrow> y \<notin> set xs \<Longrightarrow> \<forall>x\<in>set xs. x \<le> ar_units A \<Longrightarrow> length xs \<le> n \<Longrightarrow> remove_loop n H h (unit_addr A y) = Inr H"
proof (induction xs arbitrary: h n)
  case Nil
  then show ?case by (cases n) simp_all
next
  case (Cons x xs)
  then obtain n' where n: "n = Suc n'" by (cases n) auto
  have h: "h = unit_addr A x" "h \<noteq> 0" using Cons.prems(1,3) unit_addr_nonzero [OF assms(1), of x] by auto
  have "bh_next (H h) \<noteq> unit_addr A y"
  proof (cases xs)
    case (Cons z zs)
    then show ?thesis using Cons.prems(1-3) unit_addr_inj [OF assms(1) _ assms(2), of z] by auto
  qed (use Cons.prems(1) unit_addr_nonzero [OF assms] in auto)
  then show ?case using Cons h n by simp
qed

lemma remove_loop_chain:
  assumes "arena_ok A" "y \<le> ar_units A"
  shows "fchain A H h (x # xs) \<Longrightarrow> y \<noteq> x \<Longrightarrow> distinct (x # xs) \<Longrightarrow> \<forall>z\<in>set (x # xs). z \<le> ar_units A \<Longrightarrow> length (x # xs) \<le> n
    \<Longrightarrow> \<exists>H'. remove_loop n H h (unit_addr A y) = Inr H' \<and> fchain A H' h (x # remove1 y xs) \<and> relinked (unit_addr A ` set (x # xs)) H H'"
proof (induction xs arbitrary: x h n)
  case Nil
  then show ?case using remove_loop_absent [OF assms, of H h "[x]" n] by (intro exI [of _ H]) auto
next
  case (Cons z zs)
  obtain n' where n: "n = Suc n'" "length (z # zs) \<le> n'" using Cons.prems(5) by (cases n) auto
  have h: "h = unit_addr A x" "h \<noteq> 0" using Cons.prems(1,4) unit_addr_nonzero [OF assms(1), of x] by auto
  have nx: "bh_next (H h) = unit_addr A z" "fchain A H (bh_next (H (unit_addr A z))) zs" using Cons.prems(1) by auto
  have inj: "unit_addr A u \<noteq> h" if "u \<in> set (z # zs)" for u
    using Cons.prems(3,4) that h(1) unit_addr_inj [OF assms(1), of u x] by auto
  show ?case
  proof (cases "z = y")
    case True
    let ?H = "H(h := (H h)\<lparr>bh_next := bh_next (H (unit_addr A y))\<rparr>)"
    have c: "fchain A ?H (bh_next (?H h)) zs" using nx(2) inj True fchain_cong [of zs ?H A H] by simp
    have "remove_loop n' ?H (bh_next (?H h)) (unit_addr A y) = Inr ?H"
      by (rule remove_loop_absent [OF assms c]) (use Cons.prems(3,4) True n(2) in auto)
    then have "remove_loop n H h (unit_addr A y) = Inr ?H"
      using h nx True unit_addr_nonzero [OF assms] by (simp add: n(1))
    moreover have "relinked (unit_addr A ` set (x # z # zs)) H ?H" using h(1) by (simp add: relinked_def)
    moreover have "fchain A ?H h (x # remove1 y (z # zs))" using c True h(1) by simp
    ultimately show ?thesis by blast
  next
    case False
    have ch: "fchain A H (unit_addr A z) (z # zs)" using nx(2) by simp
    obtain H' where H': "remove_loop n' H (unit_addr A z) (unit_addr A y) = Inr H'" "fchain A H' (unit_addr A z) (z # remove1 y zs)"
      "relinked (unit_addr A ` set (z # zs)) H H'"
      using Cons.IH [OF ch _ _ _ n(2)] False Cons.prems(3,4) by auto
    have same: "H' h = H h" using H'(3) inj unfolding relinked_def by (metis imageE)
    have "unit_addr A z \<noteq> unit_addr A y" using False Cons.prems(4) unit_addr_inj [OF assms(1) _ assms(2), of z] by simp
    then have "remove_loop n H h (unit_addr A y) = Inr H'" using H'(1) h nx(1) by (simp add: n(1))
    then show ?thesis using H'(2) False h(1) nx(1) same relinked_mono [OF H'(3), of "unit_addr A ` set (x # z # zs)"]
      by (intro exI [of _ H']) auto
  qed
qed

lemma LinkedList_remove_chain:
  assumes "arena_ok A" "y \<le> ar_units A" "fchain A H h xs" "distinct xs" "\<forall>z\<in>set xs. z \<le> ar_units A"
  shows "\<exists>H' h'. LinkedList_remove H h (unit_addr A y) = Inr (H', h') \<and> fchain A H' h' (remove1 y xs) \<and> relinked (unit_addr A ` set xs) H H'"
proof -
  have "set xs \<subseteq> {..ar_units A}" using assms(5) by auto
  then have "card (set xs) \<le> ar_units A + 1" using card_mono [of "{..ar_units A}"] by simp
  moreover have "ar_units A + 1 \<le> 2 ^ 64"
  proof -
    have "ar_units A * 1 \<le> ar_units A * 2 ^ ar_shift A" by (intro mult_le_mono2) simp
    then show ?thesis using assms(1) unfolding arena_ok_def by linarith
  qed
  ultimately have len: "length xs \<le> LIST_FUEL" using distinct_card [OF assms(4)] by (simp add: LIST_FUEL_def)
  note nz = unit_addr_nonzero [OF assms(1,2)]
  show ?thesis
  proof (cases xs)
    case Nil
    have "remove_loop LIST_FUEL H h (unit_addr A y) = Inr H"
      by (rule remove_loop_absent [OF assms(1,2,3)]) (use Nil in simp_all)
    then show ?thesis using Nil assms(3) nz by (intro exI [of _ H] exI [of _ h]) (simp add: LinkedList_remove_def)
  next
    case (Cons x zs)
    show ?thesis
    proof (cases "y = x")
      case True
      then show ?thesis using Cons assms(3) nz by (intro exI [of _ H] exI [of _ "bh_next (H h)"]) (auto simp: LinkedList_remove_def)
    next
      case False
      obtain H' where "remove_loop LIST_FUEL H h (unit_addr A y) = Inr H'" "fchain A H' h (x # remove1 y zs)"
        "relinked (unit_addr A ` set (x # zs)) H H'"
        using remove_loop_chain [OF assms(1,2), of H h x zs LIST_FUEL] assms(3-5) len False unfolding Cons by blast
      moreover have "h \<noteq> unit_addr A y" using assms(3,5) Cons False unit_addr_inj [OF assms(1) _ assms(2), of x] by simp
      ultimately show ?thesis using Cons False by (intro exI [of _ H'] exI [of _ h]) (auto simp: LinkedList_remove_def)
    qed
  qed
qed


section \<open>The invariant\<close>

text \<open>\<open>D\<close> is the set of the free blocks that an operation holds off their list.\<close>

definition lists_ok :: "arena \<Rightarrow> headers \<Rightarrow> u64 list \<Rightarrow> tiles \<Rightarrow> (nat \<Rightarrow> nat list) \<Rightarrow> nat set \<Rightarrow> bool" where
  "lists_ok A H F lv fl D \<longleftrightarrow> length F = ar_levels A \<and> (\<forall>j<ar_levels A. fchain A H (F ! j) (fl j) \<and> distinct (fl j)
     \<and> set (fl j) = {x. lv x = Some j \<and> bh_free (H (unit_addr A x))} - D)"

definition sizes_ok :: "arena \<Rightarrow> headers \<Rightarrow> tiles \<Rightarrow> bool" where
  "sizes_ok A H lv \<longleftrightarrow> (\<forall>x j. lv x = Some j \<longrightarrow> bh_block_size (H (unit_addr A x)) = 2 ^ (ar_shift A + j))"

definition binv :: "arena \<Rightarrow> headers \<Rightarrow> u64 list \<Rightarrow> tiles \<Rightarrow> (nat \<Rightarrow> nat list) \<Rightarrow> nat set \<Rightarrow> bool" where
  "binv A H F lv fl D \<longleftrightarrow> arena_ok A \<and> tiling A lv \<and> sizes_ok A H lv \<and> lists_ok A H F lv fl D"

definition used :: "arena \<Rightarrow> headers \<Rightarrow> tiles \<Rightarrow> (nat \<times> nat) set" where
  "used A H lv = {(x, j). lv x = Some j \<and> \<not> bh_free (H (unit_addr A x))}"

lemma binvD:
  assumes "binv A H F lv fl D"
  shows "arena_ok A" "tiling A lv" "sizes_ok A H lv" "lists_ok A H F lv fl D" "length F = ar_levels A"
    "j < ar_levels A \<Longrightarrow> fchain A H (F ! j) (fl j)" "j < ar_levels A \<Longrightarrow> distinct (fl j)"
    "j < ar_levels A \<Longrightarrow> x \<in> set (fl j) \<longleftrightarrow> lv x = Some j \<and> bh_free (H (unit_addr A x)) \<and> x \<notin> D"
  using assms by (auto simp: binv_def lists_ok_def)

lemma binv_size: "binv A H F lv fl D \<Longrightarrow> lv x = Some j \<Longrightarrow> bh_block_size (H (unit_addr A x)) = 2 ^ (ar_shift A + j)"
  by (simp add: binv_def sizes_ok_def)

lemma binv_le: "binv A H F lv fl D \<Longrightarrow> lv x = Some j \<Longrightarrow> x \<le> ar_units A \<and> j < ar_levels A"
  using binvD(2) tilingD(1,5) less_imp_le_nat by blast

lemma blocks_inj:
  assumes "binv A H F lv fl D" "lv x = Some j" "lv y = Some k"
  shows "unit_addr A x = unit_addr A y \<longleftrightarrow> x = y"
  using binv_le [OF assms(1,2)] binv_le [OF assms(1,3)] unit_addr_inj [OF binvD(1) [OF assms(1)]] by blast

text \<open>Changes to the headers and the tiling that leave the blocks on the lists alone.\<close>

lemma binv_update:
  assumes "binv A H F lv fl D" "tiling A lv'" "sizes_ok A H' lv'"
    "\<And>x j. lv x = Some j \<Longrightarrow> bh_free (H (unit_addr A x)) \<Longrightarrow> x \<notin> D \<Longrightarrow> bh_next (H' (unit_addr A x)) = bh_next (H (unit_addr A x))"
    "\<And>x j. lv' x = Some j \<and> bh_free (H' (unit_addr A x)) \<and> x \<notin> D' \<longleftrightarrow> lv x = Some j \<and> bh_free (H (unit_addr A x)) \<and> x \<notin> D"
  shows "binv A H' F lv' fl D'"
proof -
  note i = binvD [OF assms(1)]
  have "fchain A H' (F ! j) (fl j) \<and> distinct (fl j) \<and> set (fl j) = {x. lv' x = Some j \<and> bh_free (H' (unit_addr A x))} - D'" if j: "j < ar_levels A" for j
  proof -
    have "fchain A H' (F ! j) (fl j) = fchain A H (F ! j) (fl j)"
      by (rule fchain_cong) (use i(8) [OF j] assms(4) in blast)
    moreover have "set (fl j) = {x. lv' x = Some j \<and> bh_free (H' (unit_addr A x))} - D'"
      using i(8) [OF j] assms(5) by blast
    ultimately show ?thesis using i(6,7) [OF j] by blast
  qed
  then show ?thesis using i(1,5) assms(2,3) by (simp add: binv_def lists_ok_def)
qed

text \<open>Changes to one list.\<close>

lemma binv_list:
  assumes "binv A H F lv fl D" "j < ar_levels A" "fchain A H' h xs" "distinct xs" "relinked S H H'"
    "set xs = {x. lv x = Some j \<and> bh_free (H (unit_addr A x))} - D'"
    "\<And>k x. k \<noteq> j \<Longrightarrow> lv x = Some k \<Longrightarrow> unit_addr A x \<notin> S \<and> (x \<in> D' \<longleftrightarrow> x \<in> D)"
  shows "binv A H' (F[j := h]) lv (fl(j := xs)) D'"
proof -
  note i = binvD [OF assms(1)]
  have same: "bh_free (H' a) = bh_free (H a)" "bh_block_size (H' a) = bh_block_size (H a)" for a
    using assms(5) by (simp_all add: relinked_def)
  have "fchain A H' (F ! k) (fl k)" if k: "k < ar_levels A" "k \<noteq> j" for k
  proof -
    have "H' (unit_addr A x) = H (unit_addr A x)" if "x \<in> set (fl k)" for x
      using that i(8) [OF k(1)] assms(7) [OF k(2)] assms(5) by (auto simp: relinked_def)
    then show ?thesis using i(6) [OF k(1)] fchain_cong [of "fl k" H' A H] by simp
  qed
  moreover have "set (fl k) = {x. lv x = Some k \<and> bh_free (H' (unit_addr A x))} - D'" if k: "k < ar_levels A" "k \<noteq> j" for k
    using i(8) [OF k(1)] assms(7) [OF k(2)] same by blast
  ultimately have "lists_ok A H' (F[j := h]) lv (fl(j := xs)) D'"
    using assms(2-4,6) i(5,7) same by (simp add: lists_ok_def nth_list_update)
  moreover have "sizes_ok A H' lv" using i(3) same by (simp add: sizes_ok_def)
  ultimately show ?thesis using i(1,2) by (simp add: binv_def)
qed

lemma detach_head:
  assumes "binv A H F lv fl D" "j < ar_levels A" "fl j = x # xs"
  shows "F ! j = unit_addr A x" "F ! j \<noteq> 0" "lv x = Some j" "bh_free (H (unit_addr A x))" "x \<notin> D"
    "binv A H (F[j := bh_next (H (F ! j))]) lv (fl(j := xs)) (insert x D)"
proof -
  note i = binvD [OF assms(1)]
  show h: "F ! j = unit_addr A x" using i(6) [OF assms(2)] assms(3) by simp
  show x: "lv x = Some j" "bh_free (H (unit_addr A x))" "x \<notin> D" using i(8) [OF assms(2), of x] assms(3) by simp_all
  show "F ! j \<noteq> 0" using h unit_addr_nonzero [OF i(1)] binv_le [OF assms(1) x(1)] by simp
  have "set xs = set (fl j) - {x}" using i(7) [OF assms(2)] assms(3) by auto
  then have "set xs = {y. lv y = Some j \<and> bh_free (H (unit_addr A y))} - insert x D" using i(8) [OF assms(2)] by auto
  note set = this
  show "binv A H (F[j := bh_next (H (F ! j))]) lv (fl(j := xs)) (insert x D)"
  proof (rule binv_list [OF assms(1,2) _ _ relinked_refl [of "{}"] set])
    show "fchain A H (bh_next (H (F ! j))) xs" "distinct xs" using i(6,7) [OF assms(2)] unfolding assms(3) by auto
    show "unit_addr A y \<notin> {} \<and> (y \<in> insert x D \<longleftrightarrow> y \<in> D)" if "k \<noteq> j" "lv y = Some k" for k y using that x(1) by auto
  qed
qed

lemma remove_block:
  assumes "binv A H F lv fl D" "lv x = Some j" "bh_free (H (unit_addr A x))"
  shows "\<exists>H' h'. LinkedList_remove H (F ! j) (unit_addr A x) = Inr (H', h') \<and> relinked UNIV H H'
    \<and> binv A H' (F[j := h']) lv (fl(j := remove1 x (fl j))) (insert x D)"
proof -
  note i = binvD [OF assms(1)]
  have j: "j < ar_levels A" "x \<le> ar_units A" using binv_le [OF assms(1,2)] by auto
  have le: "\<forall>z\<in>set (fl j). z \<le> ar_units A" using i(8) [OF j(1)] binv_le [OF assms(1)] by blast
  obtain H' h' where H': "LinkedList_remove H (F ! j) (unit_addr A x) = Inr (H', h')" "fchain A H' h' (remove1 x (fl j))"
    "relinked (unit_addr A ` set (fl j)) H H'"
    using LinkedList_remove_chain [OF i(1) j(2) i(6,7) [OF j(1)] le] by blast
  have "unit_addr A y \<notin> unit_addr A ` set (fl j)" if "k \<noteq> j" "lv y = Some k" for k y
  proof
    assume "unit_addr A y \<in> unit_addr A ` set (fl j)"
    then obtain z where "z \<in> set (fl j)" "unit_addr A y = unit_addr A z" by auto
    then show False using i(8) [OF j(1), of z] blocks_inj [OF assms(1) that(2), of z] that by auto
  qed
  moreover have "set (remove1 x (fl j)) = {y. lv y = Some j \<and> bh_free (H (unit_addr A y))} - insert x D"
    using i(7,8) [OF j(1)] by (auto simp: set_remove1_eq)
  ultimately have "binv A H' (F[j := h']) lv (fl(j := remove1 x (fl j))) (insert x D)"
    using i(7) [OF j(1)] assms(2) by (intro binv_list [OF assms(1) j(1) H'(2) _ H'(3)]) auto
  then show ?thesis using H'(1) relinked_mono [OF H'(3)] by blast
qed

lemma insert_block:
  assumes "binv A H F lv fl D" "lv x = Some j" "bh_free (H (unit_addr A x))" "x \<in> D"
    "LinkedList_insert H (F ! j) (unit_addr A x) = (H', h')"
  shows "h' = unit_addr A x" "relinked UNIV H H'" "binv A H' (F[j := h']) lv (fl(j := x # fl j)) (D - {x})"
proof -
  note i = binvD [OF assms(1)]
  have j: "j < ar_levels A" using binv_le [OF assms(1,2)] by auto
  have H': "H' = H(unit_addr A x := (H (unit_addr A x))\<lparr>bh_next := F ! j\<rparr>)" and h': "h' = unit_addr A x"
    using assms(5) by (auto simp: LinkedList_insert_def)
  show "h' = unit_addr A x" by (rule h')
  have rel: "relinked {unit_addr A x} H H'" by (simp add: relinked_def H')
  then show "relinked UNIV H H'" by (rule relinked_mono) simp
  have x: "x \<notin> set (fl j)" using i(8) [OF j] assms(4) by blast
  have "fchain A H' (F ! j) (fl j) = fchain A H (F ! j) (fl j)"
    by (rule fchain_cong) (use x i(8) [OF j] blocks_inj [OF assms(1) _ assms(2)] in \<open>auto simp: H'\<close>)
  then have c: "fchain A H' h' (x # fl j)" using i(6) [OF j] by (simp add: h' H')
  show "binv A H' (F[j := h']) lv (fl(j := x # fl j)) (D - {x})"
  proof (rule binv_list [OF assms(1) j c _ rel])
    show "distinct (x # fl j)" using x i(7) [OF j] by simp
    show "set (x # fl j) = {y. lv y = Some j \<and> bh_free (H (unit_addr A y))} - (D - {x})" using i(8) [OF j] assms(2,3) by auto
    show "unit_addr A y \<notin> {unit_addr A x} \<and> (y \<in> D - {x} \<longleftrightarrow> y \<in> D)" if "k \<noteq> j" "lv y = Some k" for k y
      using that blocks_inj [OF assms(1) that(2) assms(2)] assms(2) by auto
  qed
qed

lemma set_free_flag:
  assumes "binv A H F lv fl D" "lv x = Some j" "x \<in> D \<or> \<not> bh_free (H (unit_addr A x))"
  shows "binv A (H(unit_addr A x := (H (unit_addr A x))\<lparr>bh_free := b\<rparr>)) F lv fl (if b then insert x D else D - {x})"
proof (rule binv_update [OF assms(1)])
  note i = binvD [OF assms(1)]
  show "tiling A lv" by (rule i(2))
  show "sizes_ok A (H(unit_addr A x := (H (unit_addr A x))\<lparr>bh_free := b\<rparr>)) lv"
    using i(3) unfolding sizes_ok_def by (metis (no_types, lifting) block_header.simps(2) block_header.surjective block_header.update_convs(1) fun_upd_apply)
next
  fix y k
  show "lv y = Some k \<and> bh_free ((H(unit_addr A x := (H (unit_addr A x))\<lparr>bh_free := b\<rparr>)) (unit_addr A y)) \<and> y \<notin> (if b then insert x D else D - {x}) \<longleftrightarrow>
    lv y = Some k \<and> bh_free (H (unit_addr A y)) \<and> y \<notin> D"
    using blocks_inj [OF assms(1) _ assms(2), of y k] assms(2,3) by auto
qed simp


section \<open>Halving and joining\<close>

lemma tiling_split:
  assumes "tiling A lv" "lv x = Some (Suc j)"
  shows "lv (x + 2 ^ j) = None" "tiling A (lv(x \<mapsto> j, x + 2 ^ j \<mapsto> j))"
proof -
  let ?y = "x + 2 ^ j" and ?lv = "lv(x \<mapsto> j, x + 2 ^ j \<mapsto> j)"
  have pos: "(0 :: nat) < 2 ^ j" "(2 :: nat) ^ Suc j = 2 ^ j + 2 ^ j" by simp_all
  note t = tilingD [OF assms]
  show y: "lv ?y = None" using t(4) [of ?y] pos by simp
  have one: "k < ar_levels A \<and> 2 ^ k dvd z \<and> z + 2 ^ k \<le> ar_units A \<and> (\<forall>u. z < u \<and> u < z + 2 ^ k \<longrightarrow> ?lv u = None)"
    if z: "?lv z = Some k" for z k
  proof -
    have d: "2 ^ j dvd x" using t(2) by (rule power_le_dvd) simp
    consider "z = x" "k = j" | "z = ?y" "k = j" | "z \<noteq> x" "z \<noteq> ?y" "lv z = Some k" using z by (auto split: if_splits)
    then show ?thesis
    proof cases
      case 3
      note tz = tilingD [OF assms(1) 3(3)]
      have "?lv u = None" if u: "z < u" "u < z + 2 ^ k" for u
      proof -
        have "u \<noteq> x" using tz(4) [OF u] assms(2) by auto
        moreover have "u \<noteq> ?y" using tiles_disjoint [OF assms(1) 3(3) assms(2) 3(1)] u pos by linarith
        ultimately show ?thesis using tz(4) [OF u] by simp
      qed
      then show ?thesis using tz(1-3) by blast
    qed (use t d pos in \<open>auto simp: t(4)\<close>)
  qed
  have two: "\<exists>z k. ?lv z = Some k \<and> z \<le> u \<and> u < z + 2 ^ k" if u: "u < ar_units A" for u
  proof -
    obtain z k where z: "lv z = Some k" "z \<le> u" "u < z + 2 ^ k" using tilingE [OF assms(1) u] .
    show ?thesis
    proof (cases "z = x")
      case True
      then have "k = Suc j" using z(1) assms(2) by simp
      then have "u < ?y + 2 ^ j" using z(3) True by simp
      then show ?thesis using z(2) True by (cases "u < ?y") (auto intro: exI [of _ x] exI [of _ ?y])
    next
      case False
      then have "?lv z = Some k" using z(1) y by auto
      then show ?thesis using z by blast
    qed
  qed
  show "tiling A ?lv" unfolding tiling_def using one two by blast
qed

lemma tiling_join:
  assumes "tiling A lv" "lv x = Some j" "lv (x + 2 ^ j) = Some j" "2 ^ Suc j dvd x" "Suc j < ar_levels A"
  shows "tiling A (lv(x \<mapsto> Suc j, x + 2 ^ j := None))"
proof -
  let ?y = "x + 2 ^ j" and ?lv = "lv(x \<mapsto> Suc j, x + 2 ^ j := None)"
  have pos: "(0 :: nat) < 2 ^ j" "(2 :: nat) ^ Suc j = 2 ^ j + 2 ^ j" by simp_all
  note t = tilingD [OF assms(1,2)] and ty = tilingD [OF assms(1,3)]
  have one: "k < ar_levels A \<and> 2 ^ k dvd z \<and> z + 2 ^ k \<le> ar_units A \<and> (\<forall>u. z < u \<and> u < z + 2 ^ k \<longrightarrow> ?lv u = None)"
    if z: "?lv z = Some k" for z k
  proof -
    consider "z = x" "k = Suc j" | "z \<noteq> x" "z \<noteq> ?y" "lv z = Some k" using z by (auto split: if_splits)
    then show ?thesis
    proof cases
      case 1
      have "?lv u = None" if u: "x < u" "u < x + 2 ^ Suc j" for u
        using t(4) [of u] ty(4) [of u] u pos by (cases u ?y rule: linorder_cases) auto
      then show ?thesis using 1 assms(4,5) ty(3) by simp
    next
      case 2
      have "?lv u = None" if u: "z < u" "u < z + 2 ^ k" for u using tilingD(4) [OF assms(1) 2(3) u] assms(2) by auto
      then show ?thesis using tilingD(1-3) [OF assms(1) 2(3)] by blast
    qed
  qed
  have two: "\<exists>z k. ?lv z = Some k \<and> z \<le> u \<and> u < z + 2 ^ k" if u: "u < ar_units A" for u
  proof -
    obtain z k where z: "lv z = Some k" "z \<le> u" "u < z + 2 ^ k" using tilingE [OF assms(1) u] .
    have x: "?lv x = Some (Suc j)" using pos by simp
    show ?thesis
    proof (cases "z = x \<or> z = ?y")
      case True
      then have "x \<le> u \<and> u < x + 2 ^ Suc j" using z assms(2,3) pos by auto
      then show ?thesis using x by blast
    next
      case False
      then have "?lv z = Some k" using z(1) by simp
      then show ?thesis using z by blast
    qed
  qed
  show "tiling A ?lv" unfolding tiling_def using one two by blast
qed

lemma split_block:
  assumes "binv A H F lv fl D" "lv x = Some (Suc j)" "bh_free (H (unit_addr A x))" "x \<in> D" "buddy_split H (unit_addr A x) = (H', h)"
  defines "y \<equiv> x + 2 ^ j"
  shows "h = unit_addr A x" "bh_next (H' (unit_addr A x)) = unit_addr A y" "bh_next (H' (unit_addr A y)) = 0"
    "bh_free (H' (unit_addr A x))" "bh_free (H' (unit_addr A y))" "lv y = None"
    "binv A H' F (lv(x \<mapsto> j, y \<mapsto> j)) fl (insert y D)" "used A H' (lv(x \<mapsto> j, y \<mapsto> j)) = used A H lv"
proof -
  note i = binvD [OF assms(1)]
  let ?p = "ar_shift A" and ?lv = "lv(x \<mapsto> j, y \<mapsto> j)"
  have half: "bh_block_size (H (unit_addr A x)) sdiv 2 = 2 ^ (?p + j)"
    using binv_size [OF assms(1,2)] by (simp add: signed_divide_int_def)
  have b2: "unit_addr A x + of_int (2 ^ (?p + j)) = unit_addr A y"
    using unit_addr_plus [of A x "2 ^ j"] by (simp add: y_def power_add)
  show y: "lv y = None" using tiling_split(1) [OF i(2) assms(2)] by (simp add: y_def)
  have tl: "tiling A ?lv" using tiling_split(2) [OF i(2) assms(2)] by (simp add: y_def)
  have le: "x \<le> ar_units A" "y \<le> ar_units A" using binv_le [OF assms(1,2)] tilingD(3) [OF tl, of y j] by auto
  have ne: "unit_addr A x \<noteq> unit_addr A y" using unit_addr_inj [OF i(1) le] by (simp add: y_def)
  have H': "H' = H(unit_addr A y := \<lparr>bh_free = True, bh_block_size = 2 ^ (?p + j), bh_next = 0\<rparr>,
      unit_addr A x := (H (unit_addr A x))\<lparr>bh_next := unit_addr A y, bh_block_size := 2 ^ (?p + j)\<rparr>)" and "h = unit_addr A x"
    using assms(5) [unfolded buddy_split_def Let_def half b2] ne half by auto
  then show "h = unit_addr A x" "bh_next (H' (unit_addr A x)) = unit_addr A y" "bh_next (H' (unit_addr A y)) = 0"
    and fr: "bh_free (H' (unit_addr A x))" "bh_free (H' (unit_addr A y))" using ne assms(3) by auto
  have oth: "H' (unit_addr A z) = H (unit_addr A z)" if "lv z = Some k" "z \<noteq> x" for z k
  proof -
    have "z \<noteq> y" "z \<le> ar_units A" using that(1) y binv_le [OF assms(1) that(1)] by auto
    then show ?thesis using that(2) unit_addr_inj [OF i(1) _ le(1), of z] unit_addr_inj [OF i(1) _ le(2), of z] by (simp add: H')
  qed
  show "binv A H' F ?lv fl (insert y D)"
  proof (rule binv_update [OF assms(1) tl])
    show "sizes_ok A H' ?lv"
      using ne oth i(3) unfolding sizes_ok_def by (auto simp: H')
    show "bh_next (H' (unit_addr A z)) = bh_next (H (unit_addr A z))" if "lv z = Some k" "z \<notin> D" for z k
      using oth [OF that(1)] that(2) assms(4) by (cases "z = x") auto
    show "?lv z = Some k \<and> bh_free (H' (unit_addr A z)) \<and> z \<notin> insert y D \<longleftrightarrow> lv z = Some k \<and> bh_free (H (unit_addr A z)) \<and> z \<notin> D" for z k
      using oth [of z k] assms(4) y by (cases "z = x"; cases "z = y") auto
  qed
  have "?lv z = Some k \<and> \<not> bh_free (H' (unit_addr A z)) \<longleftrightarrow> lv z = Some k \<and> \<not> bh_free (H (unit_addr A z))" for z k
    using oth [of z k] fr assms(3) y by (cases "z = x"; cases "z = y") auto
  then show "used A H' ?lv = used A H lv" unfolding used_def by blast
qed


lemma join_block:
  assumes "binv A H F lv fl D" "lv x = Some j" "lv (buddy_of x j) = Some j" "Suc j < ar_levels A"
    "bh_free (H (unit_addr A x))" "bh_free (H (unit_addr A (buddy_of x j)))" "x \<in> D" "buddy_of x j \<in> D"
  defines "l \<equiv> min x (buddy_of x j)" and "r \<equiv> max x (buddy_of x j)"
  shows "\<exists>H'. buddy_merge H (unit_addr A x) (unit_addr A (buddy_of x j)) = Inr (H', unit_addr A l)
    \<and> (\<forall>a. bh_free (H' a) = bh_free (H a)) \<and> binv A H' F (lv(l \<mapsto> Suc j, r := None)) fl (D - {r})
    \<and> used A H' (lv(l \<mapsto> Suc j, r := None)) = used A H lv"
proof -
  note i = binvD [OF assms(1)]
  let ?lv = "lv(l \<mapsto> Suc j, r := None)" and ?H = "H(unit_addr A l := (H (unit_addr A l))\<lparr>bh_block_size := 2 ^ (ar_shift A + Suc j)\<rparr>)"
  have "r = l + 2 ^ j \<and> 2 ^ Suc j dvd l"
  proof (rule buddy_of_cases [OF tilingD(2) [OF i(2) assms(2)]])
    assume a: "x = buddy_of x j + 2 ^ j" "2 ^ Suc j dvd buddy_of x j"
    then have "buddy_of x j \<le> x" by linarith
    then have "l = buddy_of x j" "r = x" by (simp_all add: l_def r_def)
    then show ?thesis using a by simp
  qed (simp add: l_def r_def)
  then have lr: "r = l + 2 ^ j" "2 ^ Suc j dvd l" by blast+
  have b: "lv l = Some j" "lv r = Some j" "l \<in> D" "r \<in> D" "bh_free (H (unit_addr A l))" "bh_free (H (unit_addr A r))"
    using assms(2-8) by (auto simp: l_def r_def min_def max_def)
  have ne: "l \<noteq> r" using lr(1) by simp
  have tl: "tiling A ?lv" using tiling_join [OF i(2) b(1)] b(2) lr assms(4) by simp
  have oth: "?H (unit_addr A z) = H (unit_addr A z)" if "lv z = Some k" "z \<noteq> l" for z k
    using blocks_inj [OF assms(1) that(1) b(1)] that(2) by simp
  have "ar_shift A + Suc j \<le> 30" using i(1) assms(4) by (simp add: arena_ok_def)
  then have "(2 :: int) ^ (ar_shift A + Suc j) \<le> 2 ^ 30" by (rule power_increasing) simp
  then have c: "cint (2 ^ (ar_shift A + j) * 2) = Inr (2 ^ (ar_shift A + Suc j))"
    unfolding cint_def by (simp add: mult.commute) (smt (verit) zero_le_power)
  have "unit_addr A x < unit_addr A (buddy_of x j) \<longleftrightarrow> x < buddy_of x j"
    using unit_addr_less [OF i(1)] binv_le [OF assms(1,2)] binv_le [OF assms(1,3)] by blast
  then have "buddy_merge H (unit_addr A x) (unit_addr A (buddy_of x j)) = Inr (?H, unit_addr A l)"
    using binv_size [OF assms(1,2)] binv_size [OF assms(1,3)] c by (simp add: buddy_merge_def l_def min_def)
  moreover have "binv A ?H F ?lv fl (D - {r})"
  proof (rule binv_update [OF assms(1) tl])
    show "sizes_ok A ?H ?lv"
      unfolding sizes_ok_def
    proof (intro allI impI)
      fix z k assume z: "?lv z = Some k"
      then have "z = l \<and> k = Suc j \<or> z \<noteq> l \<and> lv z = Some k" using ne by (auto split: if_splits)
      then show "bh_block_size (?H (unit_addr A z)) = 2 ^ (ar_shift A + k)"
      proof
        assume "z \<noteq> l \<and> lv z = Some k"
        then have "?H (unit_addr A z) = H (unit_addr A z)" "lv z = Some k" using oth by blast+
        then show ?thesis using binv_size [OF assms(1)] by (simp only:)
      qed simp
    qed
    show "bh_next (?H (unit_addr A z)) = bh_next (H (unit_addr A z))" for z by simp
    show "?lv z = Some k \<and> bh_free (?H (unit_addr A z)) \<and> z \<notin> D - {r} \<longleftrightarrow> lv z = Some k \<and> bh_free (H (unit_addr A z)) \<and> z \<notin> D" for z k
      using b(3,4) by auto
  qed
  moreover have "used A ?H ?lv = used A H lv"
  proof -
    have "?lv z = Some k \<and> \<not> bh_free (?H (unit_addr A z)) \<longleftrightarrow> lv z = Some k \<and> \<not> bh_free (H (unit_addr A z))" for z k
      using b(5,6) by auto
    then show ?thesis unfolding used_def by blast
  qed
  ultimately show ?thesis by (intro exI [of _ ?H]) simp
qed

end
