(* ===== verification/Bx_BuddyOps.thy ===== *)
theory Bx_BuddyOps
  imports Bx_Arena
begin

text \<open>
  What the operations of the buddy allocator do to the tiling: \<open>alloc\<close> and \<open>free\<close> on every path that
  keeps the invariant, the constructors, and the paths on which the code breaks it.
\<close>

section \<open>Allocation\<close>

lemma pow_int_bounds:
  assumes "arena_ok A" "j < ar_levels A"
  shows "cint (2 ^ j * 2 ^ ar_shift A) = Inr (2 ^ (ar_shift A + j))" "(2 :: int) ^ (ar_shift A + j) < 2 ^ 31"
proof -
  have "ar_shift A + j \<le> 30" using assms by (simp add: arena_ok_def)
  then have "(2 :: int) ^ (ar_shift A + j) \<le> 2 ^ 30" by (rule power_increasing) simp
  then show lt: "(2 :: int) ^ (ar_shift A + j) < 2 ^ 31" by simp
  have "- (2 ^ 31) \<le> (2 :: int) ^ (ar_shift A + j)" by (smt (verit) zero_le_power)
  then show "cint (2 ^ j * 2 ^ ar_shift A) = Inr (2 ^ (ar_shift A + j))" using lt by (simp add: cint_def power_add mult.commute)
qed

lemma head_null:
  assumes "binv A H F lv fl D" "j < ar_levels A"
  shows "F ! j = 0 \<longleftrightarrow> fl j = []"
  using binvD(6) [OF assms] detach_head(2) [OF assms] by (cases "fl j") auto

lemma find_level_spec:
  assumes "binv A H F lv fl D" "0 \<le> req" "req + 16 < 2 ^ 31"
  shows "i + length hs = ar_levels A \<Longrightarrow> hs = drop i F \<Longrightarrow>
    case find_level hs (2 ^ ar_shift A) req i of
      Inl e \<Rightarrow> False
    | Inr None \<Rightarrow> \<forall>k. i \<le> k \<and> k < ar_levels A \<and> fl k \<noteq> [] \<longrightarrow> req + 16 > 2 ^ (ar_shift A + k)
    | Inr (Some l) \<Rightarrow> i \<le> l \<and> l < ar_levels A \<and> fl l \<noteq> [] \<and> req + 16 \<le> 2 ^ (ar_shift A + l)
        \<and> (\<forall>k. i \<le> k \<and> k < l \<and> fl k \<noteq> [] \<longrightarrow> req + 16 > 2 ^ (ar_shift A + k))"
proof (induction hs arbitrary: i)
  case Nil
  then show ?case by simp
next
  case (Cons h hs)
  have i: "i < ar_levels A" using Cons.prems(1) by simp
  have h: "h = F ! i" "hs = drop (Suc i) F" using Cons.prems(2) i binvD(5) [OF assms(1)]
    by (metis Cons_nth_drop_Suc list.inject)+
  have hd: "h = 0 \<longleftrightarrow> fl i = []" using head_null [OF assms(1) i] h(1) by simp
  have need: "cint (req + 16) = Inr (req + 16)" using assms(2,3) by (simp add: cint_def)
  note room = pow_int_bounds(1) [OF binvD(1) [OF assms(1)] i]
  note IH = Cons.IH [of "Suc i", OF _ h(2)]
  show ?case
  proof (cases "h = 0 \<or> req + 16 > 2 ^ (ar_shift A + i)")
    case True
    then have e: "find_level (h # hs) (2 ^ ar_shift A) req i = find_level hs (2 ^ ar_shift A) req (Suc i)" using need room by auto
    have cov: "k = i \<or> Suc i \<le> k" if "i \<le> k" for k using that by auto
    show ?thesis unfolding e using IH Cons.prems(1) True hd cov
      by (auto split: sum.splits option.splits)
  next
    case False
    then show ?thesis using need room i hd by simp
  qed
qed


text \<open>One round of the second loop of \<open>alloc\<close>: the head of list \<open>Suc i\<close> becomes two blocks on the empty list \<open>i\<close>.\<close>

lemma split_round:
  assumes "binv A H F lv fl {}" "Suc i < ar_levels A" "fl (Suc i) = x # xs" "fl i = []" "buddy_split H (F ! Suc i) = (H', h)"
  defines "y \<equiv> x + 2 ^ i"
  shows "binv A H' (F[i := h, Suc i := bh_next (H (F ! Suc i))]) (lv(x \<mapsto> i, y \<mapsto> i)) (fl(Suc i := xs, i := [x, y])) {}"
    "used A H' (lv(x \<mapsto> i, y \<mapsto> i)) = used A H lv"
proof -
  let ?lv = "lv(x \<mapsto> i, y \<mapsto> i)" and ?F = "F[Suc i := bh_next (H (F ! Suc i))]"
  note d = detach_head [OF assms(1-3)]
  note s = split_block [OF d(6) d(3,4) insertI1, of H' h, folded y_def] 
  have sp: "buddy_split H (unit_addr A x) = (H', h)" using assms(5) d(1) by simp
  note s = s [OF sp]
  note i = binvD [OF s(7)]
  have il: "i < ar_levels A" using assms(2) by simp
  have fr: "set [x, y] = {z. ?lv z = Some i \<and> bh_free (H' (unit_addr A z))} - {}"
  proof -
    have "z \<in> {x, y}" if z: "?lv z = Some i" "bh_free (H' (unit_addr A z))" for z
      using i(8) [OF il, of z] z assms(4) by auto
    moreover have "?lv x = Some i" "?lv y = Some i" by simp_all
    ultimately show ?thesis using s(4,5) by (intro equalityI subsetI) (simp_all del: fun_upd_apply, auto simp del: fun_upd_apply)
  qed
  have "binv A H' (?F[i := h]) ?lv ((fl(Suc i := xs))(i := [x, y])) {}"
  proof (rule binv_list [OF s(7) il _ _ relinked_refl [of "{}"] fr])
    show "fchain A H' h [x, y]" using s(1-3) by simp
    show "distinct [x, y]" by (simp add: y_def)
    show "unit_addr A z \<notin> {} \<and> (z \<in> {} \<longleftrightarrow> z \<in> insert y (insert x {}))" if "k \<noteq> i" "?lv z = Some k" for k z
      using that by (auto split: if_splits)
  qed
  then show "binv A H' (F[i := h, Suc i := bh_next (H (F ! Suc i))]) ?lv (fl(Suc i := xs, i := [x, y])) {}"
    by (simp add: list_update_swap)
  show "used A H' ?lv = used A H lv" by (rule s(8))
qed

lemma split_loop_spec:
  assumes "0 \<le> req" "req + 16 < 2 ^ 31"
  shows "binv A H F lv fl {} \<Longrightarrow> i < ar_levels A \<Longrightarrow> fl i = x # xs \<Longrightarrow> req + 16 \<le> 2 ^ (ar_shift A + i)
    \<Longrightarrow> \<forall>k<i. fl k \<noteq> [] \<longrightarrow> req + 16 > 2 ^ (ar_shift A + k)
    \<Longrightarrow> \<exists>H' F' lv' fl' k xs'. split_loop H F (2 ^ ar_shift A) req i = Inr (H', F', k) \<and> binv A H' F' lv' fl' {} \<and> k \<le> i
      \<and> fl' k = x # xs' \<and> used A H' lv' = used A H lv \<and> req + 16 \<le> 2 ^ (ar_shift A + k)
      \<and> (0 < k \<longrightarrow> 2 ^ (ar_shift A + k) \<le> 2 * (req + 16))"
proof (induction i arbitrary: H F lv fl xs)
  case 0
  have need: "cint (req + 16) = Inr (req + 16)" using assms by (simp add: cint_def)
  have "bh_block_size (H (F ! 0)) = 2 ^ ar_shift A"
    using binv_size [OF 0(1) detach_head(3) [OF 0(1-3)]] detach_head(1) [OF 0(1-3)] by simp
  moreover have "(2 :: int) ^ ar_shift A div 2 < 2 ^ ar_shift A" by (rule int_div_less_self) simp_all
  ultimately have "\<not> bh_block_size (H (F ! 0)) sdiv 2 \<ge> 2 ^ ar_shift A" by (simp add: signed_divide_int_def)
  then have "split_loop H F (2 ^ ar_shift A) req 0 = Inr (H, F, 0)" using need by (simp add: Let_def)
  then show ?case using 0 by blast
next
  case (Suc i)
  let ?p = "ar_shift A"
  note d = detach_head [OF Suc.prems(1-3)]
  have need: "cint (req + 16) = Inr (req + 16)" using assms by (simp add: cint_def)
  have half: "bh_block_size (H (F ! Suc i)) sdiv 2 = 2 ^ (?p + i)"
    using binv_size [OF Suc.prems(1) d(3)] d(1) by (simp add: signed_divide_int_def)
  show ?case
  proof (cases "2 ^ (?p + i) > req + 16")
    case False
    then have "split_loop H F (2 ^ ?p) req (Suc i) = Inr (H, F, Suc i)" using need half by (simp add: Let_def)
    moreover have "2 ^ (?p + Suc i) \<le> 2 * (req + 16)" using False by simp
    ultimately show ?thesis using Suc.prems by blast
  next
    case True
    obtain H1 h where sp: "buddy_split H (F ! Suc i) = (H1, h)" by fastforce
    have e: "fl i = []" using Suc.prems(5) True by (metis lessI not_less_iff_gr_or_eq)
    note r = split_round [OF Suc.prems(1-3) e sp]
    have "(2 :: int) ^ ?p \<le> 2 ^ (?p + i)" by simp
    then have step: "split_loop H F (2 ^ ?p) req (Suc i) = split_loop H1 (F[i := h, Suc i := bh_next (H (F ! Suc i))]) (2 ^ ?p) req i"
      using need half True sp by (simp add: Let_def)
    have "\<exists>H' F' lv' fl' k xs'. split_loop H1 (F[i := h, Suc i := bh_next (H (F ! Suc i))]) (2 ^ ?p) req i = Inr (H', F', k) \<and> binv A H' F' lv' fl' {} \<and> k \<le> i
      \<and> fl' k = x # xs' \<and> used A H' lv' = used A H1 (lv(x \<mapsto> i, x + 2 ^ i \<mapsto> i)) \<and> req + 16 \<le> 2 ^ (ar_shift A + k)
      \<and> (0 < k \<longrightarrow> 2 ^ (ar_shift A + k) \<le> 2 * (req + 16))"
      by (rule Suc.IH [OF r(1)]) (use Suc.prems(2,5) True in auto)
    then show ?thesis unfolding step r(2) using le_SucI by blast
  qed
qed


section \<open>The allocator's state\<close>

definition buddy_inv :: "arena \<Rightarrow> buddy_world \<Rightarrow> tiles \<Rightarrow> bool" where
  "buddy_inv A w lv \<longleftrightarrow> basic_block_size (bw_buddy w) = 2 ^ ar_shift A \<and> bstart (bw_buddy w) = ar_start A
     \<and> (\<exists>fl. binv A (bw_hdr w) (FreeList (bw_buddy w)) lv fl {})"

abbreviation block_free :: "arena \<Rightarrow> buddy_world \<Rightarrow> nat \<Rightarrow> bool" where
  "block_free A w x \<equiv> bh_free (bw_hdr w (unit_addr A x))"

text \<open>A free block that a request fits into.\<close>

definition fits :: "arena \<Rightarrow> buddy_world \<Rightarrow> tiles \<Rightarrow> int \<Rightarrow> nat \<Rightarrow> nat \<Rightarrow> bool" where
  "fits A w lv req x k \<longleftrightarrow> lv x = Some k \<and> block_free A w x \<and> req + 16 \<le> 2 ^ (ar_shift A + k)"

lemma alloc_from_fits:
  assumes "buddy_inv A w lv" "0 \<le> req" "req + 16 < 2 ^ 31" "fits A w lv req z m"
  shows "\<exists>x k w' lv'. alloc_from again req w = Inr (unit_addr A x + HEADER_BYTES, w') \<and> buddy_inv A w' lv'
    \<and> lv' x = Some k \<and> \<not> block_free A w' x \<and> used A (bw_hdr w') lv' = insert (x, k) (used A (bw_hdr w) lv) \<and> (\<forall>m. (x, m) \<notin> used A (bw_hdr w) lv)
    \<and> req + 16 \<le> 2 ^ (ar_shift A + k) \<and> (0 < k \<longrightarrow> 2 ^ (ar_shift A + k) \<le> 2 * (req + 16)) \<and> bw_rgs w' = bw_rgs w"
proof -
  let ?H = "bw_hdr w" and ?B = "bw_buddy w" and ?F = "FreeList (bw_buddy w)"
  obtain fl where b: "binv A ?H ?F lv fl {}" and basic: "basic_block_size ?B = 2 ^ ar_shift A" and st: "bstart ?B = ar_start A"
    using assms(1) by (auto simp: buddy_inv_def)
  note i = binvD [OF b]
  have ne: "?F \<noteq> []" using i(1,5) by (auto simp: arena_ok_def)
  have "z \<in> set (fl m)" "m < ar_levels A" using assms(4) i(8) [of m z] binv_le [OF b, of z m] by (auto simp: fits_def)
  then have some: "m < ar_levels A" "fl m \<noteq> []" "req + 16 \<le> 2 ^ (ar_shift A + m)" using assms(4) by (auto simp: fits_def)
  obtain l where l: "find_level ?F (2 ^ ar_shift A) req 0 = Inr (Some l)" "l < ar_levels A" "fl l \<noteq> []" "req + 16 \<le> 2 ^ (ar_shift A + l)"
      "\<forall>k<l. fl k \<noteq> [] \<longrightarrow> req + 16 > 2 ^ (ar_shift A + k)"
    using find_level_spec [OF b assms(2,3), of 0 ?F] i(5) some by (fastforce split: sum.splits option.splits)
  obtain x xs where x: "fl l = x # xs" using l(3) by (cases "fl l") auto
  have "\<exists>H1 F1 lv1 fl1 k xs1. split_loop ?H ?F (2 ^ ar_shift A) req l = Inr (H1, F1, k) \<and> binv A H1 F1 lv1 fl1 {} \<and> k \<le> l
      \<and> fl1 k = x # xs1 \<and> used A H1 lv1 = used A ?H lv \<and> req + 16 \<le> 2 ^ (ar_shift A + k)
      \<and> (0 < k \<longrightarrow> 2 ^ (ar_shift A + k) \<le> 2 * (req + 16))"
    by (rule split_loop_spec [OF assms(2,3) b l(2) x l(4,5)])
  then obtain H1 F1 lv1 fl1 k xs1 where s: "split_loop ?H ?F (2 ^ ar_shift A) req l = Inr (H1, F1, k)" "binv A H1 F1 lv1 fl1 {}" "k \<le> l"
      "fl1 k = x # xs1" "used A H1 lv1 = used A ?H lv" "req + 16 \<le> 2 ^ (ar_shift A + k)" "0 < k \<longrightarrow> 2 ^ (ar_shift A + k) \<le> 2 * (req + 16)"
    by (elim exE conjE) (rule that)
  have k: "k < ar_levels A" using s(3) l(2) by simp
  note d = detach_head [OF s(2) k s(4)]
  let ?h = "bh_next (H1 (F1 ! k))" and ?H2 = "H1(unit_addr A x := (H1 (unit_addr A x))\<lparr>bh_free := False\<rparr>)"
  have b2: "binv A ?H2 (F1[k := ?h]) lv1 (fl1(k := xs1)) {}" using set_free_flag [OF d(6) d(3), of False] by simp
  have "LinkedList_remove H1 (F1 ! k) (F1 ! k) = Inr (H1, ?h)" using d(2) by (simp add: LinkedList_remove_def)
  then have run: "alloc_from again req w =
      Inr (unit_addr A x + HEADER_BYTES, w\<lparr>bw_buddy := ?B\<lparr>FreeList := F1[k := ?h]\<rparr>, bw_hdr := ?H2\<rparr>)"
    using ne basic l(1) s(1) d(1) by (simp add: alloc_from_def Let_def)
  have "(y, m) \<in> used A ?H2 lv1 \<longleftrightarrow> (y, m) = (x, k) \<or> (y, m) \<in> used A H1 lv1" for y m
    using blocks_inj [OF s(2) _ d(3), of y m] d(3,4) by (auto simp: used_def)
  then have u: "used A ?H2 lv1 = insert (x, k) (used A ?H lv)" unfolding s(5) [symmetric] by auto
  have "(x, m) \<notin> used A ?H lv" for m unfolding s(5) [symmetric] using d(4) by (simp add: used_def)
  then show ?thesis using run u b2 basic st s(6,7) d(3)
    by (intro exI [of _ x] exI [of _ k] exI [of _ "w\<lparr>bw_buddy := ?B\<lparr>FreeList := F1[k := ?h]\<rparr>, bw_hdr := ?H2\<rparr>"] exI [of _ lv1])
      (auto simp: buddy_inv_def)
qed

lemma alloc_from_none:
  assumes "buddy_inv A w lv" "0 \<le> req" "req + 16 < 2 ^ 31" "\<nexists>z m. fits A w lv req z m"
  shows "alloc_from again req w = bindE (buddy_expand w) again"
proof -
  let ?H = "bw_hdr w" and ?B = "bw_buddy w" and ?F = "FreeList (bw_buddy w)"
  obtain fl where b: "binv A ?H ?F lv fl {}" and basic: "basic_block_size ?B = 2 ^ ar_shift A"
    using assms(1) by (auto simp: buddy_inv_def)
  note i = binvD [OF b]
  have ne: "?F \<noteq> []" using i(1,5) by (auto simp: arena_ok_def)
  have "\<not> req + 16 \<le> 2 ^ (ar_shift A + l)" if l: "l < ar_levels A" "fl l \<noteq> []" for l
  proof -
    obtain x where "x \<in> set (fl l)" using l(2) by (meson last_in_set)
    then show ?thesis using i(8) [OF l(1), of x] assms(4) by (auto simp: fits_def)
  qed
  then have "find_level ?F (2 ^ ar_shift A) req 0 = Inr None"
    using find_level_spec [OF b assms(2,3), of 0 ?F] i(5) by (auto split: sum.splits option.splits)
  then show ?thesis using ne basic by (simp add: alloc_from_def Let_def)
qed


section \<open>Release\<close>

text \<open>
  The loop of \<open>free\<close> looks at the flag of the buddy only.  It joins what it should as long as every
  free buddy it meets is one whole block of its level.
\<close>

fun clean :: "arena \<Rightarrow> headers \<Rightarrow> tiles \<Rightarrow> nat \<Rightarrow> nat \<Rightarrow> nat \<Rightarrow> bool" where
  "clean A H lv 0 x j \<longleftrightarrow> True"
| "clean A H lv (Suc n) x j \<longleftrightarrow>
     (bh_free (H (unit_addr A (buddy_of x j))) \<longrightarrow>
        lv (buddy_of x j) = Some j \<and> clean A H lv n (min x (buddy_of x j)) (Suc j))"

lemma joined_range:
  assumes "2 ^ j dvd x"
  shows "2 ^ Suc j dvd min x (buddy_of x j)" "max x (buddy_of x j) = min x (buddy_of x j) + 2 ^ j"
    "x = min x (buddy_of x j) \<or> x = min x (buddy_of x j) + 2 ^ j" "buddy_of x j < x \<or> x + 2 ^ j \<le> buddy_of x j"
proof -
  have "2 ^ Suc j dvd min x (buddy_of x j) \<and> max x (buddy_of x j) = min x (buddy_of x j) + 2 ^ j
    \<and> (x = min x (buddy_of x j) \<or> x = min x (buddy_of x j) + 2 ^ j) \<and> (buddy_of x j < x \<or> x + 2 ^ j \<le> buddy_of x j)"
  proof (rule buddy_of_cases [OF assms])
    assume a: "x = buddy_of x j + 2 ^ j" "2 ^ Suc j dvd buddy_of x j"
    have "(0 :: nat) < 2 ^ j" by simp
    then have "buddy_of x j < x" using a(1) by linarith
    then have "min x (buddy_of x j) = buddy_of x j" "max x (buddy_of x j) = x" "buddy_of x j < x" by simp_all
    then show ?thesis using a by metis
  qed simp
  then show "2 ^ Suc j dvd min x (buddy_of x j)" "max x (buddy_of x j) = min x (buddy_of x j) + 2 ^ j"
    "x = min x (buddy_of x j) \<or> x = min x (buddy_of x j) + 2 ^ j" "buddy_of x j < x \<or> x + 2 ^ j \<le> buddy_of x j" by blast+
qed

lemma clean_cong:
  assumes "2 ^ j dvd x" "\<And>y. y < x \<or> x + 2 ^ j \<le> y \<Longrightarrow> lv' y = lv y \<and> bh_free (H' (unit_addr A y)) = bh_free (H (unit_addr A y))"
  shows "clean A H' lv' n x j = clean A H lv n x j"
  using assms
proof (induction n arbitrary: x j)
  case (Suc n)
  let ?y = "buddy_of x j" and ?l = "min x (buddy_of x j)"
  note r = joined_range [OF Suc.prems(1)]
  have "?y < x \<or> x + 2 ^ j \<le> ?y" by (rule r(4))
  then have y: "lv' ?y = lv ?y" "bh_free (H' (unit_addr A ?y)) = bh_free (H (unit_addr A ?y))" using Suc.prems(2) by blast+
  have "clean A H' lv' n ?l (Suc j) = clean A H lv n ?l (Suc j)"
  proof (rule Suc.IH [OF r(1)])
    fix z assume "z < ?l \<or> ?l + 2 ^ Suc j \<le> z"
    then have "z < x \<or> x + 2 ^ j \<le> z" using r(3) by (elim disjE) simp_all
    then show "lv' z = lv z \<and> bh_free (H' (unit_addr A z)) = bh_free (H (unit_addr A z))" by (rule Suc.prems(2))
  qed
  then show ?case using y by simp
qed simp

text \<open>One round: the block and its buddy leave their list and go, joined, on the next one.\<close>

lemma merge_round:
  assumes "binv A H F lv fl D" "D \<subseteq> {x}" "lv x = Some j" "lv (buddy_of x j) = Some j" "Suc j < ar_levels A"
    "bh_free (H (unit_addr A x))" "bh_free (H (unit_addr A (buddy_of x j)))"
  defines "l \<equiv> min x (buddy_of x j)" and "r \<equiv> max x (buddy_of x j)"
  shows "\<exists>H' F' fl'. merge_loop (Suc n) H F (ar_start A) (unit_addr A x) j = merge_loop n H' F' (ar_start A) (unit_addr A l) (Suc j)
    \<and> binv A H' F' (lv(l \<mapsto> Suc j, r := None)) fl' {} \<and> (\<forall>a. bh_free (H' a) = bh_free (H a))
    \<and> used A H' (lv(l \<mapsto> Suc j, r := None)) = used A H lv"
proof -
  let ?y = "buddy_of x j" and ?lv = "lv(l \<mapsto> Suc j, r := None)"
  note ok = binvD(1) [OF assms(1)] and jl = Suc_lessD [OF assms(5)]
  have gb: "getbuddy K (unit_addr A x) (ar_start A) = unit_addr A ?y" if "relinked UNIV H K" for K
    using getbuddy_eq [OF ok jl, of K x] binv_size [OF assms(1,3)] that by (simp add: relinked_def)
  have ne: "x \<noteq> ?y" "l = x \<and> r = ?y \<or> l = ?y \<and> r = x"
    using joined_range(4) [OF tilingD(2) [OF binvD(2) [OF assms(1)] assms(3)]] by (auto simp: l_def r_def min_def max_def)
  obtain H1 h1 where 1: "LinkedList_remove H (F ! j) (unit_addr A x) = Inr (H1, h1)" "relinked UNIV H H1"
      "binv A H1 (F[j := h1]) lv (fl(j := remove1 x (fl j))) (insert x D)"
    using remove_block [OF assms(1,3,6)] by blast
  have f1: "bh_free (H1 (unit_addr A ?y))" using 1(2) assms(7) by (simp add: relinked_def)
  have len: "j < length F" "Suc j < length F" using binvD(5) [OF assms(1)] assms(5) by simp_all
  obtain H2 h2 where 2: "LinkedList_remove H1 h1 (unit_addr A ?y) = Inr (H2, h2)" "relinked UNIV H1 H2"
      "\<exists>fl2. binv A H2 (F[j := h2]) lv fl2 (insert ?y (insert x D))"
    using remove_block [OF 1(3) assms(4) f1] len(1) by auto
  obtain fl2 where b2: "binv A H2 (F[j := h2]) lv fl2 (insert ?y (insert x D))" using 2(3) by blast
  have rel2: "relinked UNIV H H2" using 1(2) 2(2) by (simp add: relinked_def)
  have f2: "bh_free (H2 (unit_addr A x))" "bh_free (H2 (unit_addr A ?y))" using rel2 assms(6,7) by (simp_all add: relinked_def)
  have "\<exists>H3. buddy_merge H2 (unit_addr A x) (unit_addr A ?y) = Inr (H3, unit_addr A l) \<and> (\<forall>a. bh_free (H3 a) = bh_free (H2 a))
      \<and> binv A H3 (F[j := h2]) ?lv fl2 (insert ?y (insert x D) - {r}) \<and> used A H3 ?lv = used A H2 lv"
    unfolding l_def r_def by (rule join_block [OF b2 assms(3-5) f2]) simp_all
  then obtain H3 where 3: "buddy_merge H2 (unit_addr A x) (unit_addr A ?y) = Inr (H3, unit_addr A l)" "\<forall>a. bh_free (H3 a) = bh_free (H2 a)"
      "binv A H3 (F[j := h2]) ?lv fl2 (insert ?y (insert x D) - {r})" "used A H3 ?lv = used A H2 lv" by blast
  have D: "insert ?y (insert x D) - {r} = {l}" using ne assms(2) by auto
  obtain H4 h4 where ins: "LinkedList_insert H3 ((F[j := h2]) ! Suc j) (unit_addr A l) = (H4, h4)" by fastforce
  have lvl: "?lv l = Some (Suc j)" using ne by auto
  have f3: "bh_free (H3 (unit_addr A l))" using 3(2) f2 ne(2) by auto
  note 4 = insert_block [OF 3(3) [unfolded D] lvl f3 singletonI ins]
  have free4: "\<forall>a. bh_free (H4 a) = bh_free (H a)" using 4(2) 3(2) rel2 by (simp add: relinked_def)
  have u1: "used A H2 lv = used A H lv" using rel2 by (simp add: used_def relinked_def)
  have u2: "used A H4 ?lv = used A H3 ?lv" using 4(2) by (simp add: used_def relinked_def)
  have "merge_loop (Suc n) H F (ar_start A) (unit_addr A x) j = merge_loop n H4 (F[j := h2, Suc j := h4]) (ar_start A) (unit_addr A l) (Suc j)"
    using 1(1,2) 2(1) 3(1) ins assms(7) gb [of H] gb [OF 1(2)] gb [OF rel2] by (simp add: Let_def)
  moreover have "binv A H4 (F[j := h2, Suc j := h4]) ?lv (fl2(Suc j := l # fl2 (Suc j))) {}" using 4(3) by (simp only: Diff_cancel)
  moreover have "used A H4 ?lv = used A H lv" using u1 u2 3(4) by (simp only:)
  ultimately show ?thesis using free4 by blast
qed


lemma merge_loop_clean:
  "binv A H F lv fl {} \<Longrightarrow> lv x = Some j \<Longrightarrow> bh_free (H (unit_addr A x)) \<Longrightarrow> j + n < ar_levels A \<Longrightarrow> clean A H lv n x j
    \<Longrightarrow> \<exists>H' F' lv' fl'. merge_loop n H F (ar_start A) (unit_addr A x) j = Inr (H', F') \<and> binv A H' F' lv' fl' {} \<and> used A H' lv' = used A H lv"
proof (induction n arbitrary: H F lv fl x j)
  case 0
  then show ?case unfolding merge_loop.simps by blast
next
  case (Suc n)
  let ?y = "buddy_of x j" and ?l = "min x (buddy_of x j)" and ?r = "max x (buddy_of x j)"
  let ?lv = "lv(?l \<mapsto> Suc j, ?r := None)"
  have jl: "Suc j < ar_levels A" using Suc.prems(4) by simp
  show ?case
  proof (cases "bh_free (H (unit_addr A ?y))")
    case False
    have "getbuddy H (unit_addr A x) (ar_start A) = unit_addr A ?y"
      using getbuddy_eq [OF binvD(1) [OF Suc.prems(1)] Suc_lessD [OF jl]] binv_size [OF Suc.prems(1,2)] by blast
    then have "merge_loop (Suc n) H F (ar_start A) (unit_addr A x) j = Inr (H, F)" using False by simp
    then show ?thesis using Suc.prems(1) by blast
  next
    case True
    have y: "lv ?y = Some j" and c: "clean A H lv n ?l (Suc j)" using Suc.prems(5) True by simp_all
    obtain H1 F1 fl1 where 1: "merge_loop (Suc n) H F (ar_start A) (unit_addr A x) j = merge_loop n H1 F1 (ar_start A) (unit_addr A ?l) (Suc j)"
        "binv A H1 F1 ?lv fl1 {}" "\<forall>a. bh_free (H1 a) = bh_free (H a)" "used A H1 ?lv = used A H lv"
      using merge_round [OF Suc.prems(1) empty_subsetI Suc.prems(2) y jl Suc.prems(3) True, of n] by blast
    note r = joined_range [OF tilingD(2) [OF binvD(2) [OF Suc.prems(1)] Suc.prems(2)]]
    have lvl: "?lv ?l = Some (Suc j)" using r(2) by simp
    have f1: "bh_free (H1 (unit_addr A ?l))" using 1(3) Suc.prems(3) True by (simp add: min_def)
    have c1: "clean A H1 ?lv n ?l (Suc j)"
      using c by (subst clean_cong [OF r(1), where lv = lv and H = H]) (use r(2) 1(3) in auto)
    have "\<exists>H' F' lv' fl'. merge_loop n H1 F1 (ar_start A) (unit_addr A ?l) (Suc j) = Inr (H', F') \<and> binv A H' F' lv' fl' {} \<and> used A H' lv' = used A H1 ?lv"
      by (rule Suc.IH [OF 1(2) lvl f1 _ c1]) (use Suc.prems(4) in simp)
    then show ?thesis unfolding 1(1,4) .
  qed
qed

lemma buddy_addr_ne:
  assumes "arena_ok A" "j < ar_levels A" "2 ^ j dvd x"
  shows "unit_addr A (buddy_of x j) \<noteq> unit_addr A x"
proof -
  have "ar_shift A + j < 64" using assms(1,2) by (simp add: arena_ok_def)
  then have ne: "(of_nat (2 ^ ar_shift A * 2 ^ j) :: u64) \<noteq> 0" by (simp flip: power_add)
  have ad: "unit_addr A (z + 2 ^ j) \<noteq> unit_addr A z" for z
    using unit_addr_plus [of A z "2 ^ j"] ne by (metis add_cancel_right_right)
  show ?thesis
  proof (rule buddy_of_cases [OF assms(3)])
    assume "x = buddy_of x j + 2 ^ j"
    then show ?thesis using ad by metis
  qed (use ad in simp)
qed

lemma ilog2_power [simp]: "ilog2 (2 ^ k) = k"
  by (induction k) (subst ilog2.simps, simp)+

definition free_clean :: "arena \<Rightarrow> buddy_world \<Rightarrow> tiles \<Rightarrow> nat \<Rightarrow> nat \<Rightarrow> bool" where
  "free_clean A w lv x j \<longleftrightarrow>
     (if Suc j < ar_levels A then lv (buddy_of x j) = Some j \<longrightarrow>
        clean A ((bw_hdr w)(unit_addr A x := (bw_hdr w (unit_addr A x))\<lparr>bh_free := True\<rparr>)) lv (ar_levels A - 1 - j) x j
      else \<not> (block_free A w (buddy_of x j) \<and> bh_block_size (bw_hdr w (unit_addr A (buddy_of x j))) = 2 ^ (ar_shift A + j)))"

lemma buddy_free_clean:
  assumes "buddy_inv A w lv" "(x, j) \<in> used A (bw_hdr w) lv" "free_clean A w lv x j"
  shows "\<exists>w' lv'. buddy_free w (unit_addr A x + HEADER_BYTES) = Inr w' \<and> buddy_inv A w' lv'
    \<and> used A (bw_hdr w') lv' = used A (bw_hdr w) lv - {(x, j)} \<and> bw_rgs w' = bw_rgs w"
proof -
  let ?H = "bw_hdr w" and ?B = "bw_buddy w" and ?F = "FreeList (bw_buddy w)" and ?y = "buddy_of x j"
  let ?K = "?H(unit_addr A x := (?H (unit_addr A x))\<lparr>bh_free := True\<rparr>)"
  obtain fl where b: "binv A ?H ?F lv fl {}" and basic: "basic_block_size ?B = 2 ^ ar_shift A" and st: "bstart ?B = ar_start A"
    using assms(1) by (auto simp: buddy_inv_def)
  have x: "lv x = Some j" "\<not> bh_free (?H (unit_addr A x))" using assms(2) by (simp_all add: used_def)
  have jl: "j < ar_levels A" using binv_le [OF b x(1)] by blast
  note ok = binvD(1,2) [OF b]
  have b0: "binv A ?K ?F lv fl {x}" using set_free_flag [OF b x(1), of True] x(2) by simp
  have sz: "bh_block_size (?K (unit_addr A x)) = 2 ^ (ar_shift A + j)" by (rule binv_size [OF b0 x(1)])
  have gb: "getbuddy ?K (unit_addr A x) (ar_start A) = unit_addr A ?y" using getbuddy_eq [OF ok(1) jl, of ?K x] sz by blast
  have lg: "log2_int (bh_block_size (?K (unit_addr A x)) sdiv basic_block_size ?B) = Inr j"
    unfolding sz basic by (simp add: signed_divide_int_def power_add log2_int_def nat_power_eq)
  have ky: "?K (unit_addr A ?y) = ?H (unit_addr A ?y)" using buddy_addr_ne [OF ok(1) jl tilingD(2) [OF ok(2) x(1)]] by simp
  have "(z, k) \<in> used A ?K lv \<longleftrightarrow> (z, k) \<in> used A ?H lv - {(x, j)}" for z k
    using blocks_inj [OF b _ x(1), of z k] x(1) by (auto simp: used_def)
  then have u0: "used A ?K lv = used A ?H lv - {(x, j)}" by auto
  have fin: ?thesis if "buddy_free w (unit_addr A x + HEADER_BYTES) = Inr (w\<lparr>bw_buddy := ?B\<lparr>FreeList := F'\<rparr>, bw_hdr := H'\<rparr>)"
      "binv A H' F' lv' fl' {}" "used A H' lv' = used A ?K lv" for H' F' lv' fl'
    using that basic st u0 by (intro exI [of _ "w\<lparr>bw_buddy := ?B\<lparr>FreeList := F'\<rparr>, bw_hdr := H'\<rparr>"] exI [of _ lv']) (auto simp: buddy_inv_def)
  have len: "length ?F = ar_levels A" by (rule binvD(5) [OF b])
  show ?thesis
  proof (cases "bh_free (?K (unit_addr A ?y)) \<and> bh_block_size (?K (unit_addr A x)) = bh_block_size (?K (unit_addr A ?y))")
    case False
    obtain H1 h1 where ins: "LinkedList_insert ?K (?F ! j) (unit_addr A x) = (H1, h1)" by fastforce
    note 1 = insert_block [OF b0 x(1) _ singletonI ins]
    have "buddy_free w (unit_addr A x + HEADER_BYTES) = Inr (w\<lparr>bw_buddy := ?B\<lparr>FreeList := ?F[j := h1]\<rparr>, bw_hdr := H1\<rparr>)"
      using False gb lg len jl st ins by (auto simp: buddy_free_def Let_def simp del: fun_upd_apply)
    then show ?thesis by (rule fin) (use 1 in \<open>auto simp: used_def relinked_def\<close>)
  next
    case True
    then have sy: "bh_free (?H (unit_addr A ?y))" "bh_block_size (?H (unit_addr A ?y)) = 2 ^ (ar_shift A + j)" using ky sz by auto
    then have sj: "Suc j < ar_levels A" using assms(3) jl by (auto simp: free_clean_def split: if_splits)
    obtain k where "lv ?y = Some k" using buddy_is_block [OF ok(2,1) x(1) sj] by blast
    then have y: "lv ?y = Some j" using binv_size [OF b, of ?y] sy(2) by simp
    obtain n where n: "ar_levels A - 1 - j = Suc n" using sj by (metis Suc_diff_Suc diff_Suc_1' less_diff_conv Suc_eq_plus1)
    have cl: "clean A ?K lv (Suc n) x j" using assms(3) sj y n by (simp add: free_clean_def del: fun_upd_apply)
    let ?l = "min x ?y" and ?r = "max x ?y"
    let ?lv = "lv(?l \<mapsto> Suc j, ?r := None)"
    have fx: "bh_free (?K (unit_addr A x))" by simp
    have fy: "bh_free (?K (unit_addr A ?y))" using True by blast
    obtain H1 F1 fl1 where 1: "merge_loop (Suc n) ?K ?F (ar_start A) (unit_addr A x) j = merge_loop n H1 F1 (ar_start A) (unit_addr A ?l) (Suc j)"
        "binv A H1 F1 ?lv fl1 {}" "\<forall>a. bh_free (H1 a) = bh_free (?K a)" "used A H1 ?lv = used A ?K lv"
      using merge_round [OF b0 subset_refl x(1) y sj fx fy, of n] by blast
    note r = joined_range [OF tilingD(2) [OF ok(2) x(1)]]
    have "clean A H1 ?lv n ?l (Suc j) = clean A ?K lv n ?l (Suc j)" by (rule clean_cong [OF r(1)]) (use r(2) 1(3) in auto)
    then have c1: "clean A H1 ?lv n ?l (Suc j)" using cl fy by (simp del: fun_upd_apply)
    have f1: "bh_free (H1 (unit_addr A ?l))" using 1(3) fx fy by (simp add: min_def del: fun_upd_apply)
    have lvl: "?lv ?l = Some (Suc j)" using r(2) by simp
    have "\<exists>H' F' lv' fl'. merge_loop n H1 F1 (ar_start A) (unit_addr A ?l) (Suc j) = Inr (H', F') \<and> binv A H' F' lv' fl' {} \<and> used A H' lv' = used A H1 ?lv"
      by (rule merge_loop_clean [OF 1(2) lvl f1 _ c1]) (use n sj in simp)
    then obtain H' F' lv' fl' where 2: "merge_loop n H1 F1 (ar_start A) (unit_addr A ?l) (Suc j) = Inr (H', F')" "binv A H' F' lv' fl' {}"
        "used A H' lv' = used A H1 ?lv" by (elim exE conjE) (rule that)
    have "buddy_free w (unit_addr A x + HEADER_BYTES) = Inr (w\<lparr>bw_buddy := ?B\<lparr>FreeList := F'\<rparr>, bw_hdr := H'\<rparr>)"
      using True gb lg len st 1(1) 2(1) n by (simp add: buddy_free_def Let_def del: fun_upd_apply merge_loop.simps)
    then show ?thesis by (rule fin) (use 2(2,3) 1(4) in simp_all)
  qed
qed


section \<open>Constructors\<close>

lemma next_boundary:
  assumes "tiling A lv" "lv x = Some j"
  shows "x + 2 ^ j = ar_units A \<or> (\<exists>k. lv (x + 2 ^ j) = Some k)"
proof (cases "x + 2 ^ j < ar_units A")
  case True
  then obtain z k where z: "lv z = Some k" "z \<le> x + 2 ^ j" "x + 2 ^ j < z + 2 ^ k" using tilingE [OF assms(1)] by blast
  have "z \<noteq> x" using z(1,3) assms(2) by auto
  then have "z = x + 2 ^ j" using tiles_disjoint [OF assms(1) z(1) assms(2)] z(2,3) zero_less_power [of "2 :: nat" j] by linarith
  then show ?thesis using z(1) by blast
qed (use tilingD(3) [OF assms] in simp)

text \<open>The scan of the recovery: below \<open>x\<close> the free blocks are on their lists.\<close>

lemma recover_loop_spec:
  "binv A H F lv fl {z. x \<le> z} \<Longrightarrow> x = ar_units A \<or> (\<exists>j. lv x = Some j) \<Longrightarrow> ar_units A - x \<le> n
    \<Longrightarrow> \<exists>H' F' fl'. recover_loop n H F (unit_addr A x) (unit_addr A (ar_units A)) (2 ^ ar_shift A) = Inr (H', F')
      \<and> binv A H' F' lv fl' {} \<and> relinked UNIV H H'"
proof (induction n arbitrary: H F fl x)
  case (0 H F fl x)
  then have "x = ar_units A" using tilingD(5) [OF binvD(2) [OF 0(1)]] by fastforce
  moreover have "binv A H F lv fl {}"
    using 0(1) \<open>x = ar_units A\<close> binv_le [OF 0(1)] tilingD(5) [OF binvD(2) [OF 0(1)]]
    by (intro binv_update [OF 0(1) binvD(2,3) [OF 0(1)]]) fastforce+
  ultimately show ?case by (intro exI [of _ H] exI [of _ F] exI [of _ fl]) simp
next
  case (Suc n H F fl x)
  note b = Suc.prems(1)
  note i = binvD [OF b]
  show ?case
  proof (cases "x = ar_units A")
    case True
    have "binv A H F lv fl {}" by (intro binv_update [OF b i(2,3)]) (use True tilingD(5) [OF i(2)] in fastforce)+
    then show ?thesis using True by (intro exI [of _ H] exI [of _ F] exI [of _ fl]) simp
  next
    case False
    then obtain j where j: "lv x = Some j" using Suc.prems(2) by blast
    note t = tilingD [OF i(2) j]
    have lt: "unit_addr A x < unit_addr A (ar_units A)" using unit_addr_less [OF i(1), of x "ar_units A"] t(5) by simp
    have sz: "bh_block_size (H (unit_addr A x)) = 2 ^ (ar_shift A + j)" by (rule binv_size [OF b j])
    have nx: "unit_addr A x + of_int (2 ^ (ar_shift A + j)) = unit_addr A (x + 2 ^ j)"
      using unit_addr_plus [of A x "2 ^ j"] by (simp add: power_add)
    have D: "z \<in> {z. x + 2 ^ j \<le> z} \<longleftrightarrow> z \<in> {z. x \<le> z} - {x}" if "lv z = Some k" for z k
    proof -
      have "\<not> (x < z \<and> z < x + 2 ^ j)" using t(4) that by auto
      then show ?thesis using zero_less_power [of "2 :: nat" j] by auto
    qed
    have bd: "x + 2 ^ j = ar_units A \<or> (\<exists>k. lv (x + 2 ^ j) = Some k)" by (rule next_boundary [OF i(2) j])
    have m: "ar_units A - (x + 2 ^ j) \<le> n" using Suc.prems(3) t(3) zero_less_power [of "2 :: nat" j] by linarith
    have body: "\<exists>H1 F1 fl1. (if bh_free (H (unit_addr A x)) then
          bindE (log2_int (bh_block_size (H (unit_addr A x)) sdiv 2 ^ ar_shift A)) (\<lambda>idx.
          if idx < length F then (let (H, h) = LinkedList_insert H (F ! idx) (unit_addr A x) in Inr (H, F[idx := h])) else Inl OutOfBounds)
        else Inr (H, F)) = Inr (H1, F1) \<and> binv A H1 F1 lv fl1 {z. x + 2 ^ j \<le> z} \<and> relinked UNIV H H1"
    proof (cases "bh_free (H (unit_addr A x))")
      case True
      obtain H1 h1 where ins: "LinkedList_insert H (F ! j) (unit_addr A x) = (H1, h1)" by fastforce
      have xD: "x \<in> {z. x \<le> z}" by simp
      note 1 = insert_block [OF b j True xD ins]
      have lg: "log2_int (bh_block_size (H (unit_addr A x)) sdiv 2 ^ ar_shift A) = Inr j"
        unfolding sz by (simp add: signed_divide_int_def power_add log2_int_def nat_power_eq)
      have "binv A H1 (F[j := h1]) lv (fl(j := x # fl j)) {z. x + 2 ^ j \<le> z}"
        by (rule binv_update [OF 1(3) i(2) binvD(3) [OF 1(3)]]) (use D in blast)+
      then show ?thesis using True lg ins i(5) t(1) 1(2) by (intro exI [of _ H1] exI [of _ "F[j := h1]"] exI [of _ "fl(j := x # fl j)"]) simp
    next
      case False
      have "binv A H F lv fl {z. x + 2 ^ j \<le> z}" by (rule binv_update [OF b i(2,3)]) (use D False in blast)+
      then show ?thesis using False by (intro exI [of _ H] exI [of _ F] exI [of _ fl]) simp
    qed
    then obtain H1 F1 fl1 where 1: "(if bh_free (H (unit_addr A x)) then
          bindE (log2_int (bh_block_size (H (unit_addr A x)) sdiv 2 ^ ar_shift A)) (\<lambda>idx.
          if idx < length F then (let (H, h) = LinkedList_insert H (F ! idx) (unit_addr A x) in Inr (H, F[idx := h])) else Inl OutOfBounds)
        else Inr (H, F)) = Inr (H1, F1)" "binv A H1 F1 lv fl1 {z. x + 2 ^ j \<le> z}" "relinked UNIV H H1" by blast
    have "bh_block_size (H1 (unit_addr A x)) = 2 ^ (ar_shift A + j)" by (rule binv_size [OF 1(2) j])
    then have step: "recover_loop (Suc n) H F (unit_addr A x) (unit_addr A (ar_units A)) (2 ^ ar_shift A)
        = recover_loop n H1 F1 (unit_addr A (x + 2 ^ j)) (unit_addr A (ar_units A)) (2 ^ ar_shift A)"
      unfolding recover_loop.simps 1(1) using lt nx by simp
    obtain H' F' fl' where "recover_loop n H1 F1 (unit_addr A (x + 2 ^ j)) (unit_addr A (ar_units A)) (2 ^ ar_shift A) = Inr (H', F')"
        "binv A H' F' lv fl' {}" "relinked UNIV H1 H'"
      using Suc.IH [OF 1(2) bd m] by blast
    then show ?thesis unfolding step using 1(3) by (auto simp: relinked_def)
  qed
qed


text \<open>A fresh arena: blocks of the largest size only, all free.\<close>

definition max_tiles :: "arena \<Rightarrow> tiles" where
  "max_tiles A x = (if 2 ^ (ar_levels A - 1) dvd x \<and> x < ar_units A then Some (ar_levels A - 1) else None)"

lemma max_tiles_tiling:
  assumes "arena_ok A"
  shows "tiling A (max_tiles A)"
proof -
  let ?m = "2 ^ (ar_levels A - 1) :: nat"
  obtain c where c: "ar_units A = ?m * c" using assms by (auto simp: arena_ok_def elim: dvdE)
  have fit: "x + ?m \<le> ar_units A" "\<forall>y. x < y \<and> y < x + ?m \<longrightarrow> \<not> ?m dvd y" if x: "?m dvd x" "x < ar_units A" for x
  proof -
    obtain q where q: "x = ?m * q" using x(1) by blast
    have "?m * q < ?m * c" using x(2) q c by simp
    then have "q + 1 \<le> c" by simp
    then have "?m * (q + 1) \<le> ?m * c" by (rule mult_le_mono2)
    then show "x + ?m \<le> ar_units A" using q c by simp
    have "\<not> (x < ?m * r \<and> ?m * r < x + ?m)" for r
    proof
      assume r: "x < ?m * r \<and> ?m * r < x + ?m"
      then have "?m * q < ?m * r" "?m * r < ?m * (q + 1)" using q by simp_all
      then show False by (simp only: mult_less_cancel1) simp
    qed
    then show "\<forall>y. x < y \<and> y < x + ?m \<longrightarrow> \<not> ?m dvd y" by (auto elim!: dvdE)
  qed
  have cover: "max_tiles A (y div ?m * ?m) = Some (ar_levels A - 1) \<and> y div ?m * ?m \<le> y \<and> y < y div ?m * ?m + ?m" if y: "y < ar_units A" for y
  proof -
    have "y div ?m * ?m \<le> y" "y < y div ?m * ?m + ?m" using dividend_less_div_times [of ?m y] by (simp_all add: add.commute)
    moreover have "y div ?m * ?m < ar_units A" using calculation(1) y by (rule le_less_trans)
    ultimately show ?thesis by (simp add: max_tiles_def)
  qed
  have L: "0 < ar_levels A" using assms by (simp add: arena_ok_def)
  have "j < ar_levels A \<and> 2 ^ j dvd x \<and> x + 2 ^ j \<le> ar_units A \<and> (\<forall>y. x < y \<and> y < x + 2 ^ j \<longrightarrow> max_tiles A y = None)"
    if x: "max_tiles A x = Some j" for x j
  proof -
    have x': "j = ar_levels A - 1" "?m dvd x" "x < ar_units A" using x by (auto simp: max_tiles_def split: if_splits)
    then show ?thesis using fit [OF x'(2,3)] L by (simp add: max_tiles_def)
  qed
  then show ?thesis unfolding tiling_def using cover by blast
qed

lemma init_loop_spec:
  assumes "arena_ok A"
  defines "m \<equiv> 2 ^ (ar_levels A - 1) :: nat"
  shows "fchain A H head xs \<Longrightarrow> set xs \<subseteq> (\<lambda>i. i * m) ` {..<k} \<Longrightarrow> (k + n) * m \<le> ar_units A
    \<Longrightarrow> \<exists>H' h'. init_loop n H head (unit_addr A (k * m)) (2 ^ (ar_shift A + (ar_levels A - 1))) = (H', h')
      \<and> fchain A H' h' (rev (map (\<lambda>i. i * m) [k..<k + n]) @ xs)
      \<and> (\<forall>i. k \<le> i \<and> i < k + n \<longrightarrow> bh_free (H' (unit_addr A (i * m))) \<and> bh_block_size (H' (unit_addr A (i * m))) = 2 ^ (ar_shift A + (ar_levels A - 1)))
      \<and> (\<forall>i<k. H' (unit_addr A (i * m)) = H (unit_addr A (i * m)))"
proof (induction n arbitrary: k H head xs)
  case 0
  then show ?case by auto
next
  case (Suc n)
  let ?sz = "2 ^ (ar_shift A + (ar_levels A - 1)) :: int"
  let ?K = "H(unit_addr A (k * m) := \<lparr>bh_free = True, bh_block_size = ?sz, bh_next = head\<rparr>)"
  have m: "0 < m" by (simp add: m_def)
  have "(k + 1) * m \<le> (k + Suc n) * m" by (rule mult_le_mono1) simp
  then have le: "i * m \<le> ar_units A" if "i \<le> k" for i using Suc.prems(3) that mult_le_mono1 [of i "k + 1" m] by linarith
  have ne: "unit_addr A (i * m) \<noteq> unit_addr A (k * m)" if "i < k" for i
    using unit_addr_inj [OF assms(1) le le, of i k] that m by simp
  have oth: "?K (unit_addr A z) = H (unit_addr A z)" if "z \<in> set xs" for z
    using Suc.prems(2) that ne by auto
  have c: "fchain A ?K (unit_addr A (k * m)) (k * m # xs)" using Suc.prems(1) oth fchain_cong [of xs ?K A H head] by simp
  have "unit_addr A (k * m) + of_int ?sz = unit_addr A (Suc k * m)"
    using unit_addr_plus [of A "k * m" m] by (simp add: m_def power_add add.commute)
  then have step: "init_loop (Suc n) H head (unit_addr A (k * m)) ?sz = init_loop n ?K (unit_addr A (k * m)) (unit_addr A (Suc k * m)) ?sz"
    by (simp add: Let_def LinkedList_insert_def)
  have sub: "set (k * m # xs) \<subseteq> (\<lambda>i. i * m) ` {..<Suc k}" using Suc.prems(2) by (auto simp: lessThan_Suc)
  have le2: "(Suc k + n) * m \<le> ar_units A" using Suc.prems(3) by simp
  obtain H' h' where 1: "init_loop n ?K (unit_addr A (k * m)) (unit_addr A (Suc k * m)) ?sz = (H', h')"
      "fchain A H' h' (rev (map (\<lambda>i. i * m) [Suc k..<Suc k + n]) @ k * m # xs)"
      "\<forall>i. Suc k \<le> i \<and> i < Suc k + n \<longrightarrow> bh_free (H' (unit_addr A (i * m))) \<and> bh_block_size (H' (unit_addr A (i * m))) = ?sz"
      "\<forall>i<Suc k. H' (unit_addr A (i * m)) = ?K (unit_addr A (i * m))"
    using Suc.IH [OF c sub le2] by blast
  have "rev (map (\<lambda>i. i * m) [k..<k + Suc n]) @ xs = rev (map (\<lambda>i. i * m) [Suc k..<Suc k + n]) @ k * m # xs"
    by (subst upt_rec) simp
  moreover have "bh_free (H' (unit_addr A (i * m))) \<and> bh_block_size (H' (unit_addr A (i * m))) = ?sz" if "k \<le> i" "i < k + Suc n" for i
    using that 1(3,4) by (cases "i = k") auto
  moreover have "H' (unit_addr A (i * m)) = H (unit_addr A (i * m))" if "i < k" for i using 1(4) ne that by simp
  ultimately show ?case using 1(1,2) unfolding step by auto
qed

lemma max_level_log:
  assumes "arena_ok A"
  shows "log2_int (2 ^ (ar_shift A + (ar_levels A - 1)) sdiv 2 ^ ar_shift A) = Inr (ar_levels A - 1)"
  by (simp add: signed_divide_int_def power_add log2_int_def nat_power_eq)

lemma BuddyAllocator_fresh:
  assumes "arena_ok A"
  shows "\<exists>B H'. BuddyAllocator_new junk H (ar_start A) (2 ^ ar_shift A) (2 ^ (ar_shift A + (ar_levels A - 1))) (int (ar_units A) * 2 ^ ar_shift A) False = Inr (B, H')
    \<and> buddy_inv A \<lparr>bw_buddy = B, bw_hdr = H', bw_rgs = R\<rparr> (max_tiles A) \<and> used A H' (max_tiles A) = {} \<and> max_block_size B = junk"
proof -
  let ?l = "ar_levels A - 1" and ?p = "ar_shift A"
  let ?m = "2 ^ ?l :: nat"
  obtain c where c: "ar_units A = c * ?m" using assms by (auto simp: arena_ok_def elim: dvdE)
  have "int (ar_units A) * 2 ^ ?p = int c * 2 ^ (?p + ?l)" by (simp add: c power_add)
  then have dv: "nat (int (ar_units A) * 2 ^ ?p sdiv 2 ^ (?p + ?l)) = c" by (cases "c = 0") (simp_all add: signed_divide_int_def sgn_mult)
  have le: "(0 + c) * ?m \<le> ar_units A" using c by simp
  have ch: "fchain A H 0 []" and sub: "set ([] :: nat list) \<subseteq> (\<lambda>i. i * ?m) ` {..<0}" by simp_all
  obtain H' h' where 1: "init_loop c H 0 (unit_addr A (0 * ?m)) (2 ^ (?p + ?l)) = (H', h')"
      "fchain A H' h' (rev (map (\<lambda>i. i * ?m) [0..<0 + c]) @ [])"
      "\<forall>i. 0 \<le> i \<and> i < 0 + c \<longrightarrow> bh_free (H' (unit_addr A (i * ?m))) \<and> bh_block_size (H' (unit_addr A (i * ?m))) = 2 ^ (?p + ?l)"
    using init_loop_spec [OF assms ch sub le] by blast
  let ?fl = "\<lambda>j. if j = ?l then rev (map (\<lambda>i. i * ?m) [0..<c]) else []"
  have mt: "max_tiles A x = Some j \<longleftrightarrow> j = ?l \<and> (\<exists>i<c. x = i * ?m)" for x j
    by (auto simp: max_tiles_def c elim!: dvdE split: if_splits)
  have L: "0 < ar_levels A" and L1: "ar_levels A - 1 + 1 = ar_levels A" using assms by (simp_all add: arena_ok_def)
  let ?F = "(replicate (ar_levels A) 0)[?l := h']"
  have "lists_ok A H' ?F (max_tiles A) ?fl {}"
    unfolding lists_ok_def
  proof (intro conjI allI impI)
    fix j assume j: "j < ar_levels A"
    show "fchain A H' (?F ! j) (?fl j)" using 1(2) j L by (cases "j = ?l") auto
    show "distinct (?fl j)" by (simp add: distinct_map inj_on_def)
    show "set (?fl j) = {x. max_tiles A x = Some j \<and> bh_free (H' (unit_addr A x))} - {}" using 1(3) unfolding mt by auto
  qed simp
  moreover have "sizes_ok A H' (max_tiles A)" unfolding sizes_ok_def mt using 1(3) by auto
  ultimately have "binv A H' ?F (max_tiles A) ?fl {}" using assms max_tiles_tiling [OF assms] by (simp add: binv_def)
  moreover have "used A H' (max_tiles A) = {}" unfolding used_def mt using 1(3) by auto
  moreover have "BuddyAllocator_new junk H (ar_start A) (2 ^ ?p) (2 ^ (?p + ?l)) (int (ar_units A) * 2 ^ ?p) False =
      Inr (\<lparr>FreeList = ?F, basic_block_size = 2 ^ ?p, total_memory_size = (int (ar_units A) * 2 ^ ?p sdiv 2 ^ ?p) * 2 ^ ?p,
            max_block_size = junk, bstart = ar_start A\<rparr>, H')"
    unfolding BuddyAllocator_new_def max_level_log [OF assms] bindE.simps Let_def L1 dv using 1(1) L by (simp add: unit_addr_def)
  ultimately show ?thesis by (auto simp: buddy_inv_def)
qed

lemma BuddyAllocator_recovers:
  assumes "arena_ok A" "tiling A lv" "sizes_ok A H lv"
  shows "\<exists>B H'. BuddyAllocator_new junk H (ar_start A) (2 ^ ar_shift A) (2 ^ (ar_shift A + (ar_levels A - 1))) (int (ar_units A) * 2 ^ ar_shift A) True = Inr (B, H')
    \<and> buddy_inv A \<lparr>bw_buddy = B, bw_hdr = H', bw_rgs = R\<rparr> lv \<and> used A H' lv = used A H lv"
proof -
  let ?F = "replicate (ar_levels A) (0 :: u64)"
  have "lists_ok A H ?F lv (\<lambda>_. []) {z. 0 \<le> z}" by (simp add: lists_ok_def)
  then have b: "binv A H ?F lv (\<lambda>_. []) {z. 0 \<le> z}" using assms by (simp add: binv_def)
  have z: "0 = ar_units A \<or> (\<exists>j. lv 0 = Some j)" using tilingE [OF assms(2), of 0] by fastforce
  have "ar_units A * 1 \<le> ar_units A * 2 ^ ar_shift A" by (intro mult_le_mono2) simp
  then have f: "ar_units A - 0 \<le> LIST_FUEL" using assms(1) unfolding arena_ok_def LIST_FUEL_def by linarith
  obtain H' F' fl' where 1: "recover_loop LIST_FUEL H ?F (unit_addr A 0) (unit_addr A (ar_units A)) (2 ^ ar_shift A) = Inr (H', F')"
      "binv A H' F' lv fl' {}" "relinked UNIV H H'" using recover_loop_spec [OF b z f] by blast
  have e: "ar_start A + of_int (int (ar_units A) * 2 ^ ar_shift A) = unit_addr A (ar_units A)" "unit_addr A 0 = ar_start A"
    by (simp_all add: unit_addr_def)
  have L: "ar_levels A - 1 + 1 = ar_levels A" using assms(1) by (simp add: arena_ok_def)
  have "used A H' lv = used A H lv" using 1(3) by (simp add: used_def relinked_def)
  moreover have "BuddyAllocator_new junk H (ar_start A) (2 ^ ar_shift A) (2 ^ (ar_shift A + (ar_levels A - 1))) (int (ar_units A) * 2 ^ ar_shift A) True =
      Inr (\<lparr>FreeList = F', basic_block_size = 2 ^ ar_shift A, total_memory_size = (int (ar_units A) * 2 ^ ar_shift A sdiv 2 ^ ar_shift A) * 2 ^ ar_shift A,
            max_block_size = junk, bstart = ar_start A\<rparr>, H')"
    unfolding BuddyAllocator_new_def max_level_log [OF assms(1)] bindE.simps Let_def L e(1) using 1(1) e(2) by simp
  ultimately show ?thesis using 1(2) by (auto simp: buddy_inv_def)
qed

end
