(* ===== verification/Bx_BuddyProps.thy ===== *)
theory Bx_BuddyProps
  imports Bx_BuddyOps
begin

text \<open>The properties of the buddy allocator.\<close>

section \<open>A sample arena\<close>

text \<open>Four basic blocks of 128 KB, as one free block and after one allocation.\<close>

definition sample_arena :: arena where
  "sample_arena = \<lparr>ar_start = 0x10000, ar_shift = 17, ar_levels = 3, ar_units = 4\<rparr>"

definition sample_buddy :: "u64 list \<Rightarrow> headers \<Rightarrow> buddy_world" where
  "sample_buddy F H = \<lparr>bw_buddy = \<lparr>FreeList = F, basic_block_size = 0x20000, total_memory_size = 0x80000, max_block_size = 0, bstart = 0x10000\<rparr>,
     bw_hdr = H, bw_rgs = Regions_new\<rparr>"

definition no_headers :: headers where
  "no_headers = (\<lambda>_. \<lparr>bh_free = False, bh_block_size = 0, bh_next = 0\<rparr>)"

definition buddy_whole :: buddy_world where
  "buddy_whole = sample_buddy [0, 0, 0x10000] (no_headers(0x10000 := \<lparr>bh_free = True, bh_block_size = 0x80000, bh_next = 0\<rparr>))"

definition buddy_one :: buddy_world where
  "buddy_one = sample_buddy [0x30000, 0x50000, 0] (no_headers(0x10000 := \<lparr>bh_free = False, bh_block_size = 0x20000, bh_next = 0x30000\<rparr>,
     0x30000 := \<lparr>bh_free = True, bh_block_size = 0x20000, bh_next = 0\<rparr>, 0x50000 := \<lparr>bh_free = True, bh_block_size = 0x40000, bh_next = 0\<rparr>))"

definition one_tiles :: tiles where
  "one_tiles = [0 \<mapsto> 0, 1 \<mapsto> 0, 2 \<mapsto> 1]"

lemma sample_arena_ok: "arena_ok sample_arena"
  by (simp add: arena_ok_def sample_arena_def)

lemma sample_addr: "unit_addr sample_arena 0 = 0x10000" "unit_addr sample_arena (Suc 0) = 0x30000" "unit_addr sample_arena 2 = 0x50000"
  by (simp_all add: unit_addr_def sample_arena_def)

lemma one_tiles_Some: "one_tiles x = Some j \<longleftrightarrow> x = 0 \<and> j = 0 \<or> x = Suc 0 \<and> j = 0 \<or> x = 2 \<and> j = Suc 0"
  by (auto simp: one_tiles_def)

lemma one_tiles_tiling: "tiling sample_arena one_tiles"
proof -
  have "\<exists>x j. one_tiles x = Some j \<and> x \<le> y \<and> y < x + 2 ^ j" if "y < 4" for y
  proof -
    have "y = 0 \<or> y = 1 \<or> y = 2 \<or> y = 3" using that by auto
    then have "one_tiles (min y 2) = Some (if y < 2 then 0 else 1) \<and> min y 2 \<le> y \<and> y < min y 2 + 2 ^ (if y < 2 then 0 else 1)"
      by (elim disjE) (simp_all add: one_tiles_def)
    then show ?thesis by blast
  qed
  moreover have "one_tiles y = None" if "one_tiles x = Some j" "x < y" "y < x + 2 ^ j" for x j y
    using that unfolding one_tiles_Some by (auto simp: one_tiles_def)
  moreover have "j < 3 \<and> 2 ^ j dvd x \<and> x + 2 ^ j \<le> 4" if "one_tiles x = Some j" for x j using that unfolding one_tiles_Some by auto
  moreover have "ar_levels sample_arena = 3" "ar_units sample_arena = 4" by (simp_all add: sample_arena_def)
  ultimately show ?thesis unfolding tiling_def by auto
qed

lemma buddy_one_inv: "buddy_inv sample_arena buddy_one one_tiles"
proof -
  let ?fl = "(\<lambda>_. [])(0 := [Suc 0], Suc 0 := [2])"
  have ar: "ar_levels sample_arena = 3" "ar_shift sample_arena = 17" "ar_start sample_arena = 0x10000" by (simp_all add: sample_arena_def)
  have s: "sizes_ok sample_arena (bw_hdr buddy_one) one_tiles"
    unfolding sizes_ok_def one_tiles_Some by (auto simp: ar sample_addr buddy_one_def sample_buddy_def)
  have fr: "bh_free (bw_hdr buddy_one (unit_addr sample_arena x)) \<longleftrightarrow> x = 1 \<or> x = 2" if "x \<in> {0, Suc 0, 2}" for x
    using that by (auto simp: sample_addr buddy_one_def sample_buddy_def)
  have "fchain sample_arena (bw_hdr buddy_one) (FreeList (bw_buddy buddy_one) ! j) (?fl j) \<and> distinct (?fl j)
      \<and> set (?fl j) = {x. one_tiles x = Some j \<and> bh_free (bw_hdr buddy_one (unit_addr sample_arena x))} - {}" if j: "j < 3" for j
  proof -
    have "j = 0 \<or> j = Suc 0 \<or> j = 2" using j by auto
    then show ?thesis unfolding one_tiles_Some
      by (elim disjE) (auto simp: sample_addr buddy_one_def sample_buddy_def)
  qed
  then have "lists_ok sample_arena (bw_hdr buddy_one) (FreeList (bw_buddy buddy_one)) one_tiles ?fl {}"
    unfolding lists_ok_def ar(1) by (simp add: buddy_one_def sample_buddy_def)
  then have "binv sample_arena (bw_hdr buddy_one) (FreeList (bw_buddy buddy_one)) one_tiles ?fl {}"
    using s one_tiles_tiling sample_arena_ok by (simp add: binv_def)
  then show ?thesis by (auto simp: buddy_inv_def ar) (simp_all add: buddy_one_def sample_buddy_def)
qed

section \<open>Properties\<close>



text \<open>C17: \<open>free\<close> of a block in use on an arena that satisfies the invariant succeeds, takes exactly
  that block out of use and keeps the invariant, whatever it joins the block with, provided the
  free buddies met on the way up are whole blocks of their level (and, at the highest level,
  that there is no free buddy).\<close>

theorem buddy_free_spec:
  assumes "buddy_inv A w lv" "(x, j) \<in> used A (bw_hdr w) lv" "free_clean A w lv x j"
  shows "\<exists>w' lv'. buddy_free w (unit_addr A x + HEADER_BYTES) = Inr w' \<and> buddy_inv A w' lv'
    \<and> used A (bw_hdr w') lv' = used A (bw_hdr w) lv - {(x, j)} \<and> bw_rgs w' = bw_rgs w"
  by (rule buddy_free_clean [OF assms])

theorem buddy_free_spec_witness:
  "\<exists>w' lv'. buddy_free buddy_one (unit_addr sample_arena 0 + HEADER_BYTES) = Inr w' \<and> buddy_inv sample_arena w' lv'
    \<and> used sample_arena (bw_hdr w') lv' = {}"
proof -
  have u: "(x, j) \<in> used sample_arena (bw_hdr buddy_one) one_tiles \<longleftrightarrow> (x, j) = (0, 0)" for x j
    unfolding used_def mem_Collect_eq prod.case one_tiles_Some
    by (cases "x = 0"; cases "x = Suc 0"; cases "x = 2") (simp_all add: sample_addr buddy_one_def sample_buddy_def)
  have "free_clean sample_arena buddy_one one_tiles 0 0"
  proof -
    have "ar_levels sample_arena = Suc (Suc (Suc 0))" by (simp add: sample_arena_def)
    moreover have "buddy_of 0 0 = Suc 0" "buddy_of 0 (Suc 0) = 2" by (simp_all add: buddy_of_def)
    ultimately show ?thesis using one_tiles_Some by (simp add: free_clean_def)
  qed
  then have "\<exists>w' lv'. buddy_free buddy_one (unit_addr sample_arena 0 + HEADER_BYTES) = Inr w' \<and> buddy_inv sample_arena w' lv'
    \<and> used sample_arena (bw_hdr w') lv' = used sample_arena (bw_hdr buddy_one) one_tiles - {(0, 0)} \<and> bw_rgs w' = bw_rgs buddy_one"
    using u by (intro buddy_free_spec [OF buddy_one_inv]) simp_all
  moreover have "used sample_arena (bw_hdr buddy_one) one_tiles - {(0, 0)} = {}" using u by auto
  ultimately show ?thesis by auto
qed

text \<open>C18: The scan of the recovering constructor rebuilds the allocator: from headers whose flags and
  sizes are those of a state that satisfies the invariant, whatever their links, it makes a state
  that satisfies the invariant with the same blocks in use.\<close>

theorem buddy_recovers:
  assumes "buddy_inv A w lv"
    "\<And>x j. lv x = Some j \<Longrightarrow> bh_free (H (unit_addr A x)) = block_free A w x \<and> bh_block_size (H (unit_addr A x)) = bh_block_size (bw_hdr w (unit_addr A x))"
  shows "\<exists>B H'. BuddyAllocator_new junk H (ar_start A) (2 ^ ar_shift A) (2 ^ (ar_shift A + (ar_levels A - 1))) (int (ar_units A) * 2 ^ ar_shift A) True = Inr (B, H')
    \<and> buddy_inv A \<lparr>bw_buddy = B, bw_hdr = H', bw_rgs = R\<rparr> lv \<and> used A H' lv = used A (bw_hdr w) lv"
proof -
  obtain fl where b: "binv A (bw_hdr w) (FreeList (bw_buddy w)) lv fl {}" using assms(1) by (auto simp: buddy_inv_def)
  have "sizes_ok A H lv" using binvD(3) [OF b] assms(2) by (simp add: sizes_ok_def)
  moreover have "used A H lv = used A (bw_hdr w) lv" using assms(2) by (auto simp: used_def)
  ultimately show ?thesis using BuddyAllocator_recovers [OF binvD(1,2) [OF b]] by metis
qed

theorem buddy_recovers_witness:
  "\<exists>B H'. BuddyAllocator_new 0 (bw_hdr buddy_one) 0x10000 0x20000 0x80000 0x80000 True = Inr (B, H')
    \<and> buddy_inv sample_arena \<lparr>bw_buddy = B, bw_hdr = H', bw_rgs = Regions_new\<rparr> one_tiles"
  using buddy_recovers [OF buddy_one_inv, of "bw_hdr buddy_one" 0 Regions_new] by (auto simp: sample_arena_def)

text \<open>C21: The constructor of a new arena, called with the sizes as \<open>BuddyManager\<close> passes them, establishes
  the invariant with every block free; the member \<open>max_block_size\<close>, which \<open>alloc\<close> uses when it
  grows the region, keeps whatever the memory held.\<close>

theorem buddy_fresh:
  assumes "arena_ok A"
  shows "\<exists>B H'. initBuddyAllocator junk H (BuddyManager (ar_start A) (2 ^ ar_shift A) (2 ^ (ar_shift A + (ar_levels A - 1))) (int (ar_units A) * 2 ^ ar_shift A) False) = Inr (B, H')
    \<and> buddy_inv A \<lparr>bw_buddy = B, bw_hdr = H', bw_rgs = R\<rparr> (max_tiles A) \<and> used A H' (max_tiles A) = {} \<and> max_block_size B = junk"
  using BuddyAllocator_fresh [OF assms] by (simp add: initBuddyAllocator_def BuddyManager_def)

theorem buddy_fresh_witness:
  "\<exists>B H'. initBuddyAllocator 7 no_headers (BuddyManager 0x10000 0x20000 0x80000 0x80000 False) = Inr (B, H') \<and> max_block_size B = 7"
  using buddy_fresh [OF sample_arena_ok, of 7 no_headers Regions_new] by (auto simp: sample_arena_def)


section \<open>Where the code breaks the invariant\<close>

lemma remove_loop_numeral:
  "remove_loop (numeral v) H currPtr b =
     (if currPtr = 0 then Inr H
      else if bh_next (H currPtr) = b then
        if b = 0 then Inl NullDeref
        else let H = H(currPtr := (H currPtr)\<lparr>bh_next := bh_next (H b)\<rparr>)
             in remove_loop (pred_numeral v) H (bh_next (H currPtr)) b
      else remove_loop (pred_numeral v) H (bh_next (H currPtr)) b)"
  by (simp add: numeral_eq_Suc)

lemma balloc_unfold: "balloc sz w = alloc_from (buddy_alloc (EXPAND_FUEL - 1) (to_int (uint sz))) (to_int (uint sz)) w"
proof -
  have "EXPAND_FUEL = Suc (EXPAND_FUEL - 1)" by (simp add: EXPAND_FUEL_def)
  then show ?thesis unfolding balloc_def by (metis buddy_alloc.simps(2))
qed

lemma log2_int_small: "log2_int 4 = Inr (Suc (Suc 0))" "log2_int 1 = Inr 0"
  by (simp_all add: log2_int_def ilog2.simps)

lemma bindE_weak_cong: "m = m' \<Longrightarrow> bindE m f = bindE m' f"
  by simp

lemmas buddy_eval =
  BuddyAllocator_new_def LinkedList_insert_def balloc_unfold to_int_def alloc_from_def cint_def Let_def buddy_split_def
  signed_divide_int_def LinkedList_remove_def HEADER_BYTES_def bfree_def buddy_free_def getbuddy_def buddy_merge_def
  LIST_FUEL_def remove_loop_numeral log2_int_small


text \<open>C23: \<open>free\<close> of a block of the highest level whose buddy is free and as large puts the block on no
  list: all lists stay as they are, so the block is never handed out again.\<close>

theorem buddy_free_leaks_largest:
  assumes "buddy_inv A w lv" "(x, j) \<in> used A (bw_hdr w) lv" "Suc j = ar_levels A"
    "block_free A w (buddy_of x j)" "bh_block_size (bw_hdr w (unit_addr A (buddy_of x j))) = 2 ^ (ar_shift A + j)"
  shows "buddy_free w (unit_addr A x + HEADER_BYTES) =
    Inr (w\<lparr>bw_hdr := (bw_hdr w)(unit_addr A x := (bw_hdr w (unit_addr A x))\<lparr>bh_free := True\<rparr>)\<rparr>)"
proof -
  let ?K = "(bw_hdr w)(unit_addr A x := (bw_hdr w (unit_addr A x))\<lparr>bh_free := True\<rparr>)"
  obtain fl where b: "binv A (bw_hdr w) (FreeList (bw_buddy w)) lv fl {}" and basic: "basic_block_size (bw_buddy w) = 2 ^ ar_shift A"
      and st: "bstart (bw_buddy w) = ar_start A" using assms(1) by (auto simp: buddy_inv_def)
  have x: "lv x = Some j" using assms(2) by (simp add: used_def)
  have jl: "j < ar_levels A" using assms(3) by simp
  have sz: "bh_block_size (?K (unit_addr A x)) = 2 ^ (ar_shift A + j)" using binv_size [OF b x] by simp
  have gb: "getbuddy ?K (unit_addr A x) (ar_start A) = unit_addr A (buddy_of x j)"
    using getbuddy_eq [OF binvD(1) [OF b] jl, of ?K x] sz by blast
  have ky: "?K (unit_addr A (buddy_of x j)) = bw_hdr w (unit_addr A (buddy_of x j))"
    using buddy_addr_ne [OF binvD(1) [OF b] jl tilingD(2) [OF binvD(2) [OF b] x]] by simp
  have lg: "log2_int (bh_block_size (?K (unit_addr A x)) sdiv basic_block_size (bw_buddy w)) = Inr j"
    unfolding sz basic by (simp add: signed_divide_int_def power_add log2_int_def nat_power_eq)
  have "length (FreeList (bw_buddy w)) - 1 - j = 0" using binvD(5) [OF b] assms(3) by simp
  then show ?thesis
    using lg gb ky sz st assms(4,5) by (simp add: buddy_free_def Let_def del: fun_upd_apply)
qed

text \<open>Two blocks of the highest level, the first in use and the second free.\<close>

definition pair_arena :: arena where
  "pair_arena = \<lparr>ar_start = 0x10000, ar_shift = 17, ar_levels = 1, ar_units = 2\<rparr>"

definition buddy_pair :: buddy_world where
  "buddy_pair = sample_buddy [0x30000] (no_headers(0x10000 := \<lparr>bh_free = False, bh_block_size = 0x20000, bh_next = 0\<rparr>,
     0x30000 := \<lparr>bh_free = True, bh_block_size = 0x20000, bh_next = 0\<rparr>))"

lemma buddy_pair_inv: "buddy_inv pair_arena buddy_pair (max_tiles pair_arena)"
proof -
  have ar: "ar_levels pair_arena = 1" "ar_shift pair_arena = 17" "ar_start pair_arena = 0x10000" by (simp_all add: pair_arena_def)
  have ok: "arena_ok pair_arena" by (simp add: arena_ok_def pair_arena_def)
  have mt: "max_tiles pair_arena x = Some j \<longleftrightarrow> j = 0 \<and> (x = 0 \<or> x = Suc 0)" for x j by (auto simp: max_tiles_def pair_arena_def)
  have ad: "unit_addr pair_arena 0 = 0x10000" "unit_addr pair_arena (Suc 0) = 0x30000" by (simp_all add: unit_addr_def pair_arena_def)
  have "sizes_ok pair_arena (bw_hdr buddy_pair) (max_tiles pair_arena)"
    unfolding sizes_ok_def mt by (auto simp: ar ad buddy_pair_def sample_buddy_def)
  moreover have "{x. max_tiles pair_arena x = Some 0 \<and> bh_free (bw_hdr buddy_pair (unit_addr pair_arena x))} = {Suc 0}"
    unfolding mt by (auto simp: ad buddy_pair_def sample_buddy_def no_headers_def)
  then have "lists_ok pair_arena (bw_hdr buddy_pair) (FreeList (bw_buddy buddy_pair)) (max_tiles pair_arena) (\<lambda>_. [Suc 0]) {}"
    unfolding lists_ok_def ar(1) by (simp add: ad) (simp add: buddy_pair_def sample_buddy_def)
  ultimately have "binv pair_arena (bw_hdr buddy_pair) (FreeList (bw_buddy buddy_pair)) (max_tiles pair_arena) (\<lambda>_. [Suc 0]) {}"
    using ok max_tiles_tiling [OF ok] by (simp add: binv_def)
  then show ?thesis by (auto simp: buddy_inv_def ar) (simp_all add: buddy_pair_def sample_buddy_def)
qed

theorem buddy_free_leaks_largest_witness:
  "\<exists>w'. buddy_free buddy_pair (unit_addr pair_arena 0 + HEADER_BYTES) = Inr w' \<and> FreeList (bw_buddy w') = [0x30000] \<and> bh_free (bw_hdr w' 0x10000)"
proof -
  have ad: "unit_addr pair_arena 0 = 0x10000" "unit_addr pair_arena (buddy_of 0 0) = 0x30000"
    by (simp_all add: unit_addr_def pair_arena_def buddy_of_def)
  have u: "(0, 0) \<in> used pair_arena (bw_hdr buddy_pair) (max_tiles pair_arena)"
    by (simp add: used_def ad) (simp add: max_tiles_def pair_arena_def buddy_pair_def sample_buddy_def)
  show ?thesis
    using buddy_free_leaks_largest [OF buddy_pair_inv u] ad by (simp add: buddy_pair_def sample_buddy_def pair_arena_def)
qed

text \<open>C26: \<open>balloc\<close> converts the requested size to \<open>int\<close>: a request of four gigabytes more than \<open>sz\<close>
  is served like one of \<open>sz\<close> bytes, by a block of less than four gigabytes.\<close>

theorem balloc_truncates:
  assumes "buddy_inv A w lv" "uint sz + 16 < 2 ^ 31" "fits A w lv (uint sz) z m"
  shows "\<exists>x k w' lv'. balloc (sz + 2 ^ 32) w = Inr (unit_addr A x + HEADER_BYTES, w') \<and> buddy_inv A w' lv' \<and> lv' x = Some k
    \<and> (2 :: int) ^ (ar_shift A + k) < uint (sz + 2 ^ 32)"
proof -
  have sum: "uint (sz + 2 ^ 32) = uint sz + 2 ^ 32" using assms(2) by (simp add: uint_plus_if_size word_size)
  have pos: "0 \<le> uint sz" by simp
  have "(uint sz + 2 ^ 32 + 2 ^ 31) mod 2 ^ 32 = (uint sz + 2 ^ 31 + 2 ^ 32) mod 2 ^ 32" by (simp only: ac_simps)
  also have "\<dots> = uint sz + 2 ^ 31" unfolding mod_add_self2 using assms(2) pos by (intro mod_pos_pos_trivial) simp_all
  finally have "to_int (uint (sz + 2 ^ 32)) = uint sz"
    unfolding to_int_def sum signed_take_bit_eq_take_bit_shift take_bit_eq_mod by simp
  then have run: "balloc (sz + 2 ^ 32) w = alloc_from (buddy_alloc (EXPAND_FUEL - 1) (uint sz)) (uint sz) w" by (simp add: balloc_unfold)
  obtain x k w' lv' where 1: "alloc_from (buddy_alloc (EXPAND_FUEL - 1) (uint sz)) (uint sz) w = Inr (unit_addr A x + HEADER_BYTES, w')" "buddy_inv A w' lv'" "lv' x = Some k"
    using alloc_from_fits [OF assms(1) pos assms(2,3), of "buddy_alloc (EXPAND_FUEL - 1) (uint sz)"] by blast
  obtain fl where b: "binv A (bw_hdr w') (FreeList (bw_buddy w')) lv' fl {}" using 1(2) by (auto simp: buddy_inv_def)
  have "(2 :: int) ^ (ar_shift A + k) < 2 ^ 31" using pow_int_bounds(2) [OF binvD(1) [OF b]] binv_le [OF b 1(3)] by blast
  moreover have "a < u + 2 ^ 32" if "a < 2 ^ 31" "0 \<le> u" for a u :: int using that by simp
  ultimately have "(2 :: int) ^ (ar_shift A + k) < uint (sz + 2 ^ 32)" unfolding sum using pos by blast
  then show ?thesis unfolding run using 1 by blast
qed

theorem balloc_truncates_witness:
  "\<exists>x k w' lv'. balloc (100000 + 2 ^ 32) buddy_one = Inr (unit_addr sample_arena x + HEADER_BYTES, w') \<and> buddy_inv sample_arena w' lv' \<and> lv' x = Some k
    \<and> (2 :: int) ^ (17 + k) < uint (100000 + 2 ^ 32 :: u64)"
proof -
  have "fits sample_arena buddy_one one_tiles (uint (100000 :: u64)) 1 0"
    by (simp add: fits_def one_tiles_Some sample_addr) (simp add: buddy_one_def sample_buddy_def sample_arena_def)
  from balloc_truncates [OF buddy_one_inv _ this] show ?thesis by (simp add: sample_arena_def)
qed

end
