(* ===== verification/Bx_Api.thy ===== *)
theory Bx_Api
  imports Bx_Dirty Bx_BuddyProps
begin

unbundle bit_operations_syntax

text \<open>
  The public interface (\<open>src/src/bxalloc.cpp\<close>) and the constructor of the superblock queue: the
  creation of the five regions, the routing of requests between the superblock allocator and the
  buddy allocator, reallocation, and the exit.

  The state collects the globals of \<open>bxalloc.cpp\<close>.  \<open>_rgs\<close> is \<open>w_rgs\<close> of the world, shared with
  the buddy allocator; \<open>hs_holder\<close> is the return value kept by the static \<open>bxallocHolder\<close>, once it
  exists; \<open>hs_filter\<close> says which slots of \<open>roots_filter_func\<close> hold a function.  The file of every
  region and the address at which it is mapped are arguments, as are the sizes of the two classes
  that live in files and the content of uninitialised memory (\<open>junk\<close>).
\<close>

record 'm heap_state =
  hs_initialized :: bool
  hs_holder :: "int option"
  hs_world :: world
  hs_buddy :: buddy
  hs_hdr :: headers
  hs_mtx :: 'm
  hs_filter :: "bool list"

record layout =
  lo_file :: "region_index \<Rightarrow> region_file option"
  lo_addr :: "region_index \<Rightarrow> u64"
  lo_queue_size :: u64
  lo_meta_size :: u64
  lo_junk :: int

definition MAX_SB_REGION_SIZE :: u64 where "MAX_SB_REGION_SIZE = SBSIZE * 2 ^ MAX_DESC_AMOUNT_BITS"

section \<open>The queue's region\<close>

text \<open>The address of the queue and its content; the result of the allocation is converted to \<open>bool\<close>.\<close>

definition LockFreeQueue_new :: "region_file option \<Rightarrow> u64 \<Rightarrow> u64 \<Rightarrow> aqueue \<Rightarrow> (region \<times> u64 \<times> aqueue) result" where
  "LockFreeQueue_new file addr qsz q =
     (case file of
        Some f \<Rightarrow> bindE (RegionManager_new (Some f) addr qsz True True) (\<lambda>mgr. Inr (mgr, fetch_heap_start mgr, q))
      | None \<Rightarrow>
          bindE (RegionManager_new None addr qsz True False) (\<lambda>mgr.
          case nvm_region_allocator mgr (rf_curr (rfile mgr)) PAGESIZE qsz of
            (res, a, mgr) \<Rightarrow>
              bindE (assertE ''mgr allocation fails!'' (res \<noteq> 0)) (\<lambda>_.
              case a of
                None \<Rightarrow> Inl Uninitialised
              | Some queue \<Rightarrow> Inr (store_heap_start mgr queue, queue, ArrayQueue_new QUEUE_CAP))))"

section \<open>Initialisation\<close>

text \<open>One region per case of the \<open>switch\<close> of \<open>_BXP_init\<close>.\<close>

definition init_desc :: "layout \<Rightarrow> u64 \<Rightarrow> regions \<Rightarrow> regions result" where
  "init_desc lo num_sb R = Regions_create R (lo_file lo DESC_IDX) (lo_addr lo DESC_IDX) (num_sb * DESCSIZE) True True"

definition init_sb :: "layout \<Rightarrow> u64 \<Rightarrow> regions \<Rightarrow> regions result" where
  "init_sb lo num_sb R = Regions_create R (lo_file lo SB_IDX) (lo_addr lo SB_IDX) (num_sb * SBSIZE) True False"

definition init_large :: "layout \<Rightarrow> u64 \<Rightarrow> u64 \<Rightarrow> regions \<Rightarrow> regions result" where
  "init_large lo sz sbsize R =
     bindE (Regions_create R (lo_file lo LAR_SB_IDX) (lo_addr lo LAR_SB_IDX) MIN_SB_REGION_SIZE True True) (\<lambda>R.
     case rgs R ! idx_no LAR_SB_IDX of
       None \<Rightarrow> Inl NullDeref
     | Some r \<Rightarrow> Inr (set_region LAR_SB_IDX (r\<lparr>FILESIZE := (sz - sbsize) div SBSIZE * SBSIZE\<rparr>) R))"

definition init_queue :: "layout \<Rightarrow> aqueue \<Rightarrow> regions \<Rightarrow> (aqueue \<times> regions) result" where
  "init_queue lo q R =
     bindE (LockFreeQueue_new (lo_file lo QUEUE_IDX) (lo_addr lo QUEUE_IDX) (lo_queue_size lo) q) (\<lambda>(mgr, start, q).
     Inr (q, R\<lparr>rgs := (rgs R)[idx_no QUEUE_IDX := Some mgr],
               regions_address := (regions_address R)[idx_no QUEUE_IDX := start], cur_idx := cur_idx R + 1\<rparr>))"

text \<open>
  \<open>create_for<BaseMeta>\<close>: the constructor of \<open>BaseMeta\<close> runs after the region is entered in the
  table and before its address is.
\<close>

definition init_meta :: "'m pthread \<Rightarrow> layout \<Rightarrow> world \<times> 'm \<Rightarrow> (world \<times> 'm) result" where
  "init_meta P lo s =
     (case s of (w, m) \<Rightarrow>
     bindE (Regions_create_for (w_rgs w) (lo_file lo META_IDX) (lo_addr lo META_IDX) (lo_meta_size lo) True) (\<lambda>(t, fresh, R).
     let w = w\<lparr>w_rgs := R\<lparr>regions_address := regions_address (w_rgs w), cur_idx := cur_idx (w_rgs w)\<rparr>\<rparr> in
     bindE (if fresh then bindE (new_mutex P m) (\<lambda>m. bindE (BaseMeta_new w) (\<lambda>w. Inr (w, m))) else Inr (w, m)) (\<lambda>(w, m).
     Inr (w\<lparr>w_rgs := (w_rgs w)\<lparr>regions_address := (regions_address (w_rgs w))[idx_no META_IDX := t], cur_idx := cur_idx R\<rparr>\<rparr>, m))))"

definition init_buddy :: "layout \<Rightarrow> regions \<Rightarrow> headers \<Rightarrow> (buddy \<times> headers) result" where
  "init_buddy lo R H =
     (case rgs R ! idx_no LAR_SB_IDX of
        None \<Rightarrow> Inl NullDeref
      | Some r \<Rightarrow>
          let startaddress = Regions_lookup R LAR_SB_IDX;
              totalmemory = to_int (uint (curr_addr r - startaddress))
          in initBuddyAllocator (lo_junk lo) H
               (BuddyManager startaddress (128 * 1024) (uint MIN_SB_REGION_SIZE) totalmemory (lo_file lo LAR_SB_IDX \<noteq> None)))"

text \<open>\<open>0.5*size\<close> is exact in a double for the sizes that pass the assertion.\<close>

definition BXP_init_body :: "'m pthread \<Rightarrow> layout \<Rightarrow> u64 \<Rightarrow> 'm heap_state \<Rightarrow> (int \<times> 'm heap_state) result" where
  "BXP_init_body P lo sz s =
     bindE (assertE ''size < MAX_SB_REGION_SIZE && size >= MIN_SB_REGION_SIZE'' (sz < MAX_SB_REGION_SIZE \<and> sz \<ge> MIN_SB_REGION_SIZE)) (\<lambda>_.
     let sbsize = sz div 2; num_sb = sz div SBSIZE; rst = (lo_file lo META_IDX \<noteq> None); w = hs_world s in
     bindE (init_desc lo num_sb Regions_new) (\<lambda>R.
     bindE (init_sb lo num_sb R) (\<lambda>R.
     bindE (init_large lo sz sbsize R) (\<lambda>R.
     bindE (init_queue lo (w_queue w) R) (\<lambda>(q, R).
     bindE (init_meta P lo (w\<lparr>w_rgs := R, w_queue := q\<rparr>, hs_mtx s)) (\<lambda>(w, m).
     bindE (init_buddy lo (w_rgs w) (hs_hdr s)) (\<lambda>(B, H).
     Inr (if rst then 1 else 0, s\<lparr>hs_initialized := True, hs_world := w, hs_mtx := m, hs_buddy := B, hs_hdr := H\<rparr>))))))))"

definition BXP_init :: "'m pthread \<Rightarrow> layout \<Rightarrow> u64 \<Rightarrow> 'm heap_state \<Rightarrow> (int \<times> 'm heap_state) result" where
  "BXP_init P lo sz s =
     (case hs_holder s of
        Some r \<Rightarrow> Inr (r, s)
      | None \<Rightarrow> bindE (BXP_init_body P lo sz s) (\<lambda>(r, s). Inr (r, s\<lparr>hs_holder := Some r\<rparr>)))"

text \<open>The destructor of the holder: the lines it flushes and the state it leaves.\<close>

definition bxallocHolder_delete :: "'m pthread \<Rightarrow> layout \<Rightarrow> 'm heap_state \<Rightarrow> (u64 list \<times> 'm heap_state) result" where
  "bxallocHolder_delete P lo s =
     (let w = hs_world s in
      bindE (Regions_flush_region (w_rgs w) DESC_IDX) (\<lambda>l1.
      bindE (Regions_flush_region (w_rgs w) SB_IDX) (\<lambda>l2.
      case writeback P (Regions_lookup (w_rgs w) META_IDX) (lo_meta_size lo) (hs_mtx s) of
        (l3, m) \<Rightarrow> Inr (l1 @ l2 @ l3,
          s\<lparr>hs_mtx := m, hs_initialized := False, hs_world := w\<lparr>w_rgs := Regions_delete (w_rgs w)\<rparr>\<rparr>))))"

definition BXP_recover :: "'m pthread \<Rightarrow> 'm heap_state \<Rightarrow> (int \<times> 'm heap_state) result" where
  "BXP_recover P s =
     bindE (restart P (hs_filter s) (hs_mtx s, hs_world s)) (\<lambda>(ret, m, w).
     Inr (if ret then 1 else 0, s\<lparr>hs_mtx := m, hs_world := w\<rparr>))"

definition BXP_close :: "'m heap_state \<Rightarrow> 'm heap_state" where
  "BXP_close s = s"

section \<open>Allocation\<close>

definition the_buddy :: "'m heap_state \<Rightarrow> buddy_world" where
  "the_buddy s = \<lparr>bw_buddy = hs_buddy s, bw_hdr = hs_hdr s, bw_rgs = w_rgs (hs_world s)\<rparr>"

definition put_buddy :: "buddy_world \<Rightarrow> 'm heap_state \<Rightarrow> 'm heap_state" where
  "put_buddy b s = s\<lparr>hs_buddy := bw_buddy b, hs_hdr := bw_hdr b, hs_world := (hs_world s)\<lparr>w_rgs := bw_rgs b\<rparr>\<rparr>"

definition BXP_malloc :: "'m heap_state \<Rightarrow> u64 \<Rightarrow> (u64 \<times> 'm heap_state) result" where
  "BXP_malloc s sz =
     bindE (assertE ''initialized'' (hs_initialized s)) (\<lambda>_.
     if sz > SBSIZE then bindE (balloc sz (the_buddy s)) (\<lambda>(p, b). Inr (p, put_buddy b s))
     else bindE (do_malloc (hs_world s) sz) (\<lambda>(p, w). Inr (p, s\<lparr>hs_world := w\<rparr>)))"

definition BXP_free :: "'m heap_state \<Rightarrow> u64 \<Rightarrow> 'm heap_state result" where
  "BXP_free s ptr =
     bindE (assertE ''initialized'' (hs_initialized s)) (\<lambda>_.
     bindE (Regions_in_range (w_rgs (hs_world s)) LAR_SB_IDX ptr) (\<lambda>large.
     if large then bindE (bfree ptr (the_buddy s)) (\<lambda>b. Inr (put_buddy b s))
     else bindE (do_free (hs_world s) ptr) (\<lambda>w. Inr (s\<lparr>hs_world := w\<rparr>))))"

definition BXP_set_root :: "('m heap_state \<Rightarrow> (int \<times> 'm heap_state) result) \<Rightarrow> 'm heap_state \<Rightarrow> u64 \<Rightarrow> nat \<Rightarrow> (u64 \<times> 'm heap_state) result" where
  "BXP_set_root init_default s ptr i =
     bindE (if hs_initialized s then Inr s else bindE (init_default s) (\<lambda>(_, s). Inr s)) (\<lambda>s.
     bindE (set_root (hs_world s) ptr i) (\<lambda>(old, w). Inr (old, s\<lparr>hs_world := w\<rparr>)))"

definition BXP_get_root_c :: "'m heap_state \<Rightarrow> nat \<Rightarrow> (u64 \<times> 'm heap_state) result" where
  "BXP_get_root_c s i =
     bindE (assertE ''initialized'' (hs_initialized s)) (\<lambda>_.
     bindE (get_root (hs_world s) i) (\<lambda>p. Inr (p, s\<lparr>hs_filter := (hs_filter s)[i := True]\<rparr>)))"

definition BXP_malloc_size :: "'m heap_state \<Rightarrow> u64 \<Rightarrow> u64" where
  "BXP_malloc_size s ptr = (let w = hs_world s in ucast (block_size (w_desc w (desc_lookup (w_rgs w) ptr))))"

definition memcpy :: "memory \<Rightarrow> u64 \<Rightarrow> u64 \<Rightarrow> u64 \<Rightarrow> memory" where
  "memcpy m dest src n = (\<lambda>a. if a - dest < n then m (src + (a - dest)) else m a)"

definition memset :: "memory \<Rightarrow> u64 \<Rightarrow> u8 \<Rightarrow> u64 \<Rightarrow> memory" where
  "memset m dest v n = (\<lambda>a. if a - dest < n then v else m a)"

definition BXP_realloc :: "'m heap_state \<Rightarrow> u64 \<Rightarrow> u64 \<Rightarrow> (u64 \<times> 'm heap_state) result" where
  "BXP_realloc s ptr new_size =
     (if ptr = 0 then BXP_malloc s new_size
      else bindE (Regions_in_range (w_rgs (hs_world s)) SB_IDX ptr) (\<lambda>small.
        if \<not> small then Inr (0, s)
        else let old_size = BXP_malloc_size s ptr in
          if old_size = new_size then Inr (ptr, s)
          else bindE (BXP_malloc s new_size) (\<lambda>(new_ptr, s).
            if new_ptr = 0 then Inr (0, s)
            else let w = hs_world s; s = s\<lparr>hs_world := w\<lparr>w_mem := memcpy (w_mem w) new_ptr ptr old_size\<rparr>\<rparr> in
              bindE (BXP_free s ptr) (\<lambda>s. Inr (new_ptr, s)))))"

definition BXP_calloc :: "'m heap_state \<Rightarrow> u64 \<Rightarrow> u64 \<Rightarrow> (u64 \<times> 'm heap_state) result" where
  "BXP_calloc s num sz =
     bindE (BXP_malloc s (num * sz)) (\<lambda>(ptr, s).
     if ptr = 0 then Inr (0, s)
     else let real_size = BXP_malloc_size s ptr; w = hs_world s in
       Inr (ptr, s\<lparr>hs_world := w\<lparr>w_mem := memset (w_mem w) ptr 0 real_size\<rparr>\<rparr>))"

section \<open>Queries\<close>

definition BXP_in_prange :: "'m heap_state \<Rightarrow> u64 \<Rightarrow> int result" where
  "BXP_in_prange s ptr = bindE (Regions_in_range (w_rgs (hs_world s)) SB_IDX ptr) (\<lambda>b. Inr (if b then 1 else 0))"

text \<open>\<open>None\<close> is the return value 1; \<open>Some\<close> carries what is written through the two pointers.\<close>

definition BXP_region_range :: "'m heap_state \<Rightarrow> int \<Rightarrow> u64 \<Rightarrow> u64 \<Rightarrow> (u64 \<times> u64) option result" where
  "BXP_region_range s idx start_addr end_addr =
     (let R = w_rgs (hs_world s) in
      if start_addr = 0 \<or> end_addr = 0 \<or> idx \<ge> int (cur_idx R) then Inr None
      else if idx < 0 then Inl OutOfBounds
      else case rgs R ! nat idx of
        None \<Rightarrow> Inl NullDeref
      | Some r \<Rightarrow> Inr (Some (regions_address R ! nat idx, regions_address R ! nat idx + FILESIZE r)))"

definition BXP_getstart :: "'m heap_state \<Rightarrow> u64" where
  "BXP_getstart s = regions_address (w_rgs (hs_world s)) ! idx_no SB_IDX"

section \<open>Statistics\<close>

text \<open>
  \<open>BXP_output\<close>: the three counters it prints and the row \<open>objsize[1]\<close>, which grows by whole
  numbers; the row \<open>objsize[0]\<close> of occupancy rates is left out.  The number of superblocks of a
  block is computed in single precision, which is exact up to \<open>2^24\<close> bytes.
\<close>

record usage =
  small_alloc_count :: nat
  large_alloc_count :: nat
  total_alloc_count :: nat
  objsize1 :: "nat \<Rightarrow> nat"

definition output_step :: "world \<Rightarrow> u64 \<Rightarrow> usage \<Rightarrow> usage result" where
  "output_step w sb u =
     (let des = w_desc w (desc_lookup (w_rgs w) sb); this_anchor = danchor des in
      if astate this_anchor = SB_FULL \<and> avail this_anchor = 0 \<and> acount this_anchor = 0 then
        let sb_count = (unat (block_size des) + 65535) div 65536 in
        Inr (u\<lparr>objsize1 := (objsize1 u)(0 := objsize1 u 0 + sb_count), large_alloc_count := large_alloc_count u + sb_count,
               total_alloc_count := total_alloc_count u + sb_count\<rparr>)
      else if astate this_anchor \<noteq> SB_ERROR then
        bindE (Index (ucast (block_size des))) (\<lambda>pos.
        if pos \<ge> of_nat NLIST then Inl OutOfBounds
        else Inr (u\<lparr>objsize1 := (objsize1 u)(unat pos := objsize1 u (unat pos) + 1), small_alloc_count := small_alloc_count u + 1 + 1,
                    total_alloc_count := total_alloc_count u + 1 + 1\<rparr>))
      else Inr u)"

fun output_loop :: "nat \<Rightarrow> world \<Rightarrow> u64 \<Rightarrow> u64 \<Rightarrow> usage \<Rightarrow> usage result" where
  "output_loop 0 w sb ending u = (if sb \<le> ending then Inl NoProgress else Inr u)"
| "output_loop (Suc n) w sb ending u =
     (if sb \<le> ending then bindE (output_step w sb u) (output_loop n w (sb + 0x10000) ending) else Inr u)"

text \<open>The bound on the rounds: one per superblock of the region and one for its end.\<close>

definition BXP_output :: "'m heap_state \<Rightarrow> (nat \<Rightarrow> nat) \<Rightarrow> usage result" where
  "BXP_output s row =
     (let w = hs_world s; start = regions_address (w_rgs w) ! 1 in
      case rgs (w_rgs w) ! idx_no SB_IDX of
        None \<Rightarrow> Inl NullDeref
      | Some r \<Rightarrow> output_loop (unat (curr_addr r - start) div 65536 + 2) w start (curr_addr r)
          \<lparr>small_alloc_count = 0, large_alloc_count = 0, total_alloc_count = 0, objsize1 = row\<rparr>)"

definition BXP_get_root :: "'m heap_state \<Rightarrow> nat \<Rightarrow> (u64 \<times> 'm heap_state) result" where
  "BXP_get_root s i =
     bindE (assertE ''bxalloc::initialized'' (hs_initialized s)) (\<lambda>_.
     bindE (get_root (hs_world s) i) (\<lambda>p. Inr (p, s\<lparr>hs_filter := (hs_filter s)[i := True]\<rparr>)))"


end
