(* ===== verification/Bx_ApiRegions.thy ===== *)
theory Bx_ApiRegions
  imports Bx_Api
begin

text \<open>
  The regions under the public interface: what the \<open>switch\<close> of \<open>_BXP_init\<close> makes of them when
  no file exists, and that the superblock allocator leaves the regions of the others alone.
\<close>

section \<open>The regions during construction\<close>

text \<open>The constructor of \<open>BaseMeta\<close> does not depend on the address of its own region.\<close>

definition at_meta :: "u64 \<Rightarrow> nat \<Rightarrow> regions \<Rightarrow> regions" where
  "at_meta t n R = R\<lparr>regions_address := (regions_address R)[idx_no META_IDX := t], cur_idx := n\<rparr>"

abbreviation world_at :: "u64 \<Rightarrow> nat \<Rightarrow> world \<Rightarrow> world" where
  "world_at t n w \<equiv> w\<lparr>w_rgs := at_meta t n (w_rgs w)\<rparr>"

lemma at_meta_simps [simp]:
  "rgs (at_meta t n R) = rgs R" "Regions_lookup (at_meta t n R) DESC_IDX = Regions_lookup R DESC_IDX"
  "Regions_lookup (at_meta t n R) SB_IDX = Regions_lookup R SB_IDX" "desc_lookup (at_meta t n R) = desc_lookup R"
  "desc_index (at_meta t n R) = desc_index R" "Regions_lookup (at_meta t n R) LAR_SB_IDX = Regions_lookup R LAR_SB_IDX"
  by (simp_all add: at_meta_def Regions_lookup_def desc_lookup_def desc_index_def fun_eq_iff)

lemma world_at_order: "(world_at t n w)\<lparr>w_desc := D, w_queue := q\<rparr> = world_at t n (w\<lparr>w_desc := D, w_queue := q\<rparr>)"
  by simp

lemma organize_loop_meta:
  "organize_loop k d (world_at t n w) = map_sum (\<lambda>e. e) (world_at t n) (organize_loop k d w)"
proof (induction k arbitrary: d w)
  case (Suc k)
  let ?d = "d + DESCSIZE"
  show ?case
  proof (cases "LockFreeQueue_push (w_queue w) (desc_index (w_rgs w) ?d)")
    case (Inr q)
    have "organize_loop k ?d (world_at t n ((upd_desc ?d (\<lambda>_. Descriptor ?d) w)\<lparr>w_queue := q\<rparr>)) =
        map_sum (\<lambda>e. e) (world_at t n) (organize_loop k ?d ((upd_desc ?d (\<lambda>_. Descriptor ?d) w)\<lparr>w_queue := q\<rparr>))" by (rule Suc.IH)
    then show ?thesis using Inr by (simp add: Let_def upd_desc_def world_at_order)
  qed (simp add: Let_def upd_desc_def)
qed simp

lemma organize_sb_list_meta: "organize_sb_list (world_at t n w) sb cnt = map_sum (\<lambda>e. e) (world_at t n) (organize_sb_list w sb cnt)"
proof (cases "LockFreeQueue_push (w_queue w) (desc_index (w_rgs w) (desc_lookup (w_rgs w) sb))")
  case (Inr q)
  let ?d = "desc_lookup (w_rgs w) sb"
  have "organize_loop (unat cnt - 1) ?d (world_at t n ((upd_desc ?d (\<lambda>_. Descriptor ?d) w)\<lparr>w_queue := q\<rparr>)) =
      map_sum (\<lambda>e. e) (world_at t n) (organize_loop (unat cnt - 1) ?d ((upd_desc ?d (\<lambda>_. Descriptor ?d) w)\<lparr>w_queue := q\<rparr>))"
    by (rule organize_loop_meta)
  then show ?thesis using Inr by (simp add: organize_sb_list_def Let_def upd_desc_def world_at_order)
qed (simp add: organize_sb_list_def Let_def upd_desc_def)

lemma BaseMeta_new_meta: "BaseMeta_new (world_at t n w) = map_sum (\<lambda>e. e) (world_at t n) (BaseMeta_new w)"
proof (cases "rgs (w_rgs w) ! idx_no SB_IDX")
  case (Some r)
  obtain res a r' where al: "nvm_region_allocator r (rf_curr (rfile r)) SBSIZE SB_REGION_EXPAND_SIZE = (res, a, r')" by (cases "nvm_region_allocator r (rf_curr (rfile r)) SBSIZE SB_REGION_EXPAND_SIZE")
  show ?thesis
  proof (cases "res = -1 \<or> a = None")
    case True
    then show ?thesis using Some al by (auto simp: BaseMeta_new_def Let_def Regions_expand_def assertE_def)
  next
    case False
    then obtain b where b: "a = Some b" "res \<noteq> -1" by auto
    define R1 where "R1 = (w_rgs w)\<lparr>rgs := (rgs (w_rgs w))[idx_no SB_IDX := Some r']\<rparr>"
    have R1: "w_rgs (world_at t n w)\<lparr>rgs := (rgs (w_rgs w))[idx_no SB_IDX := Some r']\<rparr> = at_meta t n R1"
      by (simp add: at_meta_def R1_def)
    show ?thesis
    proof (cases "rgs R1 ! idx_no SB_IDX")
      case None
      then show ?thesis using Some al b R1 by (simp add: BaseMeta_new_def Let_def Regions_expand_def R1_def)
    next
      case (Some r2)
      define w2 where "w2 = w\<lparr>w_heaps := fresh_heaps (w_rgs w), w_roots := replicate MAX_ROOTS 0,
        w_rgs := (set_region SB_IDX (store_heap_start r2 b) R1)\<lparr>regions_address := (regions_address R1)[idx_no SB_IDX := b]\<rparr>\<rparr>"
      have 1: "BaseMeta_new w = organize_sb_list w2 (b + SBSIZE) (SB_REGION_EXPAND_SIZE div SBSIZE - 1)"
        using \<open>rgs (w_rgs w) ! idx_no SB_IDX = Some r\<close> al b Some
        by (simp add: BaseMeta_new_def Let_def Regions_expand_def R1_def w2_def fresh_heaps_def set_region_def)
      have "w\<lparr>w_heaps := fresh_heaps (at_meta t n (w_rgs w)), w_roots := replicate MAX_ROOTS 0,
          w_rgs := (set_region SB_IDX (store_heap_start r2 b) (at_meta t n R1))\<lparr>regions_address := (regions_address (at_meta t n R1))[idx_no SB_IDX := b]\<rparr>\<rparr>
          = world_at t n w2"
        by (simp add: w2_def at_meta_def set_region_def fresh_heaps_def acpc_store_def acpc_pack_def ptr_cnt_set_def list_update_swap Let_def)
      then have 2: "BaseMeta_new (world_at t n w) = organize_sb_list (world_at t n w2) (b + SBSIZE) (SB_REGION_EXPAND_SIZE div SBSIZE - 1)"
        using \<open>rgs (w_rgs w) ! idx_no SB_IDX = Some r\<close> al b Some R1
        by (simp add: BaseMeta_new_def Let_def Regions_expand_def R1_def fresh_heaps_def set_region_def)
      show ?thesis unfolding 1 2 by (rule organize_sb_list_meta)
    qed
  qed
qed (simp add: BaseMeta_new_def Let_def)


section \<open>A new heap\<close>

text \<open>No file exists and every mapping is at a page of the lower half of the address space.\<close>

definition fresh_layout :: "layout \<Rightarrow> bool" where
  "fresh_layout lo \<longleftrightarrow> (\<forall>i. lo_file lo i = None \<and> unat (lo_addr lo i) mod 4096 = 0 \<and> 0 < unat (lo_addr lo i) \<and> unat (lo_addr lo i) < 2 ^ 46)
     \<and> 0 < unat (lo_queue_size lo) \<and> unat (lo_queue_size lo) < 2 ^ 40 \<and> 0 < unat (lo_meta_size lo) \<and> unat (lo_meta_size lo) < 2 ^ 40"

lemma fresh_layoutD:
  assumes "fresh_layout lo"
  shows "lo_file lo i = None" "unat (lo_addr lo i) mod 4096 = 0" "0 < unat (lo_addr lo i)" "unat (lo_addr lo i) < 2 ^ 46"
    "unat (lo_addr lo i) < 2 ^ 47" "unat (lo_addr lo i) mod 64 = 0"
proof -
  show 1: "lo_file lo i = None" "unat (lo_addr lo i) mod 4096 = 0" "0 < unat (lo_addr lo i)" "unat (lo_addr lo i) < 2 ^ 46"
    using assms by (simp_all add: fresh_layout_def)
  then show "unat (lo_addr lo i) < 2 ^ 47" by simp
  have "64 dvd (4096 :: nat)" by simp
  then show "unat (lo_addr lo i) mod 64 = 0" using 1(2) by (metis dvd_trans mod_eq_0_iff_dvd)
qed

definition sized :: "u64 \<Rightarrow> bool" where
  "sized sz \<longleftrightarrow> sz < MAX_SB_REGION_SIZE \<and> 2 ^ 30 + 65536 \<le> unat sz"

lemma sizedD:
  assumes "sized sz"
  defines "n \<equiv> unat sz div 65536"
  shows "unat sz < 2 ^ 40" "unat (sz div SBSIZE * DESCSIZE) = n * 64" "unat (sz div SBSIZE * SBSIZE) = n * 65536" "2 ^ 14 < n" "n < 2 ^ 24"
    "unat (file_size_for (sz div SBSIZE * SBSIZE)) = n * 65536 + 8192" "MIN_SB_REGION_SIZE \<le> sz"
proof -
  show lt: "unat sz < 2 ^ 40" using assms(1) by (simp add: sized_def MAX_SB_REGION_SIZE_def SBSIZE_eq MAX_DESC_AMOUNT_BITS_def word_less_nat_alt)
  show n: "2 ^ 14 < n" "n < 2 ^ 24"
    using assms(1) lt div_le_mono [of 1073807360 "unat sz" 65536] by (auto simp: sized_def n_def)
  have d: "unat (sz div SBSIZE) = n" by (simp add: unat_div SBSIZE_eq n_def)
  have m: "unat ((sz div SBSIZE) * c) = n * unat c" if "unat c \<le> 65536" for c
  proof -
    have "n * unat c \<le> n * 65536" using that by simp
    also have "\<dots> < 2 ^ 64" using n by simp
    finally show ?thesis using d by (subst unat_mult_lem [THEN iffD1]) (simp_all add: d)
  qed
  show "unat (sz div SBSIZE * DESCSIZE) = n * 64" using m [of DESCSIZE] by (simp add: DESCSIZE_def)
  show s: "unat (sz div SBSIZE * SBSIZE) = n * 65536" using m [of SBSIZE] by (simp add: SBSIZE_eq)
  have q: "unat (sz div SBSIZE * SBSIZE div PAGESIZE + 2) = n * 16 + 2"
    using n s by (subst unat_add_lt) (simp_all add: unat_div PAGESIZE_def)
  show "unat (file_size_for (sz div SBSIZE * SBSIZE)) = n * 65536 + 8192"
    unfolding file_size_for_def using n q by (subst unat_mult_lem [THEN iffD1]) (simp_all add: PAGESIZE_def)
  show "MIN_SB_REGION_SIZE \<le> sz" using assms(1) by (simp add: sized_def MIN_SB_REGION_SIZE_def word_le_nat_alt)
qed

lemma LockFreeQueue_new_fresh:
  assumes "0 < unat qsz" "unat qsz < 2 ^ 40" "unat addr < 2 ^ 47" "unat addr mod 4096 = 0"
  shows "\<exists>r. LockFreeQueue_new None addr qsz q = Inr (r, addr + 4096, ArrayQueue_new QUEUE_CAP)"
proof -
  let ?r = "map_persistent_region (file_size_for qsz) True addr"
  obtain r' where "nvm_region_allocator ?r (rf_curr (rfile ?r)) (2 ^ 12) qsz = (1, Some (addr + 4096), r')"
    using fresh_region_alloc [OF assms(1-3), of 12 ?r True] assms(4) by auto
  then show ?thesis by (simp add: LockFreeQueue_new_def RegionManager_new_def Let_def PAGESIZE_def)
qed

lemma init_regions_fresh:
  assumes "fresh_layout lo" "sized sz"
  defines "n \<equiv> sz div SBSIZE" and "a \<equiv> lo_addr lo"
  shows "\<exists>rd rl rq.
    bindE (init_desc lo n Regions_new) (\<lambda>R. bindE (init_sb lo n R) (\<lambda>R. bindE (init_large lo sz (sz div 2) R) (init_queue lo q))) =
      Inr (ArrayQueue_new QUEUE_CAP,
           \<lparr>rgs = [Some rd, Some (map_persistent_region (file_size_for (n * SBSIZE)) True (a SB_IDX)), Some rl, Some rq, None],
            regions_address = [a DESC_IDX + 4096, 0, a LAR_SB_IDX + 4096, a QUEUE_IDX + 4096, 0], cur_idx = 4\<rparr>)
    \<and> unat (curr_addr rl) = unat (a LAR_SB_IDX) + 4096 + 2 ^ 30"
proof -
  note f = fresh_layoutD [OF assms(1)] and s = sizedD [OF assms(2)]
  have "0 < unat (n * DESCSIZE)" "unat (n * DESCSIZE) < 2 ^ 40" using s(2,4,5) by (simp_all add: n_def)
  then obtain rd where rd: "RegionManager_new None (a DESC_IDX) (n * DESCSIZE) True True = Inr rd" "fetch_heap_start rd = a DESC_IDX + 4096"
    using RegionManager_new_fresh [OF _ _ f(5,6), of "n * DESCSIZE" DESC_IDX True] by (auto simp: a_def)
  have "unat MIN_SB_REGION_SIZE = 2 ^ 30" by (simp add: MIN_SB_REGION_SIZE_def)
  then obtain r1 where r1: "RegionManager_new None (a LAR_SB_IDX) MIN_SB_REGION_SIZE True True = Inr r1" "fetch_heap_start r1 = a LAR_SB_IDX + 4096"
      "unat (curr_addr r1) = unat (a LAR_SB_IDX) + 4096 + 2 ^ 30"
    using RegionManager_new_fresh [OF _ _ f(5,6), of MIN_SB_REGION_SIZE LAR_SB_IDX True] by (auto simp: a_def)
  define rl where "rl = r1\<lparr>FILESIZE := (sz - sz div 2) div SBSIZE * SBSIZE\<rparr>"
  have rl: "unat (curr_addr rl) = unat (a LAR_SB_IDX) + 4096 + 2 ^ 30" using r1(3) by (simp add: rl_def curr_addr_def)
  obtain rq where rq: "LockFreeQueue_new None (a QUEUE_IDX) (lo_queue_size lo) q = Inr (rq, a QUEUE_IDX + 4096, ArrayQueue_new QUEUE_CAP)"
    using LockFreeQueue_new_fresh [OF _ _ f(5,2), of "lo_queue_size lo" QUEUE_IDX q] assms(1) by (auto simp: a_def fresh_layout_def)
  have R0: "Regions_new = \<lparr>rgs = [None, None, None, None, None], regions_address = [0, 0, 0, 0, 0], cur_idx = 0\<rparr>"
    by (simp add: Regions_new_def LAST_IDX_def eval_nat_numeral)
  have sb: "RegionManager_new None (a SB_IDX) (n * SBSIZE) True False = Inr (map_persistent_region (file_size_for (n * SBSIZE)) True (a SB_IDX))"
    by (simp add: RegionManager_new_def Let_def)
  have "init_desc lo n Regions_new = Inr \<lparr>rgs = [Some rd, None, None, None, None], regions_address = [a DESC_IDX + 4096, 0, 0, 0, 0], cur_idx = 1\<rparr>"
    using rd f(1) by (simp add: init_desc_def Regions_create_def R0 LAST_IDX_def a_def)
  moreover have "init_sb lo n \<lparr>rgs = [Some rd, None, None, None, None], regions_address = [a DESC_IDX + 4096, 0, 0, 0, 0], cur_idx = 1\<rparr> =
      Inr \<lparr>rgs = [Some rd, Some (map_persistent_region (file_size_for (n * SBSIZE)) True (a SB_IDX)), None, None, None], regions_address = [a DESC_IDX + 4096, 0, 0, 0, 0], cur_idx = 2\<rparr>"
    using sb f(1) by (simp add: init_sb_def Regions_create_def LAST_IDX_def a_def)
  moreover have "init_large lo sz (sz div 2) \<lparr>rgs = [Some rd, Some (map_persistent_region (file_size_for (n * SBSIZE)) True (a SB_IDX)), None, None, None], regions_address = [a DESC_IDX + 4096, 0, 0, 0, 0], cur_idx = 2\<rparr> =
      Inr \<lparr>rgs = [Some rd, Some (map_persistent_region (file_size_for (n * SBSIZE)) True (a SB_IDX)), Some rl, None, None], regions_address = [a DESC_IDX + 4096, 0, a LAR_SB_IDX + 4096, 0, 0], cur_idx = 3\<rparr>"
    using r1 f(1) by (simp add: init_large_def Regions_create_def LAST_IDX_def a_def set_region_def rl_def)
  moreover have "init_queue lo q \<lparr>rgs = [Some rd, Some (map_persistent_region (file_size_for (n * SBSIZE)) True (a SB_IDX)), Some rl, None, None], regions_address = [a DESC_IDX + 4096, 0, a LAR_SB_IDX + 4096, 0, 0], cur_idx = 3\<rparr> =
      Inr (ArrayQueue_new QUEUE_CAP, \<lparr>rgs = [Some rd, Some (map_persistent_region (file_size_for (n * SBSIZE)) True (a SB_IDX)), Some rl, Some rq, None],
        regions_address = [a DESC_IDX + 4096, 0, a LAR_SB_IDX + 4096, a QUEUE_IDX + 4096, 0], cur_idx = 4\<rparr>)"
    using rq f(1) by (simp add: init_queue_def a_def)
  ultimately show ?thesis using rl by (intro exI [of _ rd] exI [of _ rl] exI [of _ rq]) simp
qed


section \<open>What the superblock allocator leaves alone\<close>

definition other_regions :: "regions \<Rightarrow> regions \<Rightarrow> bool" where
  "other_regions R R' \<longleftrightarrow> (\<forall>i. i \<noteq> idx_no SB_IDX \<longrightarrow> rgs R' ! i = rgs R ! i \<and> regions_address R' ! i = regions_address R ! i)
     \<and> base_addr (sb_region R') = base_addr (sb_region R) \<and> FILESIZE (sb_region R') = FILESIZE (sb_region R)"

lemma other_regions_refl [simp]: "other_regions R R"
  by (simp add: other_regions_def)

lemma other_regions_trans: "other_regions R R' \<Longrightarrow> other_regions R' R'' \<Longrightarrow> other_regions R R''"
  by (simp add: other_regions_def)

lemma allocator_file:
  assumes "nvm_region_allocator r now al sz = (res, a, r')"
  obtains c where "r' = r\<lparr>rfile := (rfile r)\<lparr>rf_curr := c\<rparr>\<rparr>"
proof -
  have "r' = r \<or> (\<exists>c. r' = r\<lparr>rfile := (rfile r)\<lparr>rf_curr := c\<rparr>\<rparr>)"
    using assms by (auto simp: nvm_region_allocator_def Let_def split: if_splits prod.splits bool.splits)
  moreover have "r = r\<lparr>rfile := (rfile r)\<lparr>rf_curr := rf_curr (rfile r)\<rparr>\<rparr>" by simp
  ultimately show thesis using that by metis
qed

lemma other_regions_update:
  assumes "rgs R ! idx_no SB_IDX = Some r" "base_addr r' = base_addr r" "FILESIZE r' = FILESIZE r" "length (rgs R) = LAST_IDX"
  shows "other_regions R (R\<lparr>rgs := (rgs R)[idx_no SB_IDX := Some r']\<rparr>)"
    "other_regions R (R\<lparr>rgs := (rgs R)[idx_no SB_IDX := Some r'], regions_address := (regions_address R)[idx_no SB_IDX := x]\<rparr>)"
  using assms by (auto simp: other_regions_def sb_region_def LAST_IDX_def nth_list_update)

lemma organize_loop_rgs: "organize_loop n d w = Inr w' \<Longrightarrow> w_rgs w' = w_rgs w"
  by (induction n arbitrary: d w) (fastforce simp: Let_def upd_desc_def)+

lemma organize_sb_list_rgs: "organize_sb_list w sb cnt = Inr w' \<Longrightarrow> w_rgs w' = w_rgs w"
  by (auto simp: organize_sb_list_def Let_def upd_desc_def dest!: organize_loop_rgs)

lemma BaseMeta_new_rgs:
  assumes "BaseMeta_new w = Inr w'" "length (rgs (w_rgs w)) = LAST_IDX"
  obtains r c b where "rgs (w_rgs w) ! idx_no SB_IDX = Some r"
    "w_rgs w' = (w_rgs w)\<lparr>rgs := (rgs (w_rgs w))[idx_no SB_IDX := Some (store_heap_start (r\<lparr>rfile := (rfile r)\<lparr>rf_curr := c\<rparr>\<rparr>) b)],
      regions_address := (regions_address (w_rgs w))[idx_no SB_IDX := b]\<rparr>"
proof -
  obtain r where r: "rgs (w_rgs w) ! idx_no SB_IDX = Some r" using assms(1) by (auto simp: BaseMeta_new_def Let_def split: option.splits)
  obtain res a r' where al: "nvm_region_allocator r (rf_curr (rfile r)) SBSIZE SB_REGION_EXPAND_SIZE = (res, a, r')"
    by (cases "nvm_region_allocator r (rf_curr (rfile r)) SBSIZE SB_REGION_EXPAND_SIZE")
  obtain c where c: "r' = r\<lparr>rfile := (rfile r)\<lparr>rf_curr := c\<rparr>\<rparr>" using allocator_file [OF al] .
  obtain b where b: "a = Some b" using assms(1) r al by (cases a) (auto simp: BaseMeta_new_def Let_def Regions_expand_def)
  have "w_rgs w' = (w_rgs w)\<lparr>rgs := (rgs (w_rgs w))[idx_no SB_IDX := Some (store_heap_start r' b)],
      regions_address := (regions_address (w_rgs w))[idx_no SB_IDX := b]\<rparr>"
    using assms r al b by (auto simp: BaseMeta_new_def Let_def Regions_expand_def set_region_def LAST_IDX_def dest!: organize_sb_list_rgs)
  then show thesis using that [OF r] c by blast
qed

lemma BaseMeta_new_other:
  assumes "BaseMeta_new w = Inr w'" "length (rgs (w_rgs w)) = LAST_IDX"
  shows "other_regions (w_rgs w) (w_rgs w')"
proof -
  obtain r c b where "rgs (w_rgs w) ! idx_no SB_IDX = Some r"
    "w_rgs w' = (w_rgs w)\<lparr>rgs := (rgs (w_rgs w))[idx_no SB_IDX := Some (store_heap_start (r\<lparr>rfile := (rfile r)\<lparr>rf_curr := c\<rparr>\<rparr>) b)],
      regions_address := (regions_address (w_rgs w))[idx_no SB_IDX := b]\<rparr>"
    using BaseMeta_new_rgs [OF assms] .
  then show ?thesis using other_regions_update(2) [OF _ _ _ assms(2)] by (simp add: store_heap_start_def)
qed

text \<open>A request can move the end of the superblock region and nothing else.\<close>

definition sb_grown :: "regions \<Rightarrow> regions \<Rightarrow> bool" where
  "sb_grown R R' \<longleftrightarrow> R' = R
     \<or> (\<exists>r c. rgs R ! idx_no SB_IDX = Some r \<and> R' = R\<lparr>rgs := (rgs R)[idx_no SB_IDX := Some (r\<lparr>rfile := (rfile r)\<lparr>rf_curr := c\<rparr>\<rparr>)]\<rparr>)"

lemma sb_grown_refl [simp]: "sb_grown R R"
  by (simp add: sb_grown_def)

lemma sb_grown_other:
  assumes "sb_grown R R'" "length (rgs R) = LAST_IDX"
  shows "other_regions R R'" "regions_address R' = regions_address R"
  using assms other_regions_update(1) [OF _ _ _ assms(2)] by (auto simp: sb_grown_def)

lemma small_sb_alloc_grown:
  assumes "small_sb_alloc w sz = Inr (p, w')"
  shows "sb_grown (w_rgs w) (w_rgs w')"
proof -
  have sz: "sz = SBSIZE" using assms by (auto simp: small_sb_alloc_def split: if_splits)
  obtain res q where q: "LockFreeQueue_pop (w_queue w) = Inr (res, q)" using assms sz by (auto simp: small_sb_alloc_def)
  show ?thesis
  proof (cases res)
    case (Some i)
    then show ?thesis using assms q sz by (auto simp: small_sb_alloc_def Let_def)
  next
    case None
    obtain r where r: "rgs (w_rgs w) ! idx_no SB_IDX = Some r" using assms q None sz by (auto simp: small_sb_alloc_def Let_def split: option.splits)
    obtain c where "w_rgs w' = (w_rgs w)\<lparr>rgs := (rgs (w_rgs w))[idx_no SB_IDX := Some (r\<lparr>rfile := (rfile r)\<lparr>rf_curr := c\<rparr>\<rparr>)]\<rparr>"
      using assms q None sz r
      by (auto simp: small_sb_alloc_def Let_def upd_desc_def set_region_def split: if_splits prod.splits bool.splits dest!: organize_sb_list_rgs)
    then show ?thesis using r by (auto simp: sb_grown_def)
  qed
qed

lemma heap_push_partial_rgs:
  assumes "heap_push_partial w d = Inr w'"
  shows "w_rgs w' = w_rgs w"
proof -
  obtain h where h: "heap_at (w_rgs w) (crossptr_get (w_rgs w) META_IDX (dheap (w_desc w d))) = Inr h"
    using assms by (auto simp: heap_push_partial_def)
  let ?old = "acpc_load (w_rgs w) DESC_IDX (partial_list (w_heaps w ! h))"
  obtain b c e where "acpc_compare_exchange_weak (w_rgs w) DESC_IDX False (partial_list (w_heaps w ! h)) ?old (ptr_cnt_set d (pc_cnt ?old + 1)) = (b, c, e)"
    by (metis prod_cases3)
  then show ?thesis using assms h by (cases b) (auto simp: heap_push_partial_def Let_def upd_desc_def set_partial_def)
qed

lemma heap_pop_partial_rgs: "heap_pop_partial w h = Inr (d, w') \<Longrightarrow> w_rgs w' = w_rgs w"
  by (auto simp: heap_pop_partial_def Let_def set_partial_def split: if_splits prod.splits bool.splits)

lemma small_sb_retire_rgs: "small_sb_retire w sb sz = Inr w' \<Longrightarrow> w_rgs w' = w_rgs w"
  by (auto simp: small_sb_retire_def Let_def upd_desc_def)

lemmas keep_rgs = heap_push_partial_rgs small_sb_retire_rgs

lemma malloc_from_partial_rgs: "malloc_from_partial fuel sc w n = Inr (m, w') \<Longrightarrow> w_rgs w' = w_rgs w"
proof (induction fuel arbitrary: w n)
  case (Suc fuel)
  obtain d w1 where p: "heap_pop_partial w sc = Inr (d, w1)"
    using Suc.prems by (cases "heap_pop_partial w sc") (auto simp: malloc_from_partial.simps)
  note r = heap_pop_partial_rgs [OF p]
  show ?case
  proof (cases "d = 0 \<or> astate (danchor (w_desc w1 d)) = SB_EMPTY")
    case True
    then show ?thesis using Suc.prems p r Suc.IH by (auto simp: malloc_from_partial.simps Let_def dest!: small_sb_retire_rgs split: if_splits)
  next
    case False
    then show ?thesis using Suc.prems p r
      by (auto simp: malloc_from_partial.simps Let_def set_flist_def upd_desc_def split: if_splits prod.splits dest!: heap_push_partial_rgs)
  qed
qed (simp add: malloc_from_partial.simps)

lemma malloc_from_newsb_grown:
  assumes "malloc_from_newsb sc w n = Inr (m, w')"
  shows "sb_grown (w_rgs w) (w_rgs w')"
proof -
  obtain sb w1 where a: "small_sb_alloc w SBSIZE = Inr (sb, w1)" using assms by (auto simp: malloc_from_newsb_def Let_def split: if_splits)
  have "w_rgs w' = w_rgs w1"
    using assms a by (auto simp: malloc_from_newsb_def Let_def set_flist_def upd_desc_def split: if_splits prod.splits dest!: heap_push_partial_rgs)
  then show ?thesis using small_sb_alloc_grown [OF a] by simp
qed

lemma do_malloc_grown:
  assumes "do_malloc w sz = Inr (p, w')"
  shows "sb_grown (w_rgs w) (w_rgs w')"
proof (cases "sz > MAX_SZ")
  case True
  then obtain sbs w1 q where "small_sb_alloc w sbs = Inr (q, w1)" "w_rgs w' = w_rgs w1"
    using assms by (auto simp: do_malloc_def Let_def upd_desc_def)
  then show ?thesis using small_sb_alloc_grown by auto
next
  case False
  obtain a where a: "RoundUp sz = Inr a" using assms False by (auto simp: do_malloc_def)
  obtain i where i: "sizetoindex myclasssize a = Some i" using assms False a by (cases "sizetoindex myclasssize a") (auto simp: do_malloc_def)
  define sc where "sc = unat i"
  obtain w1 where f: "(if Size (w_flist w ! sc) = 0 then fill_cache sc w else Inr w) = Inr w1" "w_rgs w' = w_rgs w1"
  proof (cases "if Size (w_flist w ! sc) = 0 then fill_cache sc w else Inr w")
    case (Inl e)
    then show ?thesis using assms False a i by (simp add: do_malloc_def Let_def sc_def split: if_split_asm)
  next
    case (Inr w1)
    then have "w_rgs w' = w_rgs w1" using assms False a i
      by (auto simp: do_malloc_def Let_def set_flist_def simp flip: sc_def split: if_split_asm)
    then show ?thesis using that Inr by blast
  qed
  show ?thesis
  proof (cases "Size (w_flist w ! sc) = 0")
    case True
    then obtain n w2 where p: "malloc_from_partial RETRY_FUEL sc w 0 = Inr (n, w2)" "n = 0 \<longrightarrow> (\<exists>m. malloc_from_newsb sc w2 n = Inr (m, w1))" "n \<noteq> 0 \<longrightarrow> w1 = w2"
      using f(1) by (auto simp: fill_cache_def split: if_splits)
    have r2: "w_rgs w2 = w_rgs w" by (rule malloc_from_partial_rgs [OF p(1)])
    show ?thesis
    proof (cases "n = 0")
      case True
      then show ?thesis using p(2) malloc_from_newsb_grown [of sc w2 n _ w1] r2 f(2) by auto
    next
      case False
      then show ?thesis using p(3) r2 f(2) by simp
    qed
  next
    case False
    then show ?thesis using f by simp
  qed
qed

lemma flush_step_rgs: "flush_step sc w = Inr w' \<Longrightarrow> w_rgs w' = w_rgs w"
  by (auto simp: flush_step_def Let_def set_flist_def upd_desc_def split: prod.splits if_splits dest!: keep_rgs)

lemma flush_loop_rgs: "flush_loop fuel sc w = Inr w' \<Longrightarrow> w_rgs w' = w_rgs w"
  by (induction fuel arbitrary: w) (fastforce split: if_splits dest: flush_step_rgs)+

lemma do_free_rgs: "do_free w p = Inr w' \<Longrightarrow> w_rgs w' = w_rgs w"
  by (auto simp: do_free_def Let_def large_sb_retire_def set_flist_def flush_cache_def case_prod_unfold
      split: if_split_asm dest!: organize_sb_list_rgs flush_loop_rgs)


end
