(* ===== verification/Bx_ApiProps.thy ===== *)
theory Bx_ApiProps
  imports Bx_ApiRegions
begin

text \<open>
  The public interface: initialisation establishes the invariants of both allocators, and requests
  and releases reach the allocator that owns the block.
\<close>

section \<open>The invariant of the interface\<close>

text \<open>
  The buddy allocator's arena is the region of the large blocks, and the mapping of the superblock
  region does not meet it.
\<close>

definition large_ok :: "arena \<Rightarrow> regions \<Rightarrow> bool" where
  "large_ok A R \<longleftrightarrow> Regions_lookup R LAR_SB_IDX = ar_start A
     \<and> (\<exists>r. rgs R ! idx_no LAR_SB_IDX = Some r \<and> curr_addr r = unit_addr A (ar_units A))
     \<and> unat (base_addr (sb_region R)) \<le> unat (Regions_lookup R SB_IDX)
     \<and> (unat (unit_addr A (ar_units A)) \<le> unat (base_addr (sb_region R))
        \<or> unat (base_addr (sb_region R)) + unat (FILESIZE (sb_region R)) \<le> unat (ar_start A))"

definition api_inv :: "arena \<Rightarrow> 'm heap_state \<Rightarrow> (u64 \<times> u64) set \<Rightarrow> tiles \<Rightarrow> bool" where
  "api_inv A s H lv \<longleftrightarrow> hs_initialized s \<and> client (hs_world s) H \<and> buddy_inv A (the_buddy s) lv \<and> large_ok A (w_rgs (hs_world s))"

lemma large_ok_other:
  assumes "large_ok A R" "other_regions R R'" "regions_address R' = regions_address R"
  shows "large_ok A R'"
  using assms by (simp add: large_ok_def other_regions_def Regions_lookup_def)

lemma buddy_inv_arena: "buddy_inv A w lv \<Longrightarrow> arena_ok A"
  by (auto simp: buddy_inv_def binv_def)

lemma buddy_inv_rgs: "buddy_inv A \<lparr>bw_buddy = B, bw_hdr = H, bw_rgs = R\<rparr> lv = buddy_inv A \<lparr>bw_buddy = B, bw_hdr = H, bw_rgs = R'\<rparr> lv"
  by (simp add: buddy_inv_def)

lemma the_buddy_world: "buddy_inv A (the_buddy (s\<lparr>hs_world := w\<rparr>)) lv = buddy_inv A (the_buddy s) lv"
  by (simp add: the_buddy_def buddy_inv_def)

lemma the_buddy_put: "bw_rgs b = w_rgs (hs_world s) \<Longrightarrow> the_buddy (put_buddy b s) = b"
  by (simp add: the_buddy_def put_buddy_def)

lemma put_buddy_world: "bw_rgs b = w_rgs (hs_world s) \<Longrightarrow> hs_world (put_buddy b s) = hs_world s"
  by (simp add: put_buddy_def)

lemma client_regions:
  assumes "client w H"
  shows "length (rgs (w_rgs w)) = LAST_IDX" "region_ok (sb_region (w_rgs w))"
proof -
  obtain g where "client_inv w g H" using client_inv_reach [OF assms] by blast
  then have "geom (w_rgs w)" by (simp add: client_inv_def heap_inv_def)
  then show "length (rgs (w_rgs w)) = LAST_IDX" "region_ok (sb_region (w_rgs w))" by (simp_all add: geom_def)
qed

text \<open>A held small block lies in the mapping of the superblock region, a large one in the arena.\<close>

lemma small_in_mapping:
  assumes "api_inv A s H lv" "(p, sz) \<in> H"
  defines "r \<equiv> sb_region (w_rgs (hs_world s))"
  shows "unat (base_addr r) < unat p" "unat p + unat sz \<le> unat (base_addr r) + unat (FILESIZE r)" "0 < unat sz \<Longrightarrow> unat p < unat (base_addr r) + unat (FILESIZE r)"
proof -
  have c: "client (hs_world s) H" and l: "unat (base_addr r) \<le> unat (Regions_lookup (w_rgs (hs_world s)) SB_IDX)"
    using assms(1) by (simp_all add: api_inv_def large_ok_def r_def)
  obtain g where g: "client_inv (hs_world s) g H" using client_inv_reach [OF c] by blast
  note h = holds_range [OF client_heldD(1,2) [OF g assms(2)]]
  show "unat (base_addr r) < unat p" using l h(1) by simp
  show 2: "unat p + unat sz \<le> unat (base_addr r) + unat (FILESIZE r)"
    using client_regions(2) [OF c] h(2) by (auto simp: region_ok_def r_def)
  show "unat p < unat (base_addr r) + unat (FILESIZE r)" if "0 < unat sz" using 2 that by simp
qed

lemma large_in_arena:
  assumes "api_inv A s H lv" "(x, k) \<in> used A (hs_hdr s) lv"
  shows "unat (unit_addr A x) = unat (ar_start A) + x * 2 ^ ar_shift A" "(x + 2 ^ k) * 2 ^ ar_shift A \<le> ar_units A * 2 ^ ar_shift A"
    "unat (unit_addr A (ar_units A)) = unat (ar_start A) + ar_units A * 2 ^ ar_shift A" "16 < (2 :: nat) ^ (ar_shift A + k)"
    "unat (unit_addr A x + HEADER_BYTES) = unat (unit_addr A x) + 16"
proof -
  have i: "buddy_inv A (the_buddy s) lv" using assms(1) by (simp add: api_inv_def)
  note ok = buddy_inv_arena [OF i]
  obtain fl where b: "binv A (hs_hdr s) (FreeList (hs_buddy s)) lv fl {}" using i by (auto simp: buddy_inv_def the_buddy_def)
  have x: "x + 2 ^ k \<le> ar_units A" using tilingD(3) [OF binvD(2) [OF b]] assms(2) by (auto simp: used_def)
  then have "x \<le> ar_units A" by (meson le_add1 le_trans)
  then show u: "unat (unit_addr A x) = unat (ar_start A) + x * 2 ^ ar_shift A" by (rule unat_unit_addr [OF ok])
  show m: "(x + 2 ^ k) * 2 ^ ar_shift A \<le> ar_units A * 2 ^ ar_shift A" using x by (rule mult_le_mono1)
  show "unat (unit_addr A (ar_units A)) = unat (ar_start A) + ar_units A * 2 ^ ar_shift A" by (rule unat_unit_addr [OF ok order_refl])
  have "(2 :: nat) ^ 5 \<le> 2 ^ (ar_shift A + k)" using ok by (intro power_increasing) (simp_all add: arena_ok_def)
  then show k: "16 < (2 :: nat) ^ (ar_shift A + k)" by (rule order.strict_trans2 [rotated]) simp
  have "unat (unit_addr A x) + 16 < 2 ^ 64" using u m k ok unfolding arena_ok_def add_mult_distrib power_add mult.commute [of "2 ^ ar_shift A"] by linarith
  then show "unat (unit_addr A x + HEADER_BYTES) = unat (unit_addr A x) + 16"
    unfolding HEADER_BYTES_def by (subst unat_add_lt) simp_all
qed

section \<open>A new heap\<close>

definition large_arena :: "layout \<Rightarrow> arena" where
  "large_arena lo = \<lparr>ar_start = lo_addr lo LAR_SB_IDX + 4096, ar_shift = 17, ar_levels = 14, ar_units = 8192\<rparr>"

text \<open>The mappings of the superblocks and of the large blocks do not overlap.\<close>

definition mapped_apart :: "layout \<Rightarrow> u64 \<Rightarrow> bool" where
  "mapped_apart lo sz \<longleftrightarrow>
     unat (lo_addr lo LAR_SB_IDX) + 2 ^ 30 + 8192 \<le> unat (lo_addr lo SB_IDX)
     \<or> unat (lo_addr lo SB_IDX) + unat sz + 8192 \<le> unat (lo_addr lo LAR_SB_IDX)"

lemma large_arena_ok:
  assumes "fresh_layout lo"
  shows "arena_ok (large_arena lo)" "unat (ar_start (large_arena lo)) = unat (lo_addr lo LAR_SB_IDX) + 4096"
    "unat (unit_addr (large_arena lo) 8192) = unat (lo_addr lo LAR_SB_IDX) + 4096 + 2 ^ 30"
proof -
  note f = fresh_layoutD [OF assms, of LAR_SB_IDX]
  have u: "unat (lo_addr lo LAR_SB_IDX + 4096) = unat (lo_addr lo LAR_SB_IDX) + 4096" using f(4) by (subst unat_add_lt) simp_all
  then have "lo_addr lo LAR_SB_IDX + 4096 \<noteq> 0" by (intro notI) simp
  then show ok: "arena_ok (large_arena lo)" using f(4) u by (simp add: arena_ok_def large_arena_def)
  show "unat (ar_start (large_arena lo)) = unat (lo_addr lo LAR_SB_IDX) + 4096" by (simp add: large_arena_def u)
  then show "unat (unit_addr (large_arena lo) 8192) = unat (lo_addr lo LAR_SB_IDX) + 4096 + 2 ^ 30"
    using unat_unit_addr [OF ok, of 8192] by (simp add: large_arena_def)
qed

lemma mapped_region_ok:
  assumes "unat addr < 2 ^ 46" "unat fs < 2 ^ 41" "4096 \<le> unat fs"
  defines "r \<equiv> map_persistent_region fs True addr"
  shows "region_ok r" "unat (curr_addr r) = unat addr + 4096" "unat (sb_start r) < unat addr + 4096 + 65536"
proof -
  have u: "unat (addr + 4096) = unat addr + 4096" using assms(1) by (subst unat_add_lt) simp_all
  have c: "curr_addr r = addr + 4096"
    using assms(1) u by (simp add: r_def curr_addr_def map_persistent_region_def PAGESIZE_def atomic_pptr_load_def atomic_pptr_store_def canonical_def)
  then show "unat (curr_addr r) = unat addr + 4096" by (simp add: u)
  show "region_ok r" unfolding region_ok_def c u using assms(1-3) by (simp add: r_def map_persistent_region_def PAGESIZE_def)
  have "unat (addr + 4096) < 2 ^ 48" using assms(1) u by simp
  from align_up_spec(3) [OF this, of 16] show "unat (sb_start r) < unat addr + 4096 + 65536" by (simp add: sb_start_def c u)
qed

lemma fresh_table:
  assumes "fresh_layout lo" "sized sz" "w_flist w = ThreadCache_init myclasssize" "w_queue w = ArrayQueue_new QUEUE_CAP"
    "rgs (w_rgs w) = [rd, Some (map_persistent_region (file_size_for (sz div SBSIZE * SBSIZE)) True (lo_addr lo SB_IDX)), rl, rq, rm]"
    "regions_address (w_rgs w) = [lo_addr lo DESC_IDX + 4096, b, c, d, lo_addr lo META_IDX + 4096]"
  shows "fresh_world w" "warm_up_fits w"
proof -
  let ?fs = "file_size_for (sz div SBSIZE * SBSIZE)"
  let ?r = "map_persistent_region ?fs True (lo_addr lo SB_IDX)"
  note f = fresh_layoutD [OF assms(1)] and s = sizedD [OF assms(2)]
  have sb: "sb_region (w_rgs w) = ?r" by (simp add: sb_region_def assms(5))
  have fs: "unat ?fs \<le> 2 ^ 40" "unat ?fs < 2 ^ 41" "4096 \<le> unat ?fs" "2 ^ 30 + 65536 + 8192 \<le> unat ?fs" using s(4-6) by simp_all
  note m = mapped_region_ok [OF f(4) [of SB_IDX] fs(2,3)]
  have u: "unat (lo_addr lo i + 4096) = unat (lo_addr lo i) + 4096" for i using f(4) [of i] by (subst unat_add_lt) simp_all
  have "(unat (lo_addr lo DESC_IDX) + 4096) mod 64 = 0" using f(6) [of DESC_IDX] by presburger
  then show "fresh_world w" unfolding fresh_world_def Let_def sb using m(1) fs(1) f(4) [of DESC_IDX] f(4) [of META_IDX] assms(3-6)
    by (simp add: LAST_IDX_def Regions_lookup_def u) (simp add: map_persistent_region_def)
  show "warm_up_fits w" unfolding warm_up_fits_def Let_def sb using m(3) fs(4) by (simp add: map_persistent_region_def)
qed

lemma init_meta_fresh:
  assumes "fresh_layout lo" "sized sz" "w_flist w = ThreadCache_init myclasssize" "w_queue w = ArrayQueue_new QUEUE_CAP" "new_mutex P m = Inr m'"
    "w_rgs w = \<lparr>rgs = [rd, Some (map_persistent_region (file_size_for (sz div SBSIZE * SBSIZE)) True (lo_addr lo SB_IDX)), rl, rq, None],
        regions_address = [lo_addr lo DESC_IDX + 4096, b, c, d, 0], cur_idx = 4\<rparr>"
  shows "\<exists>rm w0 w'. init_meta P lo (w, m) = Inr (w', m') \<and> \<not> exhausted w' \<and> fresh_world w0 \<and> BaseMeta_new w0 = Inr w' \<and> other_regions (w_rgs w0) (w_rgs w')
    \<and> Regions_lookup (w_rgs w') SB_IDX = sb_start (sb_region (w_rgs w0)) \<and> rgs (w_rgs w0) = (rgs (w_rgs w))[4 := rm]
    \<and> regions_address (w_rgs w0) = (regions_address (w_rgs w))[4 := lo_addr lo META_IDX + 4096] \<and> w_roots w' = replicate MAX_ROOTS 0"
proof -
  let ?t = "lo_addr lo META_IDX + 4096"
  have "0 < unat (lo_meta_size lo)" "unat (lo_meta_size lo) < 2 ^ 40" using assms(1) by (simp_all add: fresh_layout_def)
  then obtain rm where rm: "RegionManager_new None (lo_addr lo META_IDX) (lo_meta_size lo) True True = Inr rm" "fetch_heap_start rm = ?t"
    using RegionManager_new_fresh [OF _ _ fresh_layoutD(5,6) [OF assms(1)], of "lo_meta_size lo" META_IDX True] by auto
  define w5 where "w5 = w\<lparr>w_rgs := (w_rgs w)\<lparr>rgs := (rgs (w_rgs w))[4 := Some rm]\<rparr>\<rparr>"
  define w0 where "w0 = world_at ?t 5 w5"
  have len: "length (rgs (w_rgs w0)) = LAST_IDX" using assms(6) by (simp add: w0_def w5_def LAST_IDX_def)
  have r0: "rgs (w_rgs w0) = (rgs (w_rgs w))[4 := Some rm]" "regions_address (w_rgs w0) = (regions_address (w_rgs w))[4 := ?t]"
    by (simp_all add: w0_def w5_def at_meta_def)
  have fw: "fresh_world w0" "warm_up_fits w0"
    using assms(3,4) r0 by (intro fresh_table [OF assms(1,2)]; simp add: assms(6) w0_def w5_def)+
  then obtain w' where w': "BaseMeta_new w0 = Inr w'" "Regions_lookup (w_rgs w') SB_IDX = sb_start (sb_region (w_rgs w0))"
      "set (queue_abs QUEUE_CAP (w_queue w')) = of_nat ` {1..<16384}" "w_roots w' = replicate MAX_ROOTS 0"
    using BaseMeta_new_spec [OF fw(1)] by auto
  have "queue_abs QUEUE_CAP (w_queue w') \<noteq> []" using w'(3) by (intro notI) simp
  then have ne: "\<not> exhausted w'" by (simp add: exhausted_def)
  obtain w6 where w6: "BaseMeta_new w5 = Inr w6" "w' = world_at ?t 5 w6"
    using w'(1) BaseMeta_new_meta [of ?t 5 w5] by (cases "BaseMeta_new w5") (auto simp: w0_def)
  have e5: "w\<lparr>w_rgs := (w_rgs w)\<lparr>rgs := (rgs (w_rgs w))[4 := Some rm], regions_address := regions_address (w_rgs w), cur_idx := 4\<rparr>\<rparr> = w5"
    using assms(6) by (simp add: w5_def)
  have "Regions_create_for (w_rgs w) (lo_file lo META_IDX) (lo_addr lo META_IDX) (lo_meta_size lo) True =
      Inr (?t, True, (w_rgs w)\<lparr>rgs := (rgs (w_rgs w))[4 := Some rm], regions_address := (regions_address (w_rgs w))[4 := ?t], cur_idx := 5\<rparr>)"
    using rm fresh_layoutD(1) [OF assms(1)] assms(6) by (simp add: Regions_create_for_def LAST_IDX_def Let_def)
  then have "init_meta P lo (w, m) = Inr (w', m')"
    using assms(5,6) w6 e5 by (simp add: init_meta_def Let_def at_meta_def)
  then show ?thesis using fw(1) w'(1,2,4) ne BaseMeta_new_other [OF w'(1) len] r0
    by (intro exI [of _ "Some rm"] exI [of _ w0] exI [of _ w']) simp
qed

lemma init_buddy_fresh:
  assumes "fresh_layout lo" "rgs R ! idx_no LAR_SB_IDX = Some rl" "Regions_lookup R LAR_SB_IDX = lo_addr lo LAR_SB_IDX + 4096"
    "curr_addr rl = unit_addr (large_arena lo) 8192"
  shows "\<exists>B H'. init_buddy lo R H = Inr (B, H') \<and> buddy_inv (large_arena lo) \<lparr>bw_buddy = B, bw_hdr = H', bw_rgs = R\<rparr> (max_tiles (large_arena lo))
    \<and> used (large_arena lo) H' (max_tiles (large_arena lo)) = {}"
proof -
  let ?A = "large_arena lo"
  have "curr_addr rl - Regions_lookup R LAR_SB_IDX = 2 ^ 30" unfolding assms(3,4) by (simp add: large_arena_def unit_addr_def)
  then have "to_int (uint (curr_addr rl - Regions_lookup R LAR_SB_IDX)) = 2 ^ 30" by (simp add: to_int_def)
  then have "init_buddy lo R H = BuddyAllocator_new (lo_junk lo) H (ar_start ?A) (2 ^ 17) (2 ^ 30) (2 ^ 30) False"
    using assms(2,3) fresh_layoutD(1) [OF assms(1)]
    by (simp add: init_buddy_def Let_def initBuddyAllocator_def BuddyManager_def MIN_SB_REGION_SIZE_def large_arena_def)
  then show ?thesis using BuddyAllocator_fresh [OF large_arena_ok(1) [OF assms(1)], of "lo_junk lo" H R] by (auto simp: large_arena_def)
qed

text \<open>What one first call of \<open>BXP_init\<close> establishes.\<close>

lemma init_fresh:
  assumes "fresh_layout lo" "sized sz" "mapped_apart lo sz" "w_flist (hs_world s) = ThreadCache_init myclasssize" "new_mutex P (hs_mtx s) = Inr m"
  defines "A \<equiv> large_arena lo"
  shows "\<exists>s'. BXP_init_body P lo sz s = Inr (0, s') \<and> api_inv A s' {} (max_tiles A) \<and> used A (hs_hdr s') (max_tiles A) = {} \<and> hs_mtx s' = m
    \<and> \<not> exhausted (hs_world s') \<and> w_roots (hs_world s') = replicate MAX_ROOTS 0"
proof -
  let ?a = "lo_addr lo" and ?w = "hs_world s"
  note f = fresh_layoutD [OF assms(1)] and z = sizedD [OF assms(2)]
  let ?r = "map_persistent_region (file_size_for (sz div SBSIZE * SBSIZE)) True (?a SB_IDX)"
  obtain rd rl rq R1 R2 R3 R4 where R4: "R4 = \<lparr>rgs = [Some rd, Some ?r, Some rl, Some rq, None],
        regions_address = [?a DESC_IDX + 4096, 0, ?a LAR_SB_IDX + 4096, ?a QUEUE_IDX + 4096, 0], cur_idx = 4\<rparr>"
    and R: "init_desc lo (sz div SBSIZE) Regions_new = Inr R1" "init_sb lo (sz div SBSIZE) R1 = Inr R2"
      "init_large lo sz (sz div 2) R2 = Inr R3" "init_queue lo (w_queue ?w) R3 = Inr (ArrayQueue_new QUEUE_CAP, R4)"
    and rl: "unat (curr_addr rl) = unat (?a LAR_SB_IDX) + 4096 + 2 ^ 30"
    using init_regions_fresh [OF assms(1,2), of "w_queue ?w"] by auto
  define w4 where "w4 = ?w\<lparr>w_rgs := R4, w_queue := ArrayQueue_new QUEUE_CAP\<rparr>"
  have w4: "w_flist w4 = ThreadCache_init myclasssize" "w_queue w4 = ArrayQueue_new QUEUE_CAP" "w_rgs w4 = R4" using assms(4) by (simp_all add: w4_def)
  obtain rm w0 w' where m: "init_meta P lo (w4, hs_mtx s) = Inr (w', m)" "fresh_world w0" "BaseMeta_new w0 = Inr w'" "other_regions (w_rgs w0) (w_rgs w')"
      "Regions_lookup (w_rgs w') SB_IDX = sb_start (sb_region (w_rgs w0))" "rgs (w_rgs w0) = (rgs R4)[4 := rm]"
      "regions_address (w_rgs w0) = (regions_address R4)[4 := ?a META_IDX + 4096]" "\<not> exhausted w'" "w_roots w' = replicate MAX_ROOTS 0"
    using init_meta_fresh [OF assms(1,2) w4(1,2) assms(5) w4(3) [unfolded R4]] unfolding w4(3) by blast
  have sb: "sb_region (w_rgs w0) = ?r" by (simp add: sb_region_def m(6) R4)
  have o: "rgs (w_rgs w') ! 2 = Some rl" "regions_address (w_rgs w') ! 2 = ?a LAR_SB_IDX + 4096"
      "base_addr (sb_region (w_rgs w')) = ?a SB_IDX" "FILESIZE (sb_region (w_rgs w')) = file_size_for (sz div SBSIZE * SBSIZE)"
    using m(4,6,7) sb by (simp_all add: other_regions_def R4) (simp_all add: map_persistent_region_def)
  note ar = large_arena_ok [OF assms(1)]
  have cl: "curr_addr rl = unit_addr A 8192" using rl ar(3) by (simp add: A_def word_unat_eq_iff)
  obtain B H' where b: "init_buddy lo (w_rgs w') (hs_hdr s) = Inr (B, H')" "buddy_inv A \<lparr>bw_buddy = B, bw_hdr = H', bw_rgs = w_rgs w'\<rparr> (max_tiles A)"
      "used A H' (max_tiles A) = {}"
    using init_buddy_fresh [OF assms(1), of "w_rgs w'" rl "hs_hdr s"] o(1,2) cl by (auto simp: A_def Regions_lookup_def)
  define s' where "s' = s\<lparr>hs_initialized := True, hs_world := w', hs_mtx := m, hs_buddy := B, hs_hdr := H'\<rparr>"
  have "BXP_init_body P lo sz s = Inr (0, s')"
    using R m(1) b(1) z(7) assms(2) f(1) by (simp add: BXP_init_body_def assertE_def Let_def w4_def s'_def sized_def)
  moreover have "large_ok A (w_rgs w')"
  proof -
    have fs: "unat (file_size_for (sz div SBSIZE * SBSIZE)) \<le> unat sz + 8192" using z(6) by simp
    have "unat (?a SB_IDX) < unat (Regions_lookup (w_rgs w') SB_IDX)"
      unfolding m(5) using warm_up(4) [OF m(2)] sb by (simp add: map_persistent_region_def)
    moreover have "unat (unit_addr A 8192) \<le> unat (?a SB_IDX) \<or> unat (?a SB_IDX) + unat (file_size_for (sz div SBSIZE * SBSIZE)) \<le> unat (ar_start A)"
      using assms(3) ar(2,3) fs unfolding mapped_apart_def A_def by linarith
    moreover have "ar_units A = 8192" "ar_start A = ?a LAR_SB_IDX + 4096" by (simp_all add: A_def large_arena_def)
    ultimately show ?thesis unfolding large_ok_def o(3,4) using o(1,2) cl by (simp add: Regions_lookup_def)
  qed
  ultimately show ?thesis
    using client.start [OF m(2,3)] m(8,9) b(2,3) by (intro exI [of _ s']) (simp add: api_inv_def s'_def the_buddy_def)
qed

section \<open>Requests and releases\<close>

lemma client_sized: "client w H \<Longrightarrow> (p, sz) \<in> H \<Longrightarrow> 0 < sz"
  by (induction rule: client.induct) auto

lemma malloc_small:
  assumes "api_inv A s H lv" "0 < sz" "sz \<le> SBSIZE"
  shows "BXP_malloc s sz = Inl out_of_space \<and> exhausted (hs_world s)
    \<or> (\<exists>p w'. BXP_malloc s sz = Inr (p, s\<lparr>hs_world := w'\<rparr>) \<and> api_inv A (s\<lparr>hs_world := w'\<rparr>) (insert (p, sz) H) lv
         \<and> (\<forall>q t a. (q, t) \<in> H \<and> a - q < t \<longrightarrow> \<not> a - p < sz \<and> w_mem w' a = w_mem (hs_world s) a))"
proof -
  have i: "hs_initialized s" "client (hs_world s) H" "buddy_inv A (the_buddy s) lv" "large_ok A (w_rgs (hs_world s))"
    using assms(1) by (simp_all add: api_inv_def)
  have run: "BXP_malloc s sz = bindE (do_malloc (hs_world s) sz) (\<lambda>(p, w). Inr (p, s\<lparr>hs_world := w\<rparr>))"
    using i(1) assms(3) by (simp add: BXP_malloc_def assertE_def linorder_not_less [symmetric])
  from client_malloc_step [OF i(2) assms(2,3)] show ?thesis
  proof (elim disjE exE conjE)
    fix p w' assume m: "do_malloc (hs_world s) sz = Inr (p, w')" "client w' (insert (p, sz) H)"
      "\<forall>q t a. (q, t) \<in> H \<and> a - q < t \<longrightarrow> \<not> a - p < sz \<and> w_mem w' a = w_mem (hs_world s) a"
    have "large_ok A (w_rgs w')"
      using sb_grown_other [OF do_malloc_grown [OF m(1)] client_regions(1) [OF i(2)]] by (intro large_ok_other [OF i(4)])
    then have "api_inv A (s\<lparr>hs_world := w'\<rparr>) (insert (p, sz) H) lv" using i m(2) the_buddy_world [of A w' s] by (simp add: api_inv_def)
    then show ?thesis using m(1,3) run by (intro disjI2 exI [of _ p] exI [of _ w']) simp
  qed (simp add: run)
qed

lemma malloc_large:
  assumes "api_inv A s H lv" "SBSIZE < sz" "uint sz + 16 < 2 ^ 31" "fits A (the_buddy s) lv (uint sz) z m"
  shows "\<exists>x k s' lv'. BXP_malloc s sz = Inr (unit_addr A x + HEADER_BYTES, s') \<and> api_inv A s' H lv' \<and> hs_world s' = hs_world s
    \<and> used A (hs_hdr s') lv' = insert (x, k) (used A (hs_hdr s) lv) \<and> (\<forall>m. (x, m) \<notin> used A (hs_hdr s) lv) \<and> uint sz + 16 \<le> 2 ^ (ar_shift A + k)"
proof -
  have i: "hs_initialized s" "client (hs_world s) H" "buddy_inv A (the_buddy s) lv" "large_ok A (w_rgs (hs_world s))"
    using assms(1) by (simp_all add: api_inv_def)
  have "to_int (uint sz) = uint sz"
    unfolding to_int_def using assms(3) uint_ge_0 [of sz] by (intro signed_take_bit_int_eq_self) linarith+
  then have run: "BXP_malloc s sz = bindE (alloc_from (buddy_alloc (EXPAND_FUEL - 1) (uint sz)) (uint sz) (the_buddy s)) (\<lambda>(p, b). Inr (p, put_buddy b s))"
    using i(1) assms(2) by (simp add: BXP_malloc_def assertE_def balloc_unfold)
  from alloc_from_fits [OF i(3) _ assms(3,4), of "buddy_alloc (EXPAND_FUEL - 1) (uint sz)"] obtain x k b lv' where
    1: "alloc_from (buddy_alloc (EXPAND_FUEL - 1) (uint sz)) (uint sz) (the_buddy s) = Inr (unit_addr A x + HEADER_BYTES, b)" "buddy_inv A b lv'"
      "used A (bw_hdr b) lv' = insert (x, k) (used A (bw_hdr (the_buddy s)) lv)" "\<forall>m. (x, m) \<notin> used A (bw_hdr (the_buddy s)) lv"
      "uint sz + 16 \<le> 2 ^ (ar_shift A + k)" "bw_rgs b = bw_rgs (the_buddy s)" by auto
  have r: "bw_rgs b = w_rgs (hs_world s)" "bw_hdr (the_buddy s) = hs_hdr s" "hs_hdr (put_buddy b s) = bw_hdr b" "hs_initialized (put_buddy b s)"
    using 1(6) i(1) by (simp_all add: the_buddy_def put_buddy_def)
  then have "api_inv A (put_buddy b s) H lv'" using i 1(2) by (simp add: api_inv_def the_buddy_put put_buddy_world)
  then show ?thesis using 1 r run put_buddy_world [OF r(1)] by (intro exI [of _ x] exI [of _ k] exI [of _ "put_buddy b s"] exI [of _ lv']) simp
qed

text \<open>The test of \<open>BXP_free\<close> tells the two kinds of blocks apart.\<close>

lemma in_range_small:
  assumes "api_inv A s H lv" "(p, sz) \<in> H"
  shows "Regions_in_range (w_rgs (hs_world s)) LAR_SB_IDX p = Inr False"
proof -
  obtain r where l: "Regions_lookup (w_rgs (hs_world s)) LAR_SB_IDX = ar_start A" "rgs (w_rgs (hs_world s)) ! idx_no LAR_SB_IDX = Some r"
      "curr_addr r = unit_addr A (ar_units A)" and c: "client (hs_world s) H"
    using assms(1) by (auto simp: api_inv_def large_ok_def)
  have "0 < unat sz" using client_sized [OF c assms(2)] by (simp add: word_less_nat_alt)
  note m = small_in_mapping(1) [OF assms] small_in_mapping(3) [OF assms this]
  have "\<not> (unat (ar_start A) \<le> unat p \<and> unat p < unat (unit_addr A (ar_units A)))"
    using assms(1) m by (auto simp: api_inv_def large_ok_def)
  then show ?thesis using l by (auto simp: Regions_in_range_def Regions_lookup_def word_le_nat_alt word_less_nat_alt)
qed

lemma in_range_large:
  assumes "api_inv A s H lv" "(x, k) \<in> used A (hs_hdr s) lv"
  shows "Regions_in_range (w_rgs (hs_world s)) LAR_SB_IDX (unit_addr A x + HEADER_BYTES) = Inr True"
proof -
  obtain r where l: "Regions_lookup (w_rgs (hs_world s)) LAR_SB_IDX = ar_start A" "rgs (w_rgs (hs_world s)) ! idx_no LAR_SB_IDX = Some r"
      "curr_addr r = unit_addr A (ar_units A)"
    using assms(1) by (auto simp: api_inv_def large_ok_def)
  note a = large_in_arena [OF assms]
  have "16 < 2 ^ k * (2 :: nat) ^ ar_shift A" using a(4) by (simp add: power_add mult.commute)
  then have "unat (ar_start A) \<le> unat (unit_addr A x + HEADER_BYTES)" "unat (unit_addr A x + HEADER_BYTES) < unat (unit_addr A (ar_units A))"
    using a(1,2,3,5) unfolding add_mult_distrib by linarith+
  then show ?thesis using l by (simp add: Regions_in_range_def Regions_lookup_def word_le_nat_alt word_less_nat_alt)
qed

lemma free_small:
  assumes "api_inv A s H lv" "(p, sz) \<in> H"
  shows "MAX_SZ < sz \<and> BXP_free s p = Inl (AssertFailed ''queue is full!'') \<and> 79999 \<le> length (queue_abs QUEUE_CAP (w_queue (hs_world s)))
    \<or> (\<exists>w'. BXP_free s p = Inr (s\<lparr>hs_world := w'\<rparr>) \<and> api_inv A (s\<lparr>hs_world := w'\<rparr>) (H - {(p, sz)}) lv
         \<and> (\<forall>q t a. (q, t) \<in> H - {(p, sz)} \<and> a - q < t \<longrightarrow> w_mem w' a = w_mem (hs_world s) a))"
proof -
  have i: "hs_initialized s" "client (hs_world s) H" "buddy_inv A (the_buddy s) lv" "large_ok A (w_rgs (hs_world s))"
    using assms(1) by (simp_all add: api_inv_def)
  have run: "BXP_free s p = bindE (do_free (hs_world s) p) (\<lambda>w. Inr (s\<lparr>hs_world := w\<rparr>))"
    using i(1) in_range_small [OF assms] by (simp add: BXP_free_def assertE_def)
  from client_free_step [OF i(2) assms(2)] show ?thesis
  proof (elim disjE exE conjE)
    fix w' assume m: "do_free (hs_world s) p = Inr w'" "client w' (H - {(p, sz)})"
      "\<forall>q t a. (q, t) \<in> H - {(p, sz)} \<and> a - q < t \<longrightarrow> w_mem w' a = w_mem (hs_world s) a"
    have "api_inv A (s\<lparr>hs_world := w'\<rparr>) (H - {(p, sz)}) lv"
      using i m(2) do_free_rgs [OF m(1)] the_buddy_world [of A w' s] by (simp add: api_inv_def)
    then show ?thesis using m(1,3) run by (intro disjI2 exI [of _ w']) simp
  qed (simp add: run)
qed

lemma free_large:
  assumes "api_inv A s H lv" "(x, k) \<in> used A (hs_hdr s) lv" "free_clean A (the_buddy s) lv x k"
  shows "\<exists>s' lv'. BXP_free s (unit_addr A x + HEADER_BYTES) = Inr s' \<and> api_inv A s' H lv' \<and> hs_world s' = hs_world s
    \<and> used A (hs_hdr s') lv' = used A (hs_hdr s) lv - {(x, k)}"
proof -
  have i: "hs_initialized s" "client (hs_world s) H" "buddy_inv A (the_buddy s) lv" "large_ok A (w_rgs (hs_world s))"
    using assms(1) by (simp_all add: api_inv_def)
  have run: "BXP_free s (unit_addr A x + HEADER_BYTES) = bindE (buddy_free (the_buddy s) (unit_addr A x + HEADER_BYTES)) (\<lambda>b. Inr (put_buddy b s))"
    using i(1) in_range_large [OF assms(1,2)] by (simp add: BXP_free_def assertE_def bfree_def)
  have h: "bw_hdr (the_buddy s) = hs_hdr s" by (simp add: the_buddy_def)
  obtain b lv' where 1: "buddy_free (the_buddy s) (unit_addr A x + HEADER_BYTES) = Inr b" "buddy_inv A b lv'"
      "used A (bw_hdr b) lv' = used A (hs_hdr s) lv - {(x, k)}" "bw_rgs b = bw_rgs (the_buddy s)"
    using buddy_free_clean [OF i(3) _ assms(3)] assms(2) unfolding h by blast
  have r: "bw_rgs b = w_rgs (hs_world s)" "hs_hdr (put_buddy b s) = bw_hdr b" "hs_initialized (put_buddy b s)"
    using 1(4) i(1) by (simp_all add: the_buddy_def put_buddy_def)
  then have "api_inv A (put_buddy b s) H lv'" using i 1(2) by (simp add: api_inv_def the_buddy_put put_buddy_world)
  then show ?thesis using 1 r run put_buddy_world [OF r(1)] by (intro exI [of _ "put_buddy b s"] exI [of _ lv']) simp
qed


text \<open>A client may fill a block it holds.\<close>

lemma client_fill:
  assumes "client w H" "(p, sz) \<in> H" "\<And>a. m a \<noteq> w_mem w a \<Longrightarrow> a - p < sz"
  shows "client (w\<lparr>w_mem := m\<rparr>) H"
proof -
  define D where "D = {a. m a \<noteq> w_mem w a}"
  have "client (w\<lparr>w_mem := \<lambda>a. if a \<in> S then m a else w_mem w a\<rparr>) H" if "S \<subseteq> D" for S
    using finite that
  proof (induction S rule: finite_induct)
    case empty
    then show ?case using assms(1) by simp
  next
    case (insert x S)
    then have "x - p < sz" using assms(3) by (auto simp: D_def)
    then have "client (w\<lparr>w_mem := (\<lambda>a. if a \<in> S then m a else w_mem w a)(x := m x)\<rparr>) H"
      using client.store [OF insert.IH assms(2), of x "m x"] insert.prems by simp
    moreover have "(\<lambda>a. if a \<in> S then m a else w_mem w a)(x := m x) = (\<lambda>a. if a \<in> insert x S then m a else w_mem w a)" by auto
    ultimately show ?case by simp
  qed
  from this [OF order_refl] have "client (w\<lparr>w_mem := \<lambda>a. if a \<in> D then m a else w_mem w a\<rparr>) H" .
  moreover have "(\<lambda>a. if a \<in> D then m a else w_mem w a) = m" by (auto simp: D_def)
  ultimately show ?thesis by simp
qed

lemma malloc_size_held:
  assumes "api_inv A s H lv" "(p, sz) \<in> H"
  shows "sz \<le> BXP_malloc_size s p" "MAX_SZ < sz \<Longrightarrow> BXP_malloc_size s p = SBSIZE" "p \<noteq> 0" "Regions_in_range (w_rgs (hs_world s)) SB_IDX p = Inr True"
    "sz \<le> MAX_SZ \<Longrightarrow> BXP_malloc_size s p < SBSIZE"
proof -
  let ?w = "hs_world s"
  have "client ?w H" using assms(1) by (simp add: api_inv_def)
  then obtain g where g: "client_inv ?w g H" using client_inv_reach by blast
  note h = client_heldD [OF g assms(2)]
  obtain k c where k: "g_owner g k = Some c" "p \<in> sb_blocks (w_rgs ?w) k c" "c \<le> NLIST"
    "desc_lookup (w_rgs ?w) p = desc_addr (w_rgs ?w) k" "p \<noteq> 0" "Regions_in_range (w_rgs ?w) SB_IDX p = Inr True"
    using liveD [OF h(1,3)] by metis
  then show "p \<noteq> 0" "Regions_in_range (w_rgs ?w) SB_IDX p = Inr True" by simp_all
  note hc = holds_class [OF h(1,2) k(1,2)]
  have b: "unat (block_size (w_desc ?w (desc_addr (w_rgs ?w) k))) = cls_size c" using descD(1) [OF h(1) k(1)] by (simp add: desc_ok_def)
  then have "unat (block_size (w_desc ?w (desc_addr (w_rgs ?w) k))) < 2 ^ LENGTH(64)" using cls_size_bounds(2) [of c] by simp
  from unat_ucast_lt [OF this] have ms: "unat (BXP_malloc_size s p) = cls_size c" by (simp add: BXP_malloc_size_def Let_def k(4) b)
  then show "BXP_malloc_size s p < SBSIZE" if "sz \<le> MAX_SZ" using that hc(2) cls_size_small [of c] by (simp add: word_less_nat_alt SBSIZE_eq)
  show "sz \<le> BXP_malloc_size s p" using ms hc(1) by (simp add: word_le_nat_alt)
  show "BXP_malloc_size s p = SBSIZE" if "MAX_SZ < sz"
  proof -
    have "\<not> c < NLIST" using that hc(1) cls_size_small [of c] by (auto simp: word_less_nat_alt MAX_SZ_eq)
    then have "c = NLIST" using k(3) by simp
    then show ?thesis using ms by (simp add: word_unat_eq_iff SBSIZE_eq)
  qed
qed

lemma realloc_grows:
  assumes "api_inv A s H lv" "(p, old) \<in> H" "BXP_malloc_size s p < new" "new \<le> SBSIZE"
  shows "BXP_realloc s p new = Inl out_of_space \<and> exhausted (hs_world s)
    \<or> (\<exists>q w'. BXP_realloc s p new = Inr (q, s\<lparr>hs_world := w'\<rparr>) \<and> api_inv A (s\<lparr>hs_world := w'\<rparr>) (insert (q, new) (H - {(p, old)})) lv
         \<and> (\<forall>i<old. w_mem w' (q + i) = w_mem (hs_world s) (p + i))
         \<and> (\<forall>r t a. (r, t) \<in> H - {(p, old)} \<and> a - r < t \<longrightarrow> w_mem w' a = w_mem (hs_world s) a))"
proof -
  note h = malloc_size_held [OF assms(1,2)]
  let ?n = "BXP_malloc_size s p"
  have pos: "0 < new" using assms(3) by (rule le_less_trans [rotated]) simp
  have notbig: "\<not> MAX_SZ < old" using h(2) assms(3,4) by auto
  have run: "BXP_realloc s p new = bindE (BXP_malloc s new) (\<lambda>(new_ptr, s1).
      if new_ptr = 0 then Inr (0, s1)
      else let w = hs_world s1; s1 = s1\<lparr>hs_world := w\<lparr>w_mem := memcpy (w_mem w) new_ptr p ?n\<rparr>\<rparr> in
        bindE (BXP_free s1 p) (\<lambda>s2. Inr (new_ptr, s2)))"
    using h(3,4) less_imp_neq [OF assms(3)] unfolding BXP_realloc_def by (simp add: Let_def [of ?n])
  from malloc_small [OF assms(1) pos assms(4)] show ?thesis
  proof (elim disjE exE conjE)
    fix q w1 assume m: "BXP_malloc s new = Inr (q, s\<lparr>hs_world := w1\<rparr>)" "api_inv A (s\<lparr>hs_world := w1\<rparr>) (insert (q, new) H) lv"
      "\<forall>r t a. (r, t) \<in> H \<and> a - r < t \<longrightarrow> \<not> a - q < new \<and> w_mem w1 a = w_mem (hs_world s) a"
    define w2 where "w2 = w1\<lparr>w_mem := memcpy (w_mem w1) q p ?n\<rparr>"
    have cp: "a - q < new" if "memcpy (w_mem w1) q p ?n a \<noteq> w_mem w1 a" for a
      using that assms(3) by (auto simp: memcpy_def split: if_splits)
    have c1: "client w1 (insert (q, new) H)" using m(2) by (simp add: api_inv_def)
    have "client w2 (insert (q, new) H)"
      unfolding w2_def by (rule client_fill [OF c1, of q new]) (simp_all add: cp)
    then have i2: "api_inv A (s\<lparr>hs_world := w2\<rparr>) (insert (q, new) H) lv"
      using m(2) the_buddy_world [of A w1 s] the_buddy_world [of A w2 s] by (simp add: api_inv_def w2_def)
    have q0: "q \<noteq> 0" using malloc_size_held(3) [OF m(2), of q new] by simp
    have pH: "0 < old" using client_sized [OF _ assms(2)] assms(1) by (auto simp: api_inv_def)
    have "(p, old) \<noteq> (q, new)" using m(3) assms(2) pH pos by (metis diff_self prod.inject)
    then have H': "insert (q, new) H - {(p, old)} = insert (q, new) (H - {(p, old)})" by auto
    obtain w' where f: "BXP_free (s\<lparr>hs_world := w2\<rparr>) p = Inr (s\<lparr>hs_world := w'\<rparr>)" "api_inv A (s\<lparr>hs_world := w'\<rparr>) (insert (q, new) (H - {(p, old)})) lv"
        "\<forall>r t a. (r, t) \<in> insert (q, new) (H - {(p, old)}) \<and> a - r < t \<longrightarrow> w_mem w' a = w_mem w2 a"
      using free_small [OF i2, of p old] notbig assms(2) unfolding H' by auto
    have "BXP_realloc s p new = Inr (q, s\<lparr>hs_world := w'\<rparr>)" using run m(1) q0 f(1) by (simp add: Let_def w2_def)
    moreover have "w_mem w' (q + i) = w_mem (hs_world s) (p + i)" if i: "i < old" for i
    proof -
      have "i < ?n" "i < new" using i h(1) assms(3) by auto
      then have "w_mem w' (q + i) = w_mem w1 (p + i)" using f(3) [rule_format, of q new "q + i"] by (simp add: w2_def memcpy_def)
      also have "\<dots> = w_mem (hs_world s) (p + i)" using m(3) [rule_format, of p old "p + i"] assms(2) i by simp
      finally show ?thesis .
    qed
    moreover have "w_mem w' a = w_mem (hs_world s) a" if "(r, t) \<in> H - {(p, old)}" "a - r < t" for r t a
    proof -
      have "\<not> a - q < ?n" "w_mem w1 a = w_mem (hs_world s) a" using m(3) that assms(3) by (auto dest: less_trans)
      then show ?thesis using f(3) [rule_format, of r t a] that by (simp add: w2_def memcpy_def)
    qed
    ultimately show ?thesis using f(2) by blast
  qed (simp add: run)
qed


section \<open>A sample heap\<close>

definition sample_layout :: layout where
  "sample_layout = \<lparr>lo_file = \<lambda>_. None, lo_addr = \<lambda>i. 0x80000000000 * of_nat (idx_no i + 1),
     lo_queue_size = 0x100000, lo_meta_size = 0x10000, lo_junk = 0\<rparr>"

definition sample_start :: "lock_state heap_state" where
  "sample_start = \<lparr>hs_initialized = False, hs_holder = None, hs_world = sample_world, hs_buddy = bw_buddy buddy_one, hs_hdr = no_headers,
     hs_mtx = Free, hs_filter = replicate MAX_ROOTS False\<rparr>"

lemma sample_fresh_layout:
  "fresh_layout sample_layout" "sized 0x80000000" "mapped_apart sample_layout 0x80000000"
  "w_flist (hs_world sample_start) = ThreadCache_init myclasssize" "new_mutex sample_pthread (hs_mtx sample_start) = Inr Held"
proof -
  have a: "unat (lo_addr sample_layout i) = 0x80000000000 * (idx_no i + 1)" for i by (cases i) (simp_all add: sample_layout_def)
  have "lo_file sample_layout i = None \<and> unat (lo_addr sample_layout i) mod 4096 = 0 \<and> 0 < unat (lo_addr sample_layout i) \<and> unat (lo_addr sample_layout i) < 2 ^ 46" for i
    unfolding a by (cases i) (simp_all add: sample_layout_def)
  then show "fresh_layout sample_layout" by (simp add: fresh_layout_def) (simp add: sample_layout_def)
  show "mapped_apart sample_layout 0x80000000" unfolding mapped_apart_def a by simp
qed (simp_all add: sized_def MAX_SB_REGION_SIZE_def SBSIZE_eq MAX_DESC_AMOUNT_BITS_def sample_start_def sample_world_def new_mutex_def set_dirty_def sample_pthread_def)

lemma sample_api:
  obtains s where "api_inv (large_arena sample_layout) (s :: lock_state heap_state) {} (max_tiles (large_arena sample_layout))"
    "used (large_arena sample_layout) (hs_hdr s) (max_tiles (large_arena sample_layout)) = {}" "\<not> exhausted (hs_world s)"
  using init_fresh [OF sample_fresh_layout] by blast

lemma unused_free:
  assumes "lv x = Some k" "(x, k) \<notin> used A (hs_hdr s) lv"
  shows "block_free A (the_buddy s) x"
  using assms by (simp add: used_def the_buddy_def)


section \<open>Properties\<close>

text \<open>C6: The first \<open>BXP_init\<close> of a process, when none of the files exists, every region can be mapped
  on a page boundary below \<open>2^46\<close> and the size is at least a gigabyte and one superblock, returns
  0 and builds both allocators: the superblock allocator is in an initial state of its clients,
  and the buddy allocator satisfies its invariant on an arena of one free gigabyte that does not
  meet the superblock region.  A second \<open>BXP_init\<close>, of any size, changes nothing and returns 0.\<close>

theorem BXP_init_fresh:
  assumes "fresh_layout lo" "sized sz" "mapped_apart lo sz" "w_flist (hs_world s) = ThreadCache_init myclasssize"
    "new_mutex P (hs_mtx s) = Inr m" "hs_holder s = None"
  shows "\<exists>s'. BXP_init P lo sz s = Inr (0, s') \<and> api_inv (large_arena lo) s' {} (max_tiles (large_arena lo))
    \<and> used (large_arena lo) (hs_hdr s') (max_tiles (large_arena lo)) = {} \<and> hs_mtx s' = m \<and> BXP_init P lo' sz' s' = Inr (0, s')"
proof -
  obtain s1 where 1: "BXP_init_body P lo sz s = Inr (0, s1)" "api_inv (large_arena lo) s1 {} (max_tiles (large_arena lo))"
      "used (large_arena lo) (hs_hdr s1) (max_tiles (large_arena lo)) = {}" "hs_mtx s1 = m"
    using init_fresh [OF assms(1-5)] by blast
  have b: "the_buddy (s1\<lparr>hs_holder := Some 0\<rparr>) = the_buddy s1" by (simp add: the_buddy_def)
  show ?thesis using 1 assms(6) by (intro exI [of _ "s1\<lparr>hs_holder := Some 0\<rparr>"]) (simp add: BXP_init_def api_inv_def b)
qed

theorem BXP_init_fresh_witness:
  "\<exists>s'. BXP_init sample_pthread sample_layout 0x80000000 sample_start = Inr (0, s') \<and> client (hs_world s') {} \<and> hs_initialized s'"
proof -
  have "hs_holder sample_start = None" by (simp add: sample_start_def)
  from BXP_init_fresh [OF sample_fresh_layout this, of sample_layout 0] show ?thesis by (auto simp: api_inv_def)
qed







text \<open>C20: \<open>BXP_realloc\<close> of a held block to a larger size of up to \<open>SBSIZE\<close> bytes either reports that the
  space is used up or returns a new block that begins with the bytes of the old one, releases the
  old one and changes no byte of the other held blocks.\<close>

theorem BXP_realloc_grows:
  assumes "api_inv A s H lv" "(p, old) \<in> H" "BXP_malloc_size s p < new" "new \<le> SBSIZE"
  shows "BXP_realloc s p new = Inl out_of_space \<and> exhausted (hs_world s)
    \<or> (\<exists>q s'. BXP_realloc s p new = Inr (q, s') \<and> api_inv A s' (insert (q, new) (H - {(p, old)})) lv
         \<and> (\<forall>i<old. w_mem (hs_world s') (q + i) = w_mem (hs_world s) (p + i))
         \<and> (\<forall>r t a. (r, t) \<in> H - {(p, old)} \<and> a - r < t \<longrightarrow> w_mem (hs_world s') a = w_mem (hs_world s) a))"
proof -
  have u: "hs_world (s\<lparr>hs_world := w'\<rparr>) = w'" for w' by simp
  from realloc_grows [OF assms] show ?thesis
  proof (elim disjE exE conjE)
    fix q w' assume "BXP_realloc s p new = Inr (q, s\<lparr>hs_world := w'\<rparr>)" "api_inv A (s\<lparr>hs_world := w'\<rparr>) (insert (q, new) (H - {(p, old)})) lv"
      "\<forall>i<old. w_mem w' (q + i) = w_mem (hs_world s) (p + i)"
      "\<forall>r t a. (r, t) \<in> H - {(p, old)} \<and> a - r < t \<longrightarrow> w_mem w' a = w_mem (hs_world s) a"
    then show ?thesis by (intro disjI2 exI [of _ q] exI [of _ "s\<lparr>hs_world := w'\<rparr>"]) simp
  qed simp
qed


theorem BXP_realloc_grows_witness:
  "\<exists>(s :: lock_state heap_state) p. api_inv (large_arena sample_layout) s {(p, 100)} (max_tiles (large_arena sample_layout))
    \<and> (BXP_realloc s p SBSIZE = Inl out_of_space \<or> (\<exists>q s'. BXP_realloc s p SBSIZE = Inr (q, s')
         \<and> api_inv (large_arena sample_layout) s' {(q, SBSIZE)} (max_tiles (large_arena sample_layout))))"
proof -
  let ?A = "large_arena sample_layout"
  obtain s where s: "api_inv ?A (s :: lock_state heap_state) {} (max_tiles ?A)" "\<not> exhausted (hs_world s)" by (rule sample_api)
  have "(0 :: u64) < 100" "(100 :: u64) \<le> SBSIZE" by (simp_all add: SBSIZE_eq)
  then obtain p w' where p: "api_inv ?A (s\<lparr>hs_world := w'\<rparr>) {(p, 100)} (max_tiles ?A)" using malloc_small [OF s(1), of 100] s(2) by blast
  have "BXP_malloc_size (s\<lparr>hs_world := w'\<rparr>) p < SBSIZE" by (rule malloc_size_held(5) [OF p, of p 100]) (simp_all add: MAX_SZ_eq)
  from BXP_realloc_grows [OF p _ this order_refl] p show ?thesis by auto
qed


text \<open>\<open>BXP_output\<close> counts every small superblock it visits twice: whatever it returns, the count of
  small superblocks is twice what it has added to the row \<open>objsize[1]\<close> beyond the large ones.\<close>

lemma BXP_output_counts_twice:
  assumes "BXP_output s (\<lambda>_. 0) = Inr u"
  shows "total_alloc_count u = small_alloc_count u + large_alloc_count u
    \<and> small_alloc_count u + 2 * large_alloc_count u = 2 * (\<Sum>c<NLIST. objsize1 u c)"
proof -
  let ?ok = "\<lambda>u. total_alloc_count u = small_alloc_count u + large_alloc_count u
    \<and> small_alloc_count u + 2 * large_alloc_count u = 2 * (\<Sum>c<NLIST. objsize1 u c)"
  have sum: "(\<Sum>c<NLIST. (f(p := f p + n)) c) = (\<Sum>c<NLIST. f c) + (n :: nat)" if "p < NLIST" for f p n
  proof -
    have "(\<Sum>c<NLIST. (f(p := f p + n)) c) = (\<Sum>c<NLIST. f c + (if c = p then n else 0))" by (rule sum.cong) auto
    then show ?thesis using that by (simp add: sum.distrib)
  qed
  have sum1: "(\<Sum>c<NLIST. (f(p := Suc (f p))) c) = Suc (\<Sum>c<NLIST. f c)" if "p < NLIST" for f p using sum [OF that, of f 1] by simp
  have "?ok u'" if "output_step w sb u = Inr u'" "?ok u" for w sb u u'
  proof -
    have "unat pos < NLIST" if "pos < of_nat NLIST" for pos :: u64 using that by (simp add: word_less_nat_alt NLIST_def)
    then show ?thesis using that sum sum1 by (auto simp: output_step_def Let_def NLIST_def not_le split: if_splits)
  qed
  then have loop: "output_loop n w sb e u = Inr u' \<Longrightarrow> ?ok u \<Longrightarrow> ?ok u'" for n w sb e u u'
    by (induction n arbitrary: sb u) (auto split: if_splits)
  obtain r n where "output_loop n (hs_world s) (regions_address (w_rgs (hs_world s)) ! 1) (curr_addr r)
      \<lparr>small_alloc_count = 0, large_alloc_count = 0, total_alloc_count = 0, objsize1 = \<lambda>_. 0\<rparr> = Inr u"
    using assms unfolding BXP_output_def Let_def by (cases "rgs (w_rgs (hs_world s)) ! idx_no SB_IDX") (simp_all del: output_loop.simps)
  from loop [OF this] show ?thesis by simp
qed


text \<open>A superblock region of one superblock, with blocks of 8 bytes.\<close>

definition tiny_heap :: "lock_state heap_state" where
  "tiny_heap = sample_start\<lparr>hs_world := sample_world\<lparr>
     w_rgs := (w_rgs sample_world)\<lparr>regions_address := [0x100040, 0x40001000, 0, 0, 0x20000000]\<rparr>,
     w_desc := \<lambda>_. (Descriptor 0)\<lparr>danchor := \<lparr>avail = 0, acount = 1, astate = SB_PARTIAL\<rparr>, block_size := 8\<rparr>\<rparr>\<rparr>"

lemma BXP_output_counts_twice_witness:
  "\<exists>u. BXP_output tiny_heap (\<lambda>_. 0) = Inr u \<and> small_alloc_count u = 2 \<and> (\<Sum>c<NLIST. objsize1 u c) = 1"
proof -
  let ?r = "map_persistent_region (file_size_for 0x100000000) True 0x40000000"
  have c: "curr_addr ?r = 0x40001000"
    by (simp add: curr_addr_def map_persistent_region_def PAGESIZE_def atomic_pptr_load_def atomic_pptr_store_def canonical_def)
  have i: "Index 8 = Inr 0" by (simp add: Index_def assertE_def SBSIZE_eq index_shift_def)
  let ?u = "\<lparr>small_alloc_count = 0, large_alloc_count = 0, total_alloc_count = 0, objsize1 = \<lambda>_. 0\<rparr> :: usage"
  have r: "rgs (w_rgs (hs_world tiny_heap)) ! 1 = Some ?r" "regions_address (w_rgs (hs_world tiny_heap)) ! 1 = 0x40001000"
      "w_desc (hs_world tiny_heap) a = (Descriptor 0)\<lparr>danchor := \<lparr>avail = 0, acount = 1, astate = SB_PARTIAL\<rparr>, block_size := 8\<rparr>" for a
    by (simp_all add: tiny_heap_def sample_start_def sample_world_def)
  have "BXP_output tiny_heap (\<lambda>_. 0) = output_loop (Suc (Suc 0)) (hs_world tiny_heap) 0x40001000 0x40001000 ?u"
    using r(1,2) by (simp add: BXP_output_def c del: output_loop.simps)
  moreover have "output_step (hs_world tiny_heap) 0x40001000 ?u =
      Inr \<lparr>small_alloc_count = 2, large_alloc_count = 0, total_alloc_count = 2, objsize1 = (\<lambda>_. 0)(0 := 1)\<rparr>"
    by (simp add: output_step_def r(3) i sb_states NLIST_def)
  ultimately have u: "BXP_output tiny_heap (\<lambda>_. 0) = Inr \<lparr>small_alloc_count = 2, large_alloc_count = 0, total_alloc_count = 2, objsize1 = (\<lambda>_. 0)(0 := 1)\<rparr>"
    by simp
  then show ?thesis using BXP_output_counts_twice [OF u] by simp
qed


end
