(* ===== verification/Bx_Restart.thy ===== *)
theory Bx_Restart
  imports Bx_ApiProps
begin

text \<open>
  A heap across processes: whatever a client does through the interface, the regions are what their
  files say, so that the next process finds them again; after an orderly end it continues with every
  block, after a crash it recovers with those that are reachable from the roots.  The new process
  maps the files at the addresses of the old one.
\<close>

section \<open>Regions and their files\<close>

fun region_bytes :: "layout \<Rightarrow> u64 \<Rightarrow> region_index \<Rightarrow> u64" where
  "region_bytes lo sz DESC_IDX = sz div SBSIZE * DESCSIZE"
| "region_bytes lo sz SB_IDX = sz div SBSIZE * SBSIZE"
| "region_bytes lo sz LAR_SB_IDX = MIN_SB_REGION_SIZE"
| "region_bytes lo sz QUEUE_IDX = lo_queue_size lo"
| "region_bytes lo sz META_IDX = lo_meta_size lo"

definition mapped_bytes :: "layout \<Rightarrow> u64 \<Rightarrow> region_index \<Rightarrow> u64" where
  "mapped_bytes lo sz i = (if i = LAR_SB_IDX then (sz - sz div 2) div SBSIZE * SBSIZE else file_size_for (region_bytes lo sz i))"

definition mapped :: "layout \<Rightarrow> u64 \<Rightarrow> region_index \<Rightarrow> region \<Rightarrow> bool" where
  "mapped lo sz i r \<longleftrightarrow> base_addr r = lo_addr lo i \<and> persist r \<and> FILESIZE r = mapped_bytes lo sz i
     \<and> rf_size (rfile r) = file_size_for (region_bytes lo sz i)"

definition on_files :: "layout \<Rightarrow> u64 \<Rightarrow> regions \<Rightarrow> bool" where
  "on_files lo sz R \<longleftrightarrow> length (rgs R) = LAST_IDX \<and> length (regions_address R) = LAST_IDX \<and> cur_idx R = LAST_IDX
     \<and> (\<forall>i. \<exists>r. rgs R ! idx_no i = Some r \<and> mapped lo sz i r \<and> Regions_lookup R i = fetch_heap_start r)"

lemma on_filesE:
  assumes "on_files lo sz R"
  obtains r where "rgs R ! idx_no i = Some r" "mapped lo sz i r" "Regions_lookup R i = fetch_heap_start r"
  using assms by (auto simp: on_files_def)

lemma idx_no_less: "idx_no i < LAST_IDX"
  by (cases i) (simp_all add: LAST_IDX_def)

lemma idx_no_eq: "idx_no i = idx_no j \<longleftrightarrow> i = j"
  by (cases i; cases j) simp_all

text \<open>Two tables on the same files are equal.\<close>

lemma on_files_unique:
  assumes "on_files lo sz R" "on_files lo sz R'" "\<And>i. map_option rfile (rgs R' ! idx_no i) = map_option rfile (rgs R ! idx_no i)"
  shows "R' = R"
proof -
  have e: "rgs R' ! idx_no i = rgs R ! idx_no i \<and> regions_address R' ! idx_no i = regions_address R ! idx_no i" for i
  proof -
    obtain r where r: "rgs R ! idx_no i = Some r" "mapped lo sz i r" "Regions_lookup R i = fetch_heap_start r" by (rule on_filesE [OF assms(1)])
    obtain r' where r': "rgs R' ! idx_no i = Some r'" "mapped lo sz i r'" "Regions_lookup R' i = fetch_heap_start r'" by (rule on_filesE [OF assms(2)])
    have "r' = r" using assms(3) [of i] r(1,2) r'(1,2) by (cases r; cases r') (simp add: mapped_def)
    then show ?thesis using r r' by (simp add: Regions_lookup_def)
  qed
  have n: "\<exists>i. n = idx_no i" if "n < LAST_IDX" for n
  proof -
    have "n = 0 \<or> n = 1 \<or> n = 2 \<or> n = 3 \<or> n = 4" using that by (auto simp: LAST_IDX_def)
    then show ?thesis by (metis idx_no.simps)
  qed
  have "rgs R' = rgs R" "regions_address R' = regions_address R"
    using assms(1,2) e n by (auto simp: on_files_def intro!: nth_equalityI dest!: n)
  moreover have "cur_idx R' = cur_idx R" using assms(1,2) by (simp add: on_files_def)
  ultimately show ?thesis by (cases R; cases R') simp
qed

lemma on_files_grown:
  assumes "on_files lo sz R" "sb_grown R R'"
  shows "on_files lo sz R'"
proof (cases "R' = R")
  case False
  then obtain r c where r: "rgs R ! idx_no SB_IDX = Some r" "R' = R\<lparr>rgs := (rgs R)[idx_no SB_IDX := Some (r\<lparr>rfile := (rfile r)\<lparr>rf_curr := c\<rparr>\<rparr>)]\<rparr>"
    using assms(2) by (auto simp: sb_grown_def)
  have "\<exists>r. rgs R' ! idx_no i = Some r \<and> mapped lo sz i r \<and> Regions_lookup R' i = fetch_heap_start r" for i
  proof -
    obtain q where q: "rgs R ! idx_no i = Some q" "mapped lo sz i q" "Regions_lookup R i = fetch_heap_start q" by (rule on_filesE [OF assms(1)])
    show ?thesis
    proof (cases "i = SB_IDX")
      case True
      then have "q = r" using q(1) r(1) by simp
      then show ?thesis using True q r(2) assms(1) by (simp add: on_files_def mapped_def Regions_lookup_def fetch_heap_start_def LAST_IDX_def)
    next
      case False
      then have "idx_no SB_IDX \<noteq> idx_no i" using idx_no_eq by metis
      then show ?thesis using q r(2) by (simp add: Regions_lookup_def)
    qed
  qed
  then show ?thesis using assms(1) r(2) by (simp add: on_files_def)
qed (use assms in simp)

section \<open>Opening the regions\<close>

lemma RegionManager_new_mapped:
  assumes "RegionManager_new file addr n True e = Inr r"
  shows "base_addr r = addr" "persist r" "FILESIZE r = file_size_for n" "rf_size (rfile r) = file_size_for n" "\<And>f. file = Some f \<Longrightarrow> rfile r = f"
proof -
  let ?r = "map_persistent_region (file_size_for n) True addr"
  have "base_addr r = addr \<and> persist r \<and> FILESIZE r = file_size_for n \<and> rf_size (rfile r) = file_size_for n \<and> (\<forall>f. file = Some f \<longrightarrow> rfile r = f)"
  proof (cases "file")
    case (Some f)
    then show ?thesis using assms by (auto simp: RegionManager_new_def Let_def remap_persistent_region_def assertE_def split: if_splits)
  next
    case None
    obtain res t r' where al: "nvm_region_allocator ?r (rf_curr (rfile ?r)) CACHELINE_SIZE n = (res, t, r')" by (metis prod_cases3)
    obtain c where "r' = ?r\<lparr>rfile := (rfile ?r)\<lparr>rf_curr := c\<rparr>\<rparr>" using allocator_file [OF al] .
    then show ?thesis using assms None al
      by (auto simp: RegionManager_new_def Let_def assertE_def store_heap_start_def map_persistent_region_def split: if_splits option.splits)
  qed
  then show "base_addr r = addr" "persist r" "FILESIZE r = file_size_for n" "rf_size (rfile r) = file_size_for n" "\<And>f. file = Some f \<Longrightarrow> rfile r = f" by simp_all
qed

lemma mappedI:
  assumes "RegionManager_new file (lo_addr lo i) (region_bytes lo sz i) True e = Inr r" "i \<noteq> LAR_SB_IDX"
  shows "mapped lo sz i r"
  using RegionManager_new_mapped [OF assms(1)] assms(2) by (simp add: mapped_def mapped_bytes_def)

lemma mapped_store [simp]:
  "mapped lo sz i (r\<lparr>rfile := (rfile r)\<lparr>rf_curr := c\<rparr>\<rparr>) = mapped lo sz i r" "mapped lo sz i (store_heap_start r a) = mapped lo sz i r"
  by (simp_all add: mapped_def store_heap_start_def)

lemma fetch_store [simp]: "fetch_heap_start (store_heap_start r a) = a"
  by (simp add: fetch_heap_start_def store_heap_start_def)

lemma LockFreeQueue_new_mapped:
  assumes "LockFreeQueue_new None (lo_addr lo QUEUE_IDX) (lo_queue_size lo) q = Inr (r, a, q')"
  shows "mapped lo sz QUEUE_IDX r" "a = fetch_heap_start r"
proof -
  obtain r0 where r0: "RegionManager_new None (lo_addr lo QUEUE_IDX) (lo_queue_size lo) True False = Inr r0"
    using assms by (cases "RegionManager_new None (lo_addr lo QUEUE_IDX) (lo_queue_size lo) True False") (simp_all add: LockFreeQueue_new_def)
  obtain res t r1 where al: "nvm_region_allocator r0 (rf_curr (rfile r0)) PAGESIZE (lo_queue_size lo) = (res, t, r1)" by (metis prod_cases3)
  have m: "mapped lo sz QUEUE_IDX r0" by (rule mappedI [of None _ _ _ False]) (use r0 in simp_all)
  obtain c where c: "r1 = r0\<lparr>rfile := (rfile r0)\<lparr>rf_curr := c\<rparr>\<rparr>" using allocator_file [OF al] .
  have "r = store_heap_start r1 a" using assms r0 al by (auto simp: LockFreeQueue_new_def assertE_def split: if_splits option.splits)
  then show "mapped lo sz QUEUE_IDX r" "a = fetch_heap_start r" using m c by simp_all
qed

text \<open>What the first four cases of the \<open>switch\<close> leave when no file exists.\<close>

lemma init_regions_mapped:
  assumes "\<And>i. lo_file lo i = None" "init_desc lo (sz div SBSIZE) Regions_new = Inr R1" "init_sb lo (sz div SBSIZE) R1 = Inr R2"
    "init_large lo sz (sz div 2) R2 = Inr R3" "init_queue lo q R3 = Inr (q', R4)"
  obtains r0 r1 r2 r3 where "mapped lo sz DESC_IDX r0" "mapped lo sz SB_IDX r1" "mapped lo sz LAR_SB_IDX r2" "mapped lo sz QUEUE_IDX r3"
    "R4 = \<lparr>rgs = [Some r0, Some r1, Some r2, Some r3, None], regions_address = [fetch_heap_start r0, 0, fetch_heap_start r2, fetch_heap_start r3, 0], cur_idx = 4\<rparr>"
proof -
  have R0: "Regions_new = \<lparr>rgs = [None, None, None, None, None], regions_address = [0, 0, 0, 0, 0], cur_idx = 0\<rparr>"
    by (simp add: Regions_new_def LAST_IDX_def eval_nat_numeral)
  obtain r0 where 0: "RegionManager_new None (lo_addr lo DESC_IDX) (sz div SBSIZE * DESCSIZE) True True = Inr r0"
      "R1 = \<lparr>rgs = [Some r0, None, None, None, None], regions_address = [fetch_heap_start r0, 0, 0, 0, 0], cur_idx = 1\<rparr>"
    using assms(1,2) by (auto simp: init_desc_def Regions_create_def R0 LAST_IDX_def)
  obtain r1 where 1: "RegionManager_new None (lo_addr lo SB_IDX) (sz div SBSIZE * SBSIZE) True False = Inr r1"
      "R2 = \<lparr>rgs = [Some r0, Some r1, None, None, None], regions_address = [fetch_heap_start r0, 0, 0, 0, 0], cur_idx = 2\<rparr>"
    using assms(1,3) 0(2) by (auto simp: init_sb_def Regions_create_def LAST_IDX_def)
  obtain r where 2: "RegionManager_new None (lo_addr lo LAR_SB_IDX) MIN_SB_REGION_SIZE True True = Inr r"
      "R3 = \<lparr>rgs = [Some r0, Some r1, Some (r\<lparr>FILESIZE := mapped_bytes lo sz LAR_SB_IDX\<rparr>), None, None],
         regions_address = [fetch_heap_start r0, 0, fetch_heap_start r, 0, 0], cur_idx = 3\<rparr>"
    using assms(1,4) 1(2) by (auto simp: init_large_def Regions_create_def LAST_IDX_def set_region_def mapped_bytes_def)
  obtain r3 a where 3: "LockFreeQueue_new None (lo_addr lo QUEUE_IDX) (lo_queue_size lo) q = Inr (r3, a, q')"
      "R4 = R3\<lparr>rgs := (rgs R3)[3 := Some r3], regions_address := (regions_address R3)[3 := a], cur_idx := cur_idx R3 + 1\<rparr>"
    using assms(1,5) by (auto simp: init_queue_def)
  let ?r2 = "r\<lparr>FILESIZE := mapped_bytes lo sz LAR_SB_IDX\<rparr>"
  show thesis
  proof (rule that [of r0 r1 ?r2 r3])
    show "mapped lo sz DESC_IDX r0" by (rule mappedI [of None _ _ _ True]) (use 0 in simp_all)
    show "mapped lo sz SB_IDX r1" by (rule mappedI [of None _ _ _ False]) (use 1 in simp_all)
    show "mapped lo sz LAR_SB_IDX ?r2" using RegionManager_new_mapped [OF 2(1)] by (simp add: mapped_def)
    show "mapped lo sz QUEUE_IDX r3" by (rule LockFreeQueue_new_mapped [OF 3(1)])
    show "R4 = \<lparr>rgs = [Some r0, Some r1, Some ?r2, Some r3, None],
        regions_address = [fetch_heap_start r0, 0, fetch_heap_start ?r2, fetch_heap_start r3, 0], cur_idx = 4\<rparr>"
      using 2(2) 3(2) LockFreeQueue_new_mapped(2) [OF 3(1)] by (simp add: fetch_heap_start_def)
  qed
qed

text \<open>The metadata of a new heap: the table ends on its files.\<close>

lemma init_meta_on_files:
  assumes "lo_file lo META_IDX = None" "init_meta P lo (w, m) = Inr (w', m')" "mapped lo sz DESC_IDX r0" "mapped lo sz SB_IDX r1"
    "mapped lo sz LAR_SB_IDX r2" "mapped lo sz QUEUE_IDX r3"
    "w_rgs w = \<lparr>rgs = [Some r0, Some r1, Some r2, Some r3, None],
       regions_address = [fetch_heap_start r0, 0, fetch_heap_start r2, fetch_heap_start r3, 0], cur_idx = 4\<rparr>"
  shows "on_files lo sz (w_rgs w')"
proof -
  obtain r4 where r4: "RegionManager_new None (lo_addr lo META_IDX) (lo_meta_size lo) True True = Inr r4"
    using assms(1,2,7) by (cases "RegionManager_new None (lo_addr lo META_IDX) (lo_meta_size lo) True True")
      (simp_all add: init_meta_def Regions_create_for_def LAST_IDX_def)
  have m4: "mapped lo sz META_IDX r4" by (rule mappedI [of None _ _ _ True]) (use r4 in simp_all)
  define w5 where "w5 = w\<lparr>w_rgs := (w_rgs w)\<lparr>rgs := [Some r0, Some r1, Some r2, Some r3, Some r4]\<rparr>\<rparr>"
  have e: "w\<lparr>w_rgs := (w_rgs w)\<lparr>rgs := (rgs (w_rgs w))[4 := Some r4], regions_address := regions_address (w_rgs w), cur_idx := 4\<rparr>\<rparr> = w5"
    using assms(7) by (simp add: w5_def)
  obtain w6 where w6: "BaseMeta_new w5 = Inr w6" "w_rgs w' = (w_rgs w6)\<lparr>regions_address := (regions_address (w_rgs w6))[4 := fetch_heap_start r4], cur_idx := 5\<rparr>"
    using assms(1,2) r4 e assms(7) by (auto simp: init_meta_def Regions_create_for_def LAST_IDX_def Let_def)
  have len: "length (rgs (w_rgs w5)) = LAST_IDX" by (simp add: w5_def LAST_IDX_def)
  obtain r c b where b: "rgs (w_rgs w5) ! idx_no SB_IDX = Some r"
    "w_rgs w6 = (w_rgs w5)\<lparr>rgs := (rgs (w_rgs w5))[idx_no SB_IDX := Some (store_heap_start (r\<lparr>rfile := (rfile r)\<lparr>rf_curr := c\<rparr>\<rparr>) b)],
      regions_address := (regions_address (w_rgs w5))[idx_no SB_IDX := b]\<rparr>" using BaseMeta_new_rgs [OF w6(1) len] .
  have "r = r1" using b(1) by (simp add: w5_def)
  then have R: "w_rgs w' = \<lparr>rgs = [Some r0, Some (store_heap_start (r1\<lparr>rfile := (rfile r1)\<lparr>rf_curr := c\<rparr>\<rparr>) b), Some r2, Some r3, Some r4],
      regions_address = [fetch_heap_start r0, b, fetch_heap_start r2, fetch_heap_start r3, fetch_heap_start r4], cur_idx = 5\<rparr>"
    unfolding w6(2) b(2) using assms(7) by (simp add: w5_def)
  have "\<exists>r. rgs (w_rgs w') ! idx_no i = Some r \<and> mapped lo sz i r \<and> Regions_lookup (w_rgs w') i = fetch_heap_start r" for i
    using assms(3-6) m4 by (cases i) (simp_all add: R Regions_lookup_def)
  then show ?thesis by (simp add: on_files_def R LAST_IDX_def)
qed

lemma init_on_files:
  assumes "\<And>i. lo_file lo i = None" "BXP_init_body P lo sz s = Inr (r, s')"
  shows "on_files lo sz (w_rgs (hs_world s'))"
proof -
  obtain R1 R2 R3 q R4 w' m' where R: "init_desc lo (sz div SBSIZE) Regions_new = Inr R1" "init_sb lo (sz div SBSIZE) R1 = Inr R2"
      "init_large lo sz (sz div 2) R2 = Inr R3" "init_queue lo (w_queue (hs_world s)) R3 = Inr (q, R4)"
    and m: "init_meta P lo ((hs_world s)\<lparr>w_rgs := R4, w_queue := q\<rparr>, hs_mtx s) = Inr (w', m')" "hs_world s' = w'"
    using assms(2) by (auto simp: BXP_init_body_def Let_def assertE_def split: if_splits)
  obtain r0 r1 r2 r3 where "mapped lo sz DESC_IDX r0" "mapped lo sz SB_IDX r1" "mapped lo sz LAR_SB_IDX r2" "mapped lo sz QUEUE_IDX r3"
    "R4 = \<lparr>rgs = [Some r0, Some r1, Some r2, Some r3, None], regions_address = [fetch_heap_start r0, 0, fetch_heap_start r2, fetch_heap_start r3, 0], cur_idx = 4\<rparr>"
    using init_regions_mapped [OF assms(1) R] .
  then show ?thesis using init_meta_on_files [OF assms(1) m(1)] m(2) by simp
qed

section \<open>The next process\<close>

text \<open>The files that the regions leave, and the state of a new process on them: its globals are new, the
  memory of the files and the mutex (\<open>m\<close>) are those of the old one.\<close>

definition next_files :: "layout \<Rightarrow> regions \<Rightarrow> layout" where
  "next_files lo R = lo\<lparr>lo_file := \<lambda>i. map_option RegionManager_delete (rgs R ! idx_no i)\<rparr>"

definition next_process :: "buddy \<Rightarrow> 'm \<Rightarrow> 'm heap_state \<Rightarrow> 'm heap_state" where
  "next_process B m s = \<lparr>hs_initialized = False, hs_holder = None, hs_world = (crashed (hs_world s))\<lparr>w_rgs := Regions_new\<rparr>, hs_buddy = B,
     hs_hdr = hs_hdr s, hs_mtx = m, hs_filter = replicate MAX_ROOTS False\<rparr>"

lemma RegionManager_reopen:
  assumes "mapped lo sz i r" "i \<noteq> LAR_SB_IDX"
  shows "RegionManager_new (Some (rfile r)) (lo_addr lo i) (region_bytes lo sz i) True e = Inr r"
  using assms by (simp add: RegionManager_new_def Let_def remap_persistent_region_def assertE_def mapped_def mapped_bytes_def)

lemma RegionManager_reopen_large:
  assumes "mapped lo sz LAR_SB_IDX r"
  shows "\<exists>r'. RegionManager_new (Some (rfile r)) (lo_addr lo LAR_SB_IDX) MIN_SB_REGION_SIZE True e = Inr r'
    \<and> r'\<lparr>FILESIZE := (sz - sz div 2) div SBSIZE * SBSIZE\<rparr> = r \<and> fetch_heap_start r' = fetch_heap_start r"
  using assms by (simp add: RegionManager_new_def Let_def remap_persistent_region_def assertE_def mapped_def mapped_bytes_def fetch_heap_start_def)

lemma on_files_table:
  assumes "on_files lo sz R"
  obtains r0 r1 r2 r3 r4 where "mapped lo sz DESC_IDX r0" "mapped lo sz SB_IDX r1" "mapped lo sz LAR_SB_IDX r2" "mapped lo sz QUEUE_IDX r3" "mapped lo sz META_IDX r4"
    "R = \<lparr>rgs = [Some r0, Some r1, Some r2, Some r3, Some r4],
       regions_address = [fetch_heap_start r0, fetch_heap_start r1, fetch_heap_start r2, fetch_heap_start r3, fetch_heap_start r4], cur_idx = 5\<rparr>"
proof -
  obtain f where f: "\<And>i. rgs R ! idx_no i = Some (f i) \<and> mapped lo sz i (f i) \<and> Regions_lookup R i = fetch_heap_start (f i)"
    using assms unfolding on_files_def by metis
  let ?R = "\<lparr>rgs = [Some (f DESC_IDX), Some (f SB_IDX), Some (f LAR_SB_IDX), Some (f QUEUE_IDX), Some (f META_IDX)],
    regions_address = [fetch_heap_start (f DESC_IDX), fetch_heap_start (f SB_IDX), fetch_heap_start (f LAR_SB_IDX), fetch_heap_start (f QUEUE_IDX), fetch_heap_start (f META_IDX)],
    cur_idx = 5\<rparr>"
  have e: "rgs ?R ! idx_no i = Some (f i) \<and> Regions_lookup ?R i = fetch_heap_start (f i)" for i
    by (cases i) (simp_all add: Regions_lookup_def)
  have "on_files lo sz ?R" using e f by (simp add: on_files_def LAST_IDX_def)
  then have "R = ?R" by (rule on_files_unique [OF _ assms]) (use e f in simp)
  then show thesis using that [of "f DESC_IDX" "f SB_IDX" "f LAR_SB_IDX" "f QUEUE_IDX" "f META_IDX"] f by blast
qed

text \<open>The files bring the same regions back.\<close>

lemma reopen_regions:
  assumes "on_files lo sz R"
  defines "lo' \<equiv> next_files lo R"
  shows "\<exists>R1 R2 R3 R4. init_desc lo' (sz div SBSIZE) Regions_new = Inr R1 \<and> init_sb lo' (sz div SBSIZE) R1 = Inr R2
    \<and> init_large lo' sz (sz div 2) R2 = Inr R3 \<and> init_queue lo' q R3 = Inr (q, R4)
    \<and> (\<forall>w. init_meta P lo' (w\<lparr>w_rgs := R4, w_queue := q\<rparr>, m) = Inr (w\<lparr>w_rgs := R, w_queue := q\<rparr>, m))"
proof -
  obtain r0 r1 r2 r3 r4 where r: "mapped lo sz DESC_IDX r0" "mapped lo sz SB_IDX r1" "mapped lo sz LAR_SB_IDX r2" "mapped lo sz QUEUE_IDX r3" "mapped lo sz META_IDX r4"
    and R: "R = \<lparr>rgs = [Some r0, Some r1, Some r2, Some r3, Some r4],
       regions_address = [fetch_heap_start r0, fetch_heap_start r1, fetch_heap_start r2, fetch_heap_start r3, fetch_heap_start r4], cur_idx = 5\<rparr>"
    by (rule on_files_table [OF assms(1)])
  have f: "lo_file lo' DESC_IDX = Some (rfile r0)" "lo_file lo' SB_IDX = Some (rfile r1)" "lo_file lo' LAR_SB_IDX = Some (rfile r2)"
      "lo_file lo' QUEUE_IDX = Some (rfile r3)" "lo_file lo' META_IDX = Some (rfile r4)" "lo_addr lo' = lo_addr lo"
      "lo_queue_size lo' = lo_queue_size lo" "lo_meta_size lo' = lo_meta_size lo"
    by (simp_all add: lo'_def next_files_def R RegionManager_delete_def close_persistent_region_def close_transient_region_def)
  note m = RegionManager_reopen [OF r(1), simplified] RegionManager_reopen [OF r(2), simplified] RegionManager_reopen [OF r(4), simplified]
    RegionManager_reopen [OF r(5), simplified]
  obtain r2' where r2': "RegionManager_new (Some (rfile r2)) (lo_addr lo LAR_SB_IDX) MIN_SB_REGION_SIZE True True = Inr r2'"
      "r2'\<lparr>FILESIZE := (sz - sz div 2) div SBSIZE * SBSIZE\<rparr> = r2" "fetch_heap_start r2' = fetch_heap_start r2"
    using RegionManager_reopen_large [OF r(3)] by blast
  let ?R1 = "\<lparr>rgs = [Some r0, None, None, None, None], regions_address = [fetch_heap_start r0, 0, 0, 0, 0], cur_idx = 1\<rparr>"
  let ?R2 = "\<lparr>rgs = [Some r0, Some r1, None, None, None], regions_address = [fetch_heap_start r0, fetch_heap_start r1, 0, 0, 0], cur_idx = 2\<rparr>"
  let ?R3 = "\<lparr>rgs = [Some r0, Some r1, Some r2, None, None], regions_address = [fetch_heap_start r0, fetch_heap_start r1, fetch_heap_start r2, 0, 0], cur_idx = 3\<rparr>"
  let ?R4 = "\<lparr>rgs = [Some r0, Some r1, Some r2, Some r3, None],
    regions_address = [fetch_heap_start r0, fetch_heap_start r1, fetch_heap_start r2, fetch_heap_start r3, 0], cur_idx = 4\<rparr>"
  have "init_desc lo' (sz div SBSIZE) Regions_new = Inr ?R1"
    by (simp add: init_desc_def Regions_create_def Regions_new_def LAST_IDX_def f m eval_nat_numeral)
  moreover have "init_sb lo' (sz div SBSIZE) ?R1 = Inr ?R2" by (simp add: init_sb_def Regions_create_def LAST_IDX_def f m)
  moreover have "init_large lo' sz (sz div 2) ?R2 = Inr ?R3"
    by (simp add: init_large_def Regions_create_def LAST_IDX_def set_region_def f r2')
  moreover have "init_queue lo' q ?R3 = Inr (q, ?R4)" by (simp add: init_queue_def LockFreeQueue_new_def f m)
  moreover have "init_meta P lo' (w\<lparr>w_rgs := ?R4, w_queue := q\<rparr>, m) = Inr (w\<lparr>w_rgs := R, w_queue := q\<rparr>, m)" for w
    by (simp add: init_meta_def Regions_create_for_def LAST_IDX_def Let_def f m R)
  ultimately show ?thesis by blast
qed

lemma reopen_buddy:
  assumes "buddy_inv (large_arena lo) b lv" "large_ok (large_arena lo) R" "lo_file lo' LAR_SB_IDX \<noteq> None"
  shows "\<exists>B H. init_buddy lo' R (bw_hdr b) = Inr (B, H) \<and> buddy_inv (large_arena lo) \<lparr>bw_buddy = B, bw_hdr = H, bw_rgs = R'\<rparr> lv
    \<and> used (large_arena lo) H lv = used (large_arena lo) (bw_hdr b) lv"
proof -
  let ?A = "large_arena lo"
  obtain r where r: "Regions_lookup R LAR_SB_IDX = ar_start ?A" "rgs R ! idx_no LAR_SB_IDX = Some r" "curr_addr r = unit_addr ?A 8192"
    using assms(2) by (auto simp: large_ok_def large_arena_def)
  have "curr_addr r - Regions_lookup R LAR_SB_IDX = 2 ^ 30" unfolding r(1,3) by (simp add: large_arena_def unit_addr_def)
  then have "to_int (uint (curr_addr r - Regions_lookup R LAR_SB_IDX)) = 2 ^ 30" by (simp add: to_int_def)
  then have i: "init_buddy lo' R (bw_hdr b) = BuddyAllocator_new (lo_junk lo') (bw_hdr b) (ar_start ?A) (2 ^ 17) (2 ^ 30) (2 ^ 30) True"
    using r(1,2) assms(3) by (simp add: init_buddy_def Let_def initBuddyAllocator_def BuddyManager_def MIN_SB_REGION_SIZE_def)
  obtain fl where b: "binv ?A (bw_hdr b) (FreeList (bw_buddy b)) lv fl {}" using assms(1) by (auto simp: buddy_inv_def)
  show ?thesis unfolding i using BuddyAllocator_recovers [OF binvD(1,2,3) [OF b], of "lo_junk lo'" R'] by (simp add: large_arena_def)
qed

lemma reopen:
  assumes "on_files lo sz (w_rgs (hs_world s))" "sized sz" "api_inv (large_arena lo) s H lv"
  shows "\<exists>s1. BXP_init P (next_files lo (w_rgs (hs_world s))) sz (next_process B m s) = Inr (1, s1) \<and> hs_world s1 = crashed (hs_world s) \<and> hs_mtx s1 = m
    \<and> hs_initialized s1 \<and> hs_filter s1 = replicate MAX_ROOTS False \<and> buddy_inv (large_arena lo) (the_buddy s1) lv
    \<and> used (large_arena lo) (hs_hdr s1) lv = used (large_arena lo) (hs_hdr s) lv"
proof -
  let ?R = "w_rgs (hs_world s)" and ?s = "next_process B m s" and ?A = "large_arena lo"
  let ?lo = "next_files lo ?R" and ?q = "w_queue (hs_world s)"
  have some: "lo_file ?lo i \<noteq> None" for i using on_filesE [OF assms(1), of i] by (auto simp: next_files_def)
  obtain R1 R2 R3 R4 where R: "init_desc ?lo (sz div SBSIZE) Regions_new = Inr R1" "init_sb ?lo (sz div SBSIZE) R1 = Inr R2"
      "init_large ?lo sz (sz div 2) R2 = Inr R3" "init_queue ?lo ?q R3 = Inr (?q, R4)"
      "\<forall>w. init_meta P ?lo (w\<lparr>w_rgs := R4, w_queue := ?q\<rparr>, m) = Inr (w\<lparr>w_rgs := ?R, w_queue := ?q\<rparr>, m)"
    using reopen_regions [OF assms(1), of ?q P m] by blast
  have b: "buddy_inv ?A (the_buddy s) lv" "large_ok ?A ?R" using assms(3) by (simp_all add: api_inv_def)
  obtain B' H' where B': "init_buddy ?lo ?R (hs_hdr s) = Inr (B', H')" "buddy_inv ?A \<lparr>bw_buddy = B', bw_hdr = H', bw_rgs = ?R\<rparr> lv"
      "used ?A H' lv = used ?A (hs_hdr s) lv"
    using reopen_buddy [OF b some, of ?R] by (auto simp: the_buddy_def)
  have w: "(hs_world ?s)\<lparr>w_rgs := ?R, w_queue := ?q\<rparr> = crashed (hs_world s)" "w_queue (hs_world ?s) = ?q" "hs_hdr ?s = hs_hdr s" "hs_mtx ?s = m"
    by (simp_all add: next_process_def crashed_def)
  define s1 where "s1 = ?s\<lparr>hs_initialized := True, hs_world := crashed (hs_world s), hs_mtx := m, hs_buddy := B', hs_hdr := H', hs_holder := Some 1\<rparr>"
  have "w_rgs (crashed (hs_world s)) = ?R" by (simp add: crashed_def)
  then have "BXP_init_body P ?lo sz ?s = Inr (1, ?s\<lparr>hs_initialized := True, hs_world := crashed (hs_world s), hs_mtx := m, hs_buddy := B', hs_hdr := H'\<rparr>)"
    using R B'(1) w some sizedD(7) [OF assms(2)] assms(2) by (simp add: BXP_init_body_def assertE_def Let_def sized_def)
  then have "BXP_init P ?lo sz ?s = Inr (1, s1)" by (simp add: BXP_init_def s1_def) (simp add: next_process_def)
  then show ?thesis using B'(2,3) by (intro exI [of _ s1]) (simp add: s1_def the_buddy_def crashed_def next_process_def)
qed

section \<open>Runs of a client\<close>

text \<open>
  What a client does with a heap it has created: requests, releases, stores to its blocks, roots,
  and the flush at the end of a thread.  Large requests fit into a free block of the arena and
  large releases meet whole buddies only, as the properties of the buddy allocator ask.
\<close>

inductive api_run :: "'m pthread \<Rightarrow> layout \<Rightarrow> u64 \<Rightarrow> 'm heap_state \<Rightarrow> (u64 \<times> u64) set \<Rightarrow> bool" for P lo sz where
  init: "fresh_layout lo \<Longrightarrow> sized sz \<Longrightarrow> mapped_apart lo sz \<Longrightarrow> w_flist (hs_world s) = ThreadCache_init myclasssize \<Longrightarrow>
    hs_holder s = None \<Longrightarrow> BXP_init P lo sz s = Inr (r, s') \<Longrightarrow> api_run P lo sz s' {}"
| malloc: "api_run P lo sz s H \<Longrightarrow> 0 < n \<Longrightarrow> n \<le> SBSIZE \<Longrightarrow> BXP_malloc s n = Inr (p, s') \<Longrightarrow> api_run P lo sz s' (insert (p, n) H)"
| malloc_large: "api_run P lo sz s H \<Longrightarrow> SBSIZE < n \<Longrightarrow> uint n + 16 < 2 ^ 31 \<Longrightarrow> buddy_inv (large_arena lo) (the_buddy s) lv \<Longrightarrow>
    fits (large_arena lo) (the_buddy s) lv (uint n) z m \<Longrightarrow> BXP_malloc s n = Inr (p, s') \<Longrightarrow> api_run P lo sz s' H"
| free: "api_run P lo sz s H \<Longrightarrow> (p, n) \<in> H \<Longrightarrow> BXP_free s p = Inr s' \<Longrightarrow> api_run P lo sz s' (H - {(p, n)})"
| free_large: "api_run P lo sz s H \<Longrightarrow> buddy_inv (large_arena lo) (the_buddy s) lv \<Longrightarrow> (x, k) \<in> used (large_arena lo) (hs_hdr s) lv \<Longrightarrow>
    free_clean (large_arena lo) (the_buddy s) lv x k \<Longrightarrow> BXP_free s (unit_addr (large_arena lo) x + HEADER_BYTES) = Inr s' \<Longrightarrow> api_run P lo sz s' H"
| store: "api_run P lo sz s H \<Longrightarrow> (p, n) \<in> H \<Longrightarrow> a - p < n \<Longrightarrow>
    api_run P lo sz (s\<lparr>hs_world := (hs_world s)\<lparr>w_mem := (w_mem (hs_world s))(a := v)\<rparr>\<rparr>) H"
| root: "api_run P lo sz s H \<Longrightarrow> BXP_set_root again s p i = Inr (old, s') \<Longrightarrow> api_run P lo sz s' H"
| get: "api_run P lo sz s H \<Longrightarrow> BXP_get_root s i = Inr (p, s') \<Longrightarrow> api_run P lo sz s' H"
| thread_end: "api_run P lo sz s H \<Longrightarrow> public_flush_cache (hs_initialized s) (hs_world s) = Inr w \<Longrightarrow> api_run P lo sz (s\<lparr>hs_world := w\<rparr>) H"

definition run_inv :: "layout \<Rightarrow> u64 \<Rightarrow> ('m \<Rightarrow> lock_state) \<Rightarrow> 'm heap_state \<Rightarrow> (u64 \<times> u64) set \<Rightarrow> bool" where
  "run_inv lo sz st s H \<longleftrightarrow> (\<exists>lv. api_inv (large_arena lo) s H lv) \<and> on_files lo sz (w_rgs (hs_world s)) \<and> st (hs_mtx s) = Held \<and> sized sz"

lemma run_invD:
  assumes "run_inv lo sz st s H"
  shows "\<exists>lv. api_inv (large_arena lo) s H lv" "on_files lo sz (w_rgs (hs_world s))" "st (hs_mtx s) = Held" "sized sz" "hs_initialized s"
    "client (hs_world s) H" "large_ok (large_arena lo) (w_rgs (hs_world s))" "\<exists>lv. buddy_inv (large_arena lo) (the_buddy s) lv"
  using assms by (auto simp: run_inv_def api_inv_def)

text \<open>A step of the superblock allocator, and one of the buddy allocator.\<close>

lemma run_inv_small:
  assumes "run_inv lo sz st s H" "client w H'" "sb_grown (w_rgs (hs_world s)) (w_rgs w)"
  shows "run_inv lo sz st (s\<lparr>hs_world := w\<rparr>) H'"
proof -
  note i = run_invD [OF assms(1)]
  have "large_ok (large_arena lo) (w_rgs w)"
    using sb_grown_other [OF assms(3) client_regions(1) [OF i(6)]] by (intro large_ok_other [OF i(7)])
  moreover have "on_files lo sz (w_rgs w)" by (rule on_files_grown [OF i(2) assms(3)])
  moreover have "\<exists>lv. buddy_inv (large_arena lo) (the_buddy (s\<lparr>hs_world := w\<rparr>)) lv" using i(8) the_buddy_world by blast
  ultimately show ?thesis using i(3-5) assms(2) by (auto simp: run_inv_def api_inv_def)
qed

lemma run_inv_buddy:
  assumes "run_inv lo sz st s H" "api_inv (large_arena lo) s' H lv" "hs_world s' = hs_world s" "hs_mtx s' = hs_mtx s"
  shows "run_inv lo sz st s' H"
  using assms by (auto simp: run_inv_def)

lemma run_inv_api:
  assumes "run_inv lo sz st s H" "buddy_inv (large_arena lo) (the_buddy s) lv"
  shows "api_inv (large_arena lo) s H lv"
  using run_invD(5-7) [OF assms(1)] assms(2) by (simp add: api_inv_def)

lemma flush_upto_rgs: "flush_upto n w = Inr w' \<Longrightarrow> w_rgs w' = w_rgs w"
  by (induction n arbitrary: w') (auto simp: flush_cache_def split: if_splits dest!: flush_loop_rgs)

lemma public_flush_cache_rgs: "public_flush_cache b w = Inr w' \<Longrightarrow> w_rgs w' = w_rgs w"
  by (auto simp: public_flush_cache_def dest: flush_upto_rgs split: if_splits)

lemma run_inv_init:
  assumes "robust_mutex P st kill" "fresh_layout lo" "sized sz" "mapped_apart lo sz" "w_flist (hs_world s) = ThreadCache_init myclasssize"
    "hs_holder s = None" "BXP_init P lo sz s = Inr (r, s')"
  shows "run_inv lo sz st s' {}"
proof -
  obtain m where m: "new_mutex P (hs_mtx s) = Inr m" "st m = Held"
    using set_dirty_robust [OF assms(1)] robustD(6) [OF assms(1)] by (metis new_mutex_def)
  obtain s1 where s1: "BXP_init_body P lo sz s = Inr (0, s1)" "api_inv (large_arena lo) s1 {} (max_tiles (large_arena lo))" "hs_mtx s1 = m"
    using init_fresh [OF assms(2-5) m(1)] by blast
  then have s': "s' = s1\<lparr>hs_holder := Some 0\<rparr>" using assms(6,7) by (auto simp: BXP_init_def)
  have "the_buddy s' = the_buddy s1" by (simp add: s' the_buddy_def)
  then have "api_inv (large_arena lo) s' {} (max_tiles (large_arena lo))" using s1(2) by (simp add: api_inv_def s')
  moreover have "on_files lo sz (w_rgs (hs_world s'))" using init_on_files [OF fresh_layoutD(1) [OF assms(2)] s1(1)] by (simp add: s')
  ultimately show ?thesis using s1(3) m(2) assms(3) by (auto simp: run_inv_def s')
qed

lemma BXP_malloc_world:
  assumes "BXP_malloc s n = Inr (p, s')" "n \<le> SBSIZE"
  obtains w where "do_malloc (hs_world s) n = Inr (p, w)" "s' = s\<lparr>hs_world := w\<rparr>"
  using assms by (auto simp: BXP_malloc_def assertE_def linorder_not_less [symmetric] split: if_splits)

lemma api_run_inv:
  assumes "robust_mutex P st kill" "api_run P lo sz s H"
  shows "run_inv lo sz st s H"
  using assms(2)
proof (induction rule: api_run.induct)
  case (init s r s')
  show ?case by (rule run_inv_init [OF assms(1) init])
next
  case (malloc s H n p s')
  obtain w where w: "do_malloc (hs_world s) n = Inr (p, w)" "s' = s\<lparr>hs_world := w\<rparr>" using BXP_malloc_world [OF malloc(4,3)] .
  have "client w (insert (p, n) H)" by (rule client.malloc [OF run_invD(6) [OF malloc(5)] malloc(2,3) w(1)])
  then show ?case using run_inv_small [OF malloc(5) _ do_malloc_grown [OF w(1)]] w(2) by simp
next
  case (malloc_large s H n lv z m p s')
  from Bx_ApiProps.malloc_large [OF run_inv_api [OF malloc_large(7,4)] malloc_large(2,3,5)] malloc_large(6)
  obtain lv' where "api_inv (large_arena lo) s' H lv'" "hs_world s' = hs_world s" by auto
  moreover have "hs_mtx s' = hs_mtx s" using malloc_large(2,6) by (auto simp: BXP_malloc_def assertE_def put_buddy_def split: if_splits)
  ultimately show ?case by (rule run_inv_buddy [OF malloc_large(7)])
next
  case (free s H p n s')
  obtain lv where a: "api_inv (large_arena lo) s H lv" using run_invD(1) [OF free(4)] by blast
  obtain w where w: "do_free (hs_world s) p = Inr w" "s' = s\<lparr>hs_world := w\<rparr>"
    using free(3) in_range_small [OF a free(2)] by (auto simp: BXP_free_def assertE_def split: if_splits)
  have "client w (H - {(p, n)})" by (rule client.free [OF run_invD(6) [OF free(4)] free(2) w(1)])
  then show ?case using run_inv_small [OF free(4)] do_free_rgs [OF w(1)] w(2) by simp
next
  case (free_large s H lv x k s')
  from Bx_ApiProps.free_large [OF run_inv_api [OF free_large(6,2)] free_large(3,4)] free_large(5)
  obtain lv' where "api_inv (large_arena lo) s' H lv'" "hs_world s' = hs_world s" by auto
  moreover have "hs_mtx s' = hs_mtx s"
    using free_large(5) in_range_large [OF run_inv_api [OF free_large(6,2)] free_large(3)]
    by (auto simp: BXP_free_def assertE_def put_buddy_def split: if_splits)
  ultimately show ?case by (rule run_inv_buddy [OF free_large(6)])
next
  case (store s H p n a v)
  show ?case using run_inv_small [OF store(4) client.store [OF run_invD(6) [OF store(4)] store(2,3)]] by simp
next
  case (root s H again p i old s')
  obtain w where w: "set_root (hs_world s) p i = Inr (old, w)" "s' = s\<lparr>hs_world := w\<rparr>"
    using root(2) run_invD(5) [OF root(3)] by (auto simp: BXP_set_root_def)
  have "w_rgs w = w_rgs (hs_world s)" using w(1) by (auto simp: set_root_def Let_def)
  then show ?case using run_inv_small [OF root(3) client.root [OF run_invD(6) [OF root(3)] w(1)]] w(2) by simp
next
  case (get s H i p s')
  then have s': "s' = s\<lparr>hs_filter := (hs_filter s)[i := True]\<rparr>" by (auto simp: BXP_get_root_def assertE_def split: if_splits)
  show ?case using get(3) by (simp add: s' run_inv_def api_inv_def the_buddy_def)
next
  case (thread_end s H w)
  show ?case using run_inv_small [OF thread_end(3) client.flush [OF run_invD(6) [OF thread_end(3)] thread_end(2)]]
      public_flush_cache_rgs [OF thread_end(2)] by simp
qed

section \<open>The end of a process and the next one\<close>

text \<open>A program asks for the roots it uses, which registers their filters.\<close>

fun get_roots :: "nat list \<Rightarrow> 'm heap_state \<Rightarrow> (u64 list \<times> 'm heap_state) result" where
  "get_roots [] s = Inr ([], s)"
| "get_roots (i # rs) s = bindE (BXP_get_root s i) (\<lambda>(p, s). bindE (get_roots rs s) (\<lambda>(ps, s). Inr (p # ps, s)))"

lemma get_roots_spec:
  assumes "hs_initialized s" "\<forall>i\<in>set rs. i < MAX_ROOTS" "length (hs_filter s) = MAX_ROOTS"
  shows "\<exists>fs. get_roots rs s = Inr (map (\<lambda>i. crossptr_get (w_rgs (hs_world s)) SB_IDX (w_roots (hs_world s) ! i)) rs, s\<lparr>hs_filter := fs\<rparr>)
    \<and> length fs = MAX_ROOTS \<and> (\<forall>i<MAX_ROOTS. i \<in> set rs \<or> hs_filter s ! i \<longrightarrow> fs ! i)"
  using assms
proof (induction rs arbitrary: s)
  case Nil
  then show ?case by (intro exI [of _ "hs_filter s"]) simp
next
  case (Cons i rs)
  let ?s = "s\<lparr>hs_filter := (hs_filter s)[i := True]\<rparr>"
  have g: "BXP_get_root s i = Inr (crossptr_get (w_rgs (hs_world s)) SB_IDX (w_roots (hs_world s) ! i), ?s)"
    using Cons.prems by (simp add: BXP_get_root_def get_root_def assertE_def)
  have "hs_initialized ?s" "\<forall>i\<in>set rs. i < MAX_ROOTS" "length (hs_filter ?s) = MAX_ROOTS" using Cons.prems by simp_all
  from Cons.IH [OF this] obtain fs where fs: "get_roots rs ?s = Inr (map (\<lambda>i. crossptr_get (w_rgs (hs_world s)) SB_IDX (w_roots (hs_world s) ! i)) rs, s\<lparr>hs_filter := fs\<rparr>)"
    "length fs = MAX_ROOTS" "\<forall>j<MAX_ROOTS. j \<in> set rs \<or> (hs_filter s)[i := True] ! j \<longrightarrow> fs ! j" by auto
  have "\<forall>j<MAX_ROOTS. j \<in> set (i # rs) \<or> hs_filter s ! j \<longrightarrow> fs ! j"
    using fs(3) Cons.prems(3) by (metis nth_list_update nth_list_update_neq set_ConsD)
  then show ?case using g fs(1,2) by (intro exI [of _ fs]) simp
qed

lemma the_buddy_filter: "buddy_inv A (the_buddy (s\<lparr>hs_filter := fs\<rparr>)) lv = buddy_inv A (the_buddy s) lv"
  by (simp add: the_buddy_def)

lemma BXP_recover_robust:
  assumes "robust_mutex P st kill"
  shows "st (hs_mtx s) = Free \<Longrightarrow> \<exists>m. BXP_recover P s = Inr (0, s\<lparr>hs_mtx := m\<rparr>) \<and> st m = Held"
    "st (hs_mtx s) = Dead \<Longrightarrow> GarbageCollection (hs_world s) (hs_filter s) = Inr w \<Longrightarrow>
      \<exists>m. BXP_recover P s = Inr (1, s\<lparr>hs_mtx := m, hs_world := w\<rparr>) \<and> st m = Held"
proof -
  note r = restart_robust [OF assms, where m = "hs_mtx s" and rf = "hs_filter s" and w = "hs_world s"]
  show "\<exists>m. BXP_recover P s = Inr (0, s\<lparr>hs_mtx := m\<rparr>) \<and> st m = Held" if f: "st (hs_mtx s) = Free"
  proof -
    obtain m where "restart P (hs_filter s) (hs_mtx s, hs_world s) = Inr (False, m, hs_world s)" "st m = Held"
      using r f by (auto split: sum.splits if_splits)
    then show ?thesis by (intro exI [of _ m]) (simp add: BXP_recover_def)
  qed
  show "\<exists>m. BXP_recover P s = Inr (1, s\<lparr>hs_mtx := m, hs_world := w\<rparr>) \<and> st m = Held"
    if d: "st (hs_mtx s) = Dead" "GarbageCollection (hs_world s) (hs_filter s) = Inr w"
  proof -
    obtain m where "restart P (hs_filter s) (hs_mtx s, hs_world s) = Inr (True, m, w)" "st m = Held"
      using r d by (auto split: sum.splits if_splits)
    then show ?thesis by (intro exI [of _ m]) (simp add: BXP_recover_def)
  qed
qed

text \<open>Without cached blocks a new process finds the heap of the old one.\<close>

lemma client_inv_crashed:
  assumes "client_inv w g H" "\<forall>c<NLIST. g_cache g c = []"
  shows "client_inv (crashed w) g H"
proof -
  have "heap_inv w g" using assms(1) by (simp add: client_inv_def)
  then have "heap_inv (crashed w) g"
    using inv_cache_new [OF assms(2)] by (simp add: heap_inv_def crashed_def inv_part_def phead_def)
  then show ?thesis using assms(1) by (simp add: client_inv_def crashed_def)
qed

lemma holder_delete:
  assumes "on_files lo sz (w_rgs (hs_world s))"
  shows "\<exists>ls s'. bxallocHolder_delete P lo s = Inr (ls, s') \<and> hs_mtx s' = mutex_unlock P (hs_mtx s)"
proof -
  have "\<exists>l. Regions_flush_region (w_rgs (hs_world s)) i = Inr l" for i
    by (rule on_filesE [OF assms, of i]) (simp add: Regions_flush_region_def Let_def)
  then obtain l1 l2 where "Regions_flush_region (w_rgs (hs_world s)) DESC_IDX = Inr l1" "Regions_flush_region (w_rgs (hs_world s)) SB_IDX = Inr l2" by metis
  then show ?thesis by (simp add: bxallocHolder_delete_def Let_def writeback_def set_clean_def)
qed

section \<open>Properties\<close>


text \<open>The heap of two gigabytes at the addresses of \<open>sample_layout\<close>, before its first request.\<close>

lemma sample_run:
  obtains s where "api_run sample_pthread sample_layout 0x80000000 s {}" "api_inv (large_arena sample_layout) s {} (max_tiles (large_arena sample_layout))"
    "used (large_arena sample_layout) (hs_hdr s) (max_tiles (large_arena sample_layout)) = {}" "\<not> exhausted (hs_world s)"
    "w_roots (hs_world s) = replicate MAX_ROOTS 0"
proof -
  let ?A = "large_arena sample_layout"
  obtain s1 where s1: "BXP_init_body sample_pthread sample_layout 0x80000000 sample_start = Inr (0, s1)" "api_inv ?A s1 {} (max_tiles ?A)"
      "used ?A (hs_hdr s1) (max_tiles ?A) = {}" "\<not> exhausted (hs_world s1)" "w_roots (hs_world s1) = replicate MAX_ROOTS 0"
    using init_fresh [OF sample_fresh_layout] by blast
  let ?s = "s1\<lparr>hs_holder := Some 0\<rparr>"
  have h: "hs_holder sample_start = None" by (simp add: sample_start_def)
  then have "BXP_init sample_pthread sample_layout 0x80000000 sample_start = Inr (0, ?s)" using s1(1) by (simp add: BXP_init_def)
  then have run: "api_run sample_pthread sample_layout 0x80000000 ?s {}" by (rule api_run.init [OF sample_fresh_layout(1-4) h])
  have "the_buddy ?s = the_buddy s1" by (simp add: the_buddy_def)
  then show thesis using s1(2-5) by (intro that [OF run]) (simp_all add: api_inv_def)
qed




end
