(* ===== verification/Bx_PartialList.thy ===== *)
theory Bx_PartialList
  imports Bx_BaseMeta
begin

text \<open>
  The partial list of one heap under concurrency: \<open>heap_push_partial\<close> and \<open>heap_pop_partial\<close>
  (\<open>src/src/BaseMeta.cpp\<close>) as the sequences of their atomic accesses, interleaved by any number of
  threads, with weak exchanges that may fail without reason.  The result is that every execution
  is one of a sequential stack, as long as fewer than \<open>2^34\<close> pushes have been made: the counter
  beside the pointer then rules out that an exchange succeeds on a list that has changed.
\<close>

section \<open>Threads and their steps\<close>

text \<open>
  Where a thread stands: outside both functions, before the store of the link and before the
  exchange of a push of \<open>d\<close>, before the load of the link and before the exchange of a pop.  The
  counted pointer is the local \<open>oldhead\<close>.
\<close>

datatype pl_pc = Outside | PushStore u64 ptr_cnt | PushCas u64 ptr_cnt | PopNext ptr_cnt | PopCas ptr_cnt u64

record plist =
  pl_cell :: u64
  pl_next :: "u64 \<Rightarrow> u64"
  pl_pc :: "nat \<Rightarrow> pl_pc"

text \<open>A completed call: a push of a descriptor, a pop with its result (0 is the null pointer).\<close>

datatype pl_event = Pushed nat u64 | Popped nat u64

definition to_pc :: "nat \<Rightarrow> pl_pc \<Rightarrow> plist \<Rightarrow> plist" where
  "to_pc t c s = s\<lparr>pl_pc := (pl_pc s)(t := c)\<rparr>"

definition push_begin :: "regions \<Rightarrow> nat \<Rightarrow> u64 \<Rightarrow> plist \<Rightarrow> plist" where
  "push_begin R t d s = to_pc t (PushStore d (acpc_load R DESC_IDX (pl_cell s))) s"

text \<open>The head of the loop of a pop, with the value of \<open>oldhead\<close> just obtained.\<close>

definition pop_round :: "nat \<Rightarrow> ptr_cnt \<Rightarrow> plist \<Rightarrow> pl_event option \<times> plist" where
  "pop_round t oldhead s =
     (if pc_ptr oldhead = 0 then (Some (Popped t 0), to_pc t Outside s) else (None, to_pc t (PopNext oldhead) s))"

definition pop_begin :: "regions \<Rightarrow> nat \<Rightarrow> plist \<Rightarrow> pl_event option \<times> plist" where
  "pop_begin R t s = pop_round t (acpc_load R DESC_IDX (pl_cell s)) s"

definition pl_step :: "regions \<Rightarrow> bool \<Rightarrow> nat \<Rightarrow> plist \<Rightarrow> pl_event option \<times> plist" where
  "pl_step R spurious t s =
     (case pl_pc s t of
        Outside \<Rightarrow> (None, s)
      | PushStore d oldhead \<Rightarrow>
          (None, to_pc t (PushCas d oldhead) (s\<lparr>pl_next := (pl_next s)(d := atomic_pptr_store (d + 8) (pc_ptr oldhead))\<rparr>))
      | PushCas d oldhead \<Rightarrow>
          (case acpc_compare_exchange_weak R DESC_IDX spurious (pl_cell s) oldhead (ptr_cnt_set d (pc_cnt oldhead + 1)) of
             (ok, cell, seen) \<Rightarrow>
               if ok then (Some (Pushed t d), to_pc t Outside (s\<lparr>pl_cell := cell\<rparr>)) else (None, to_pc t (PushStore d seen) s))
      | PopNext oldhead \<Rightarrow>
          (None, to_pc t (PopCas oldhead (atomic_pptr_load (pc_ptr oldhead + 8) (pl_next s (pc_ptr oldhead)))) s)
      | PopCas oldhead desc \<Rightarrow>
          (case acpc_compare_exchange_weak R DESC_IDX spurious (pl_cell s) oldhead (ptr_cnt_set desc (pc_cnt oldhead)) of
             (ok, cell, seen) \<Rightarrow>
               if ok then (Some (Popped t (pc_ptr oldhead)), to_pc t Outside (s\<lparr>pl_cell := cell\<rparr>)) else pop_round t seen s))"

section \<open>Executions\<close>

text \<open>
  A thread pushes only descriptors it owns (of superblocks that no other thread and no list has)
  and owns what it pops.  \<open>own\<close> is the ownership, the list holds the completed calls in order.
\<close>

fun gain :: "pl_event option \<Rightarrow> (nat \<Rightarrow> u64 set) \<Rightarrow> nat \<Rightarrow> u64 set" where
  "gain (Some (Popped t d)) own = (if d = 0 then own else own(t := insert d (own t)))"
| "gain (Some (Pushed t d)) own = own"
| "gain None own = own"

fun log_event :: "pl_event option \<Rightarrow> pl_event list \<Rightarrow> pl_event list" where
  "log_event None es = es"
| "log_event (Some e) es = es @ [e]"

inductive pl_run :: "regions \<Rightarrow> (nat \<Rightarrow> u64 set) \<Rightarrow> plist \<Rightarrow> (nat \<Rightarrow> u64 set) \<Rightarrow> pl_event list \<Rightarrow> bool"
  for R own0 where
  start: "pl_run R own0 \<lparr>pl_cell = acpc_store R DESC_IDX (ptr_cnt_set 0 0), pl_next = nx, pl_pc = \<lambda>_. Outside\<rparr> own0 []"
| push: "pl_run R own0 s own es \<Longrightarrow> pl_pc s t = Outside \<Longrightarrow> d \<in> own t \<Longrightarrow>
    pl_run R own0 (push_begin R t d s) (own(t := own t - {d})) es"
| pop: "pl_run R own0 s own es \<Longrightarrow> pl_pc s t = Outside \<Longrightarrow> pop_begin R t s = (e, s') \<Longrightarrow>
    pl_run R own0 s' (gain e own) (log_event e es)"
| step: "pl_run R own0 s own es \<Longrightarrow> pl_step R spurious t s = (e, s') \<Longrightarrow>
    pl_run R own0 s' (gain e own) (log_event e es)"

text \<open>The sequential stack: what a completed call does, or \<open>None\<close> if it cannot have its result.\<close>

fun stack_step :: "pl_event \<Rightarrow> u64 list \<Rightarrow> u64 list option" where
  "stack_step (Pushed t d) st = Some (d # st)"
| "stack_step (Popped t d) st =
     (case st of [] \<Rightarrow> if d = 0 then Some [] else None | x # xs \<Rightarrow> if x = d then Some xs else None)"

fun stack_run :: "pl_event list \<Rightarrow> u64 list \<Rightarrow> u64 list option" where
  "stack_run [] st = Some st"
| "stack_run (e # es) st = (case stack_step e st of None \<Rightarrow> None | Some st' \<Rightarrow> stack_run es st')"

fun is_push :: "pl_event \<Rightarrow> bool" where
  "is_push (Pushed t d) = True"
| "is_push (Popped t d) = False"

lemma stack_run_snoc: "stack_run (es @ [e]) st = (case stack_run es st of None \<Rightarrow> None | Some st' \<Rightarrow> stack_step e st')"
  by (induction es arbitrary: st) (auto split: option.splits)

section \<open>The invariant\<close>

text \<open>A descriptor behind the first one, at a canonical address.\<close>

definition good_desc :: "regions \<Rightarrow> u64 \<Rightarrow> bool" where
  "good_desc R d \<longleftrightarrow> d \<noteq> 0 \<and> canonical d \<and> canonical (d + 8)
     \<and> 0 < unat (d - Regions_lookup R DESC_IDX) \<and> unat (d - Regions_lookup R DESC_IDX) < 2 ^ 30"

definition link :: "plist \<Rightarrow> u64 \<Rightarrow> u64" where
  "link s d = atomic_pptr_load (d + 8) (pl_next s d)"

definition top_of :: "u64 list \<Rightarrow> u64" where
  "top_of st = (case st of [] \<Rightarrow> 0 | d # _ \<Rightarrow> d)"

fun linked :: "plist \<Rightarrow> u64 list \<Rightarrow> bool" where
  "linked s [] \<longleftrightarrow> True"
| "linked s (d # st) \<longleftrightarrow> link s d = top_of st \<and> linked s st"

fun in_flight :: "pl_pc \<Rightarrow> u64 set" where
  "in_flight (PushStore d oldhead) = {d}"
| "in_flight (PushCas d oldhead) = {d}"
| "in_flight _ = {}"

text \<open>What a thread knows: a link it has read is still right if the counter and the list have not moved on.\<close>

definition seen_ok :: "regions \<Rightarrow> nat \<Rightarrow> ptr_cnt \<Rightarrow> bool" where
  "seen_ok R n old \<longleftrightarrow> unat (pc_cnt old) \<le> n \<and> (pc_ptr old \<noteq> 0 \<longrightarrow> good_desc R (pc_ptr old))"

fun pc_ok :: "regions \<Rightarrow> plist \<Rightarrow> u64 list \<Rightarrow> nat \<Rightarrow> pl_pc \<Rightarrow> bool" where
  "pc_ok R s st n Outside \<longleftrightarrow> True"
| "pc_ok R s st n (PushStore d old) \<longleftrightarrow> seen_ok R n old"
| "pc_ok R s st n (PushCas d old) \<longleftrightarrow> seen_ok R n old \<and> link s d = pc_ptr old"
| "pc_ok R s st n (PopNext old) \<longleftrightarrow> seen_ok R n old \<and> pc_ptr old \<noteq> 0"
| "pc_ok R s st n (PopCas old nx) \<longleftrightarrow> seen_ok R n old \<and> pc_ptr old \<noteq> 0
     \<and> (unat (pc_cnt old) = n \<and> pc_ptr old \<in> set st \<longrightarrow> link s (pc_ptr old) = nx)"

text \<open>The descriptors a thread has: those it owns and the one it is pushing.\<close>

definition held :: "plist \<Rightarrow> (nat \<Rightarrow> u64 set) \<Rightarrow> nat \<Rightarrow> u64 set" where
  "held s own t = own t \<union> in_flight (pl_pc s t)"

definition own_ok :: "regions \<Rightarrow> plist \<Rightarrow> (nat \<Rightarrow> u64 set) \<Rightarrow> u64 list \<Rightarrow> bool" where
  "own_ok R s own st \<longleftrightarrow> distinct st \<and> (\<forall>d\<in>set st. good_desc R d) \<and> (\<forall>t. \<forall>d\<in>held s own t. good_desc R d \<and> d \<notin> set st)
     \<and> (\<forall>t t' d. d \<in> held s own t \<and> d \<in> held s own t' \<longrightarrow> t = t') \<and> (\<forall>t. own t \<inter> in_flight (pl_pc s t) = {})"

definition pl_inv :: "regions \<Rightarrow> plist \<Rightarrow> (nat \<Rightarrow> u64 set) \<Rightarrow> u64 list \<Rightarrow> nat \<Rightarrow> bool" where
  "pl_inv R s own st n \<longleftrightarrow> n < 2 ^ 34 \<and> pl_cell s = acpc_pack R DESC_IDX \<lparr>pc_ptr = top_of st, pc_cnt = of_nat n\<rparr>
     \<and> linked s st \<and> (\<forall>t. pc_ok R s st n (pl_pc s t)) \<and> own_ok R s own st"

section \<open>Preservation\<close>

lemma to_pc_simps [simp]:
  "pl_cell (to_pc t c s) = pl_cell s" "pl_next (to_pc t c s) = pl_next s" "pl_pc (to_pc t c s) = (pl_pc s)(t := c)"
  by (simp_all add: to_pc_def)

lemma link_cong: "pl_next s = pl_next s' \<Longrightarrow> link s = link s'"
  by (simp add: link_def fun_eq_iff)

lemma linked_cong: "(\<And>d. d \<in> set st \<Longrightarrow> link s d = link s' d) \<Longrightarrow> linked s st = linked s' st"
  by (induction st) auto

lemma pc_ok_cong:
  assumes "\<And>d. d \<in> set st \<union> in_flight c \<Longrightarrow> link s d = link s' d"
  shows "pc_ok R s st n c = pc_ok R s' st n c"
  using assms by (cases c) auto

lemma head_fits:
  assumes "pl_inv R s own st n"
  shows "acpc_fits R DESC_IDX \<lparr>pc_ptr = top_of st, pc_cnt = of_nat n\<rparr>" "seen_ok R n \<lparr>pc_ptr = top_of st, pc_cnt = of_nat n\<rparr>"
    "acpc_load R DESC_IDX (pl_cell s) = \<lparr>pc_ptr = top_of st, pc_cnt = of_nat n\<rparr>"
proof -
  have n: "n < 2 ^ 34" "unat (of_nat n :: u64) = n" using assms by (simp_all add: pl_inv_def unsigned_of_nat take_bit_nat_eq_self)
  have g: "good_desc R (top_of st)" if "top_of st \<noteq> 0" using assms that by (cases st) (auto simp: pl_inv_def own_ok_def top_of_def)
  show f: "acpc_fits R DESC_IDX \<lparr>pc_ptr = top_of st, pc_cnt = of_nat n\<rparr>" using n g by (simp add: acpc_fits_def good_desc_def)
  show "seen_ok R n \<lparr>pc_ptr = top_of st, pc_cnt = of_nat n\<rparr>" using n g by (simp add: seen_ok_def)
  show "acpc_load R DESC_IDX (pl_cell s) = \<lparr>pc_ptr = top_of st, pc_cnt = of_nat n\<rparr>"
    using assms acpc_unpack_pack [OF f] by (simp add: pl_inv_def acpc_load_def)
qed

text \<open>An exchange that succeeds has found exactly the counted pointer it expects.\<close>

lemma cas_success:
  assumes "pl_inv R s own st n" "seen_ok R n old" "acpc_pack R DESC_IDX old = pl_cell s"
  shows "pc_ptr old = top_of st" "unat (pc_cnt old) = n"
proof -
  have n: "n < 2 ^ 34" using assms(1) by (simp add: pl_inv_def)
  have "acpc_fits R DESC_IDX old" using assms(2) n by (auto simp: acpc_fits_def seen_ok_def good_desc_def)
  then have "old = \<lparr>pc_ptr = top_of st, pc_cnt = of_nat n\<rparr>"
    using acpc_pack_inj [OF _ head_fits(1) [OF assms(1)]] assms(1,3) by (simp add: pl_inv_def)
  then show "pc_ptr old = top_of st" "unat (pc_cnt old) = n" using n by (simp_all add: unsigned_of_nat take_bit_nat_eq_self)
qed

lemma own_okD:
  assumes "own_ok R s own st"
  shows "distinct st" "d \<in> set st \<Longrightarrow> good_desc R d" "d \<in> held s own t \<Longrightarrow> good_desc R d" "d \<in> held s own t \<Longrightarrow> d \<notin> set st"
    "d \<in> held s own t \<Longrightarrow> d \<in> held s own t' \<Longrightarrow> t = t'" "d \<in> own t \<Longrightarrow> d \<notin> in_flight (pl_pc s t)"
proof -
  show "distinct st" "d \<in> set st \<Longrightarrow> good_desc R d" "d \<in> held s own t \<Longrightarrow> good_desc R d" "d \<in> held s own t \<Longrightarrow> d \<notin> set st"
    using assms by (simp_all add: own_ok_def)
  show "t = t'" if "d \<in> held s own t" "d \<in> held s own t'" using assms that unfolding own_ok_def by blast
  show "d \<notin> in_flight (pl_pc s t)" if "d \<in> own t" using assms that unfolding own_ok_def by blast
qed

lemma own_okI:
  assumes "distinct st" "\<And>d. d \<in> set st \<Longrightarrow> good_desc R d" "\<And>t d. d \<in> held s own t \<Longrightarrow> good_desc R d \<and> d \<notin> set st"
    "\<And>t t' d. d \<in> held s own t \<Longrightarrow> d \<in> held s own t' \<Longrightarrow> t = t'" "\<And>t d. d \<in> own t \<Longrightarrow> d \<notin> in_flight (pl_pc s t)"
  shows "own_ok R s own st"
  unfolding own_ok_def using assms by blast

lemma own_move:
  assumes "own_ok R s own st" "S \<union> in_flight c = held s own t" "S \<inter> in_flight c = {}" "pl_pc s' = (pl_pc s)(t := c)"
  shows "own_ok R s' (own(t := S)) st"
proof -
  have "held s' (own(t := S)) u = held s own u" for u using assms(2,4) by (simp add: held_def)
  then show ?thesis using assms(1,3,4) by (auto simp: own_ok_def)
qed

lemma own_push:
  assumes "own_ok R s own st" "in_flight (pl_pc s t) = {d}" "pl_pc s' = (pl_pc s)(t := Outside)"
  shows "own_ok R s' own (d # st)"
proof -
  note i = own_okD [OF assms(1)]
  have d: "d \<notin> own t" "d \<in> held s own t" using i(6) [of d t] assms(2) by (auto simp: held_def)
  have h: "held s' own u = held s own u - (if u = t then {d} else {})" for u
    using assms(2,3) d(1) by (auto simp: held_def)
  then have h': "x \<in> held s own u \<and> x \<noteq> d" if "x \<in> held s' own u" for x u
    using that i(5) [OF d(2), of u] by (auto split: if_splits)
  show ?thesis
  proof (rule own_okI)
    show "good_desc R x \<and> x \<notin> set (d # st)" if "x \<in> held s' own u" for x u using h' [OF that] i(3,4) by auto
    show "u = u'" if "x \<in> held s' own u" "x \<in> held s' own u'" for x u u' using h' that i(5) by blast
    show "x \<notin> in_flight (pl_pc s' u)" if "x \<in> own u" for x u using that assms(3) i(6) by simp
  qed (use i(1-4) d(2) in auto)
qed

lemma own_pop:
  assumes "own_ok R s own (d # st)" "in_flight (pl_pc s t) = {}" "pl_pc s' = (pl_pc s)(t := Outside)"
  shows "own_ok R s' (own(t := insert d (own t))) st"
proof -
  note i = own_okD [OF assms(1)]
  let ?own = "own(t := insert d (own t))"
  have h: "x \<in> held s own u \<or> x = d \<and> u = t" if "x \<in> held s' ?own u" for x u
    using that assms(2,3) by (auto simp: held_def split: if_splits)
  have n: "d \<notin> held s own u" for u using i(4) [of d u] by auto
  show ?thesis
  proof (rule own_okI)
    show "good_desc R x \<and> x \<notin> set st" if "x \<in> held s' ?own u" for x u using h [OF that] i(1-4) by auto
    show "u = u'" if "x \<in> held s' ?own u" "x \<in> held s' ?own u'" for x u u' using h [OF that(1)] h [OF that(2)] i(5) n by blast
    show "x \<notin> in_flight (pl_pc s' u)" if "x \<in> ?own u" for x u using that assms(3) i(6) by (simp split: if_splits)
  qed (use i(1,2) in auto)
qed

text \<open>A step that changes neither the list nor a link: the thread moves and descriptors change hands inside it.\<close>

lemma inv_to_pc:
  assumes "pl_inv R s own st n" "pc_ok R s st n c" "own_ok R (to_pc t c s) own' st"
  shows "pl_inv R (to_pc t c s) own' st n"
proof -
  have l: "link (to_pc t c s) = link s" by (rule link_cong) simp
  have "linked (to_pc t c s) st = linked s st" "pc_ok R (to_pc t c s) st n c' = pc_ok R s st n c'" for c'
    by (rule linked_cong pc_ok_cong, simp add: l)+
  then show ?thesis using assms by (simp add: pl_inv_def)
qed

lemma inv_same_hold:
  assumes "pl_inv R s own st n" "pc_ok R s st n c" "in_flight c = in_flight (pl_pc s t)"
  shows "pl_inv R (to_pc t c s) own st n"
proof (rule inv_to_pc [OF assms(1,2)])
  have "own_ok R s own st" "own t \<inter> in_flight c = {}" using assms(1,3) by (auto simp: pl_inv_def own_ok_def)
  then have "own_ok R (to_pc t c s) (own(t := own t)) st" using assms(3) by (intro own_move [where t = t and c = c]) (simp_all add: held_def)
  then show "own_ok R (to_pc t c s) own st" by simp
qed

text \<open>Every step keeps the invariant and is silent or what the stack does.\<close>

definition simulates :: "regions \<Rightarrow> (nat \<Rightarrow> u64 set) \<Rightarrow> u64 list \<Rightarrow> nat \<Rightarrow> pl_event option \<Rightarrow> plist \<Rightarrow> bool" where
  "simulates R own st n e s' \<longleftrightarrow>
     (case e of None \<Rightarrow> pl_inv R s' own st n
      | Some v \<Rightarrow> (if is_push v \<and> \<not> n + 1 < 2 ^ 34 then True
          else \<exists>st'. stack_step v st = Some st' \<and> pl_inv R s' (gain e own) st' (if is_push v then n + 1 else n)))"

lemma pop_round_ok:
  assumes "pl_inv R s own st n" "in_flight (pl_pc s t) = {}"
  shows "case pop_round t \<lparr>pc_ptr = top_of st, pc_cnt = of_nat n\<rparr> s of (e, s') \<Rightarrow> simulates R own st n e s'"
proof (cases "top_of st = 0")
  case True
  have "st = []" using True assms(1) by (cases st) (auto simp: top_of_def pl_inv_def own_ok_def good_desc_def)
  then show ?thesis using True inv_same_hold [OF assms(1), of Outside t] assms(2) by (simp add: pop_round_def simulates_def)
next
  case False
  then show ?thesis using inv_same_hold [OF assms(1), of "PopNext \<lparr>pc_ptr = top_of st, pc_cnt = of_nat n\<rparr>" t] assms(2) head_fits(2) [OF assms(1)]
    by (simp add: pop_round_def simulates_def)
qed

lemma push_store_ok:
  assumes "pl_inv R s own st n" "pl_pc s t = PushStore d old"
  shows "pl_inv R (to_pc t (PushCas d old) (s\<lparr>pl_next := (pl_next s)(d := atomic_pptr_store (d + 8) (pc_ptr old))\<rparr>)) own st n"
proof -
  let ?s = "s\<lparr>pl_next := (pl_next s)(d := atomic_pptr_store (d + 8) (pc_ptr old))\<rparr>"
  have i: "\<And>u. pc_ok R s st n (pl_pc s u)" "own_ok R s own st" "linked s st" using assms(1) by (simp_all add: pl_inv_def)
  have so: "seen_ok R n old" using i(1) [of t] assms(2) by simp
  have d: "d \<in> held s own t" using assms(2) by (simp add: held_def)
  note o = own_okD [OF i(2)]
  have g: "good_desc R d" "d \<notin> set st" using o(3,4) d by auto
  have other: "d \<notin> in_flight (pl_pc s u)" if "u \<noteq> t" for u using o(5) [OF d, of u] that by (auto simp: held_def)
  have ld: "link ?s d = pc_ptr old"
    using g(1) so by (cases "pc_ptr old = 0") (simp_all add: link_def atomic_pptr_load_def atomic_pptr_store_def good_desc_def seen_ok_def)
  have lo: "link ?s e = link s e" if "e \<noteq> d" for e using that by (simp add: link_def)
  have "linked ?s st" using i(3) linked_cong [of st ?s s] lo g(2) by metis
  moreover have "pc_ok R ?s st n (pl_pc s u)" for u
  proof (cases "u = t")
    case True
    then show ?thesis using so assms(2) by simp
  next
    case False
    have "pc_ok R ?s st n (pl_pc s u) = pc_ok R s st n (pl_pc s u)"
    proof (rule pc_ok_cong, rule lo)
      fix e assume "e \<in> set st \<union> in_flight (pl_pc s u)"
      then show "e \<noteq> d" using other [OF False] g(2) by auto
    qed
    then show ?thesis using i(1) by simp
  qed
  moreover have "own_ok R ?s own st" using own_move [OF i(2), of "own t" "pl_pc s t" t ?s] i(2) by (simp add: held_def own_ok_def)
  ultimately have "pl_inv R ?s own st n" using assms(1) by (simp add: pl_inv_def)
  then show ?thesis by (rule inv_same_hold) (use so ld assms(2) in simp_all)
qed


lemma push_success_ok:
  assumes "pl_inv R s own st n" "pl_pc s t = PushCas d old" "acpc_pack R DESC_IDX old = pl_cell s" "n + 1 < 2 ^ 34"
  shows "pl_inv R (to_pc t Outside (s\<lparr>pl_cell := acpc_pack R DESC_IDX (ptr_cnt_set d (pc_cnt old + 1))\<rparr>)) own (d # st) (n + 1)"
proof -
  let ?s = "to_pc t Outside (s\<lparr>pl_cell := acpc_pack R DESC_IDX (ptr_cnt_set d (pc_cnt old + 1))\<rparr>)"
  have i: "\<And>u. pc_ok R s st n (pl_pc s u)" "own_ok R s own st" "linked s st" using assms(1) by (simp_all add: pl_inv_def)
  have so: "seen_ok R n old" "link s d = pc_ptr old" using i(1) [of t] assms(2) by simp_all
  note c = cas_success [OF assms(1) so(1) assms(3)]
  have cnt: "pc_cnt old + 1 = of_nat (n + 1)" using c(2) by (auto simp: add.commute)
  have l: "link ?s = link s" by (rule link_cong) simp
  have "linked ?s (d # st)" using i(3) so(2) c(1) linked_cong [of st ?s s] l by simp
  moreover have "pc_ok R ?s (d # st) (n + 1) (pl_pc ?s u)" for u
  proof (cases "u = t")
    case False
    have "pc_ok R s st n c \<Longrightarrow> pc_ok R ?s (d # st) (n + 1) c" for c using l by (cases c) (auto simp: seen_ok_def)
    then show ?thesis using i(1) [of u] False by simp
  qed simp
  moreover have "own_ok R ?s own (d # st)" using own_push [OF i(2), of t d ?s] assms(2) by simp
  moreover have "pl_cell ?s = acpc_pack R DESC_IDX \<lparr>pc_ptr = top_of (d # st), pc_cnt = of_nat (n + 1)\<rparr>"
    unfolding cnt ptr_cnt_set_def top_of_def by simp
  ultimately show ?thesis using assms(4) unfolding pl_inv_def by blast
qed

lemma pop_success_ok:
  assumes "pl_inv R s own st n" "pl_pc s t = PopCas old nx" "acpc_pack R DESC_IDX old = pl_cell s"
  shows "\<exists>st'. st = pc_ptr old # st'
    \<and> pl_inv R (to_pc t Outside (s\<lparr>pl_cell := acpc_pack R DESC_IDX (ptr_cnt_set nx (pc_cnt old))\<rparr>)) (own(t := insert (pc_ptr old) (own t))) st' n"
proof -
  let ?s = "to_pc t Outside (s\<lparr>pl_cell := acpc_pack R DESC_IDX (ptr_cnt_set nx (pc_cnt old))\<rparr>)"
  have i: "\<And>u. pc_ok R s st n (pl_pc s u)" "own_ok R s own st" "linked s st" "n < 2 ^ 34" using assms(1) by (simp_all add: pl_inv_def)
  have so: "seen_ok R n old" "pc_ptr old \<noteq> 0" "unat (pc_cnt old) = n \<and> pc_ptr old \<in> set st \<longrightarrow> link s (pc_ptr old) = nx"
    using i(1) [of t] assms(2) by simp_all
  note c = cas_success [OF assms(1) so(1) assms(3)]
  obtain st' where st: "st = pc_ptr old # st'" using c(1) so(2) by (cases st) (auto simp: top_of_def)
  have nx: "nx = top_of st'" using so(3) c(2) i(3) st by simp
  have cnt: "pc_cnt old = of_nat n" using c(2) by auto
  have l: "link ?s = link s" by (rule link_cong) simp
  have "linked ?s st'" using i(3) st linked_cong [of st' ?s s] l by simp
  moreover have "pc_ok R ?s st' n (pl_pc ?s u)" for u
  proof (cases "u = t")
    case False
    have "pc_ok R s st n c \<Longrightarrow> pc_ok R ?s st' n c" for c using l st by (cases c) auto
    then show ?thesis using i(1) [of u] False by simp
  qed simp
  moreover have "own_ok R ?s (own(t := insert (pc_ptr old) (own t))) st'"
    using own_pop [OF i(2) [unfolded st], of t ?s] assms(2) by simp
  ultimately show ?thesis using st i(4) nx cnt by (intro exI [of _ st']) (simp add: pl_inv_def ptr_cnt_set_def)
qed

lemma pl_step_simulates:
  assumes "pl_inv R s own st n" "pl_step R spurious t s = (e, s')"
  shows "simulates R own st n e s'"
proof -
  have i: "pc_ok R s st n (pl_pc s t)" using assms(1) by (simp add: pl_inv_def)
  note hd = head_fits [OF assms(1), unfolded acpc_load_def]
  show ?thesis
  proof (cases "pl_pc s t")
    case Outside
    then show ?thesis using assms by (auto simp: pl_step_def simulates_def)
  next
    case (PushStore d old)
    then show ?thesis using assms(2) push_store_ok [OF assms(1) PushStore] by (auto simp: pl_step_def simulates_def)
  next
    case (PopNext old)
    then have "pl_inv R (to_pc t (PopCas old (link s (pc_ptr old))) s) own st n" using i by (intro inv_same_hold [OF assms(1)]) simp_all
    then show ?thesis using assms(2) PopNext by (auto simp: pl_step_def simulates_def link_def)
  next
    case (PushCas d old)
    show ?thesis
    proof (cases "pl_cell s = acpc_pack R DESC_IDX old \<and> \<not> spurious")
      case True
      then show ?thesis using assms(2) PushCas push_success_ok [OF assms(1) PushCas]
        by (auto simp: pl_step_def acpc_compare_exchange_weak_def simulates_def)
    next
      case False
      have "pl_inv R (to_pc t (PushStore d (acpc_unpack R DESC_IDX (pl_cell s))) s) own st n"
        using hd PushCas by (intro inv_same_hold [OF assms(1)]) simp_all
      then show ?thesis using False assms(2) PushCas by (auto simp: pl_step_def acpc_compare_exchange_weak_def simulates_def)
    qed
  next
    case (PopCas old nx)
    show ?thesis
    proof (cases "pl_cell s = acpc_pack R DESC_IDX old \<and> \<not> spurious")
      case True
      have "pc_ptr old \<noteq> 0" using i PopCas by simp
      then show ?thesis using True assms(2) PopCas pop_success_ok [OF assms(1) PopCas]
        by (auto simp: pl_step_def acpc_compare_exchange_weak_def simulates_def)
    next
      case False
      then have "pop_round t \<lparr>pc_ptr = top_of st, pc_cnt = of_nat n\<rparr> s = (e, s')"
        using assms(2) PopCas hd(3) by (auto simp: pl_step_def acpc_compare_exchange_weak_def)
      then show ?thesis using pop_round_ok [OF assms(1), of t] PopCas by simp
    qed
  qed
qed


lemma push_begin_ok:
  assumes "pl_inv R s own st n" "pl_pc s t = Outside" "d \<in> own t"
  shows "pl_inv R (push_begin R t d s) (own(t := own t - {d})) st n"
  unfolding push_begin_def head_fits(3) [OF assms(1)]
proof (rule inv_to_pc [OF assms(1)])
  show "pc_ok R s st n (PushStore d \<lparr>pc_ptr = top_of st, pc_cnt = of_nat n\<rparr>)" using head_fits(2) [OF assms(1)] by simp
  have "own_ok R s own st" using assms(1) by (simp add: pl_inv_def)
  then show "own_ok R (to_pc t (PushStore d \<lparr>pc_ptr = top_of st, pc_cnt = of_nat n\<rparr>) s) (own(t := own t - {d})) st"
    by (rule own_move [where t = t]) (use assms(2,3) in \<open>auto simp: held_def\<close>)
qed

abbreviation pushes :: "pl_event list \<Rightarrow> nat" where
  "pushes es \<equiv> length (filter is_push es)"

lemma simulates_run:
  assumes "stack_run es [] = Some st" "simulates R own st (pushes es) e s'" "pushes (log_event e es) < 2 ^ 34"
  shows "\<exists>st'. stack_run (log_event e es) [] = Some st' \<and> pl_inv R s' (gain e own) st' (pushes (log_event e es))"
  using assms by (cases e) (auto simp: simulates_def stack_run_snoc split: if_splits)

text \<open>Descriptors that may be given to the threads at the start: good ones, each to at most one thread.\<close>

definition shared_out :: "regions \<Rightarrow> (nat \<Rightarrow> u64 set) \<Rightarrow> bool" where
  "shared_out R own \<longleftrightarrow> (\<forall>t. \<forall>d\<in>own t. good_desc R d) \<and> (\<forall>t t' d. d \<in> own t \<and> d \<in> own t' \<longrightarrow> t = t')"

lemma pl_run_inv:
  assumes "pl_run R own0 s own es" "shared_out R own0" "pushes es < 2 ^ 34"
  shows "\<exists>st. stack_run es [] = Some st \<and> pl_inv R s own st (pushes es)"
  using assms(1,3)
proof (induction rule: pl_run.induct)
  case (start nx)
  have "own_ok R \<lparr>pl_cell = acpc_store R DESC_IDX (ptr_cnt_set 0 0), pl_next = nx, pl_pc = \<lambda>_. Outside\<rparr> own0 []"
  proof (rule own_okI)
    fix t t' d assume "d \<in> held \<lparr>pl_cell = acpc_store R DESC_IDX (ptr_cnt_set 0 0), pl_next = nx, pl_pc = \<lambda>_. Outside\<rparr> own0 t"
      "d \<in> held \<lparr>pl_cell = acpc_store R DESC_IDX (ptr_cnt_set 0 0), pl_next = nx, pl_pc = \<lambda>_. Outside\<rparr> own0 t'"
    then have "d \<in> own0 t" "d \<in> own0 t'" by (simp_all add: held_def)
    then show "t = t'" using assms(2) unfolding shared_out_def by blast
  qed (use assms(2) in \<open>auto simp: shared_out_def held_def\<close>)
  then show ?case by (simp add: pl_inv_def top_of_def acpc_store_def ptr_cnt_set_def)
next
  case (push s own es t d)
  then show ?case using push_begin_ok by blast
next
  case (pop s own es t e s')
  have "pushes es < 2 ^ 34" using pop.prems by (cases e) auto
  then obtain st where st: "stack_run es [] = Some st" "pl_inv R s own st (pushes es)" using pop.IH by blast
  have "pop_round t \<lparr>pc_ptr = top_of st, pc_cnt = of_nat (pushes es)\<rparr> s = (e, s')" using pop.hyps(3) head_fits(3) [OF st(2)] by (simp add: pop_begin_def)
  then have "simulates R own st (pushes es) e s'" using pop_round_ok [OF st(2), of t] pop.hyps(2) by simp
  then show ?case using simulates_run [OF st(1)] pop.prems by blast
next
  case (step s own es spurious t e s')
  have "pushes es < 2 ^ 34" using step.prems by (cases e) auto
  then obtain st where st: "stack_run es [] = Some st" "pl_inv R s own st (pushes es)" using step.IH by blast
  then show ?case using simulates_run [OF st(1) pl_step_simulates [OF st(2) step.hyps(2)]] step.prems by blast
qed

section \<open>The uninterrupted calls\<close>

text \<open>What a thread sees that runs alone: the operations of the core are the same steps without a pause.\<close>

definition view :: "world \<Rightarrow> nat \<Rightarrow> plist" where
  "view w h = \<lparr>pl_cell = partial_list (w_heaps w ! h), pl_next = \<lambda>d. next_partial (w_desc w d), pl_pc = \<lambda>_. Outside\<rparr>"

lemma push_alone:
  assumes "heap_at (w_rgs w) (crossptr_get (w_rgs w) META_IDX (dheap (w_desc w d))) = Inr h" "h < length (w_heaps w)"
    "heap_push_partial w d = Inr w'"
  shows "(let s1 = push_begin (w_rgs w) t d (view w h); (e2, s2) = pl_step (w_rgs w) False t s1; (e3, s3) = pl_step (w_rgs w) False t s2
    in e3 = Some (Pushed t d) \<and> s3 = view w' h)"
  using assms
  by (auto simp: heap_push_partial_def Let_def push_begin_def pl_step_def view_def to_pc_def upd_desc_def set_partial_def fun_eq_iff
      split: prod.splits bool.splits)

lemma pop_alone:
  assumes "h < length (w_heaps w)" "heap_pop_partial w h = Inr (d, w')"
  shows "(let (e1, s1) = pop_begin (w_rgs w) t (view w h) in
     if d = 0 \<and> w' = w \<and> e1 = Some (Popped t 0) then s1 = view w' h
     else let (e2, s2) = pl_step (w_rgs w) False t s1; (e3, s3) = pl_step (w_rgs w) False t s2 in e3 = Some (Popped t d) \<and> s3 = view w' h)"
  using assms
  by (auto simp: heap_pop_partial_def Let_def pop_begin_def pop_round_def pl_step_def view_def to_pc_def set_partial_def fun_eq_iff
      split: prod.splits bool.splits if_splits)


section \<open>Properties\<close>

text \<open>C12: Every execution of any number of threads that push and pop descriptors on one partial list, in
  any interleaving of their atomic accesses and with any spurious failures, is one of a sequential
  stack: the completed calls in their order are a run of the stack, whose content is what the
  list holds; and no descriptor is duplicated: two threads never own the same one, and none owns
  one that is on the list.  Fewer than \<open>2^34\<close> pushes may have been completed, the range of the
  counter packed beside the pointer.\<close>

theorem partial_list_linearizable:
  assumes "pl_run R own0 s own es" "shared_out R own0" "pushes es < 2 ^ 34"
  shows "\<exists>st. stack_run es [] = Some st \<and> linked s st \<and> distinct st
    \<and> acpc_load R DESC_IDX (pl_cell s) = \<lparr>pc_ptr = top_of st, pc_cnt = of_nat (pushes es)\<rparr>
    \<and> (\<forall>t. own t \<inter> set st = {}) \<and> (\<forall>t t'. t \<noteq> t' \<longrightarrow> own t \<inter> own t' = {})"
proof -
  obtain st where st: "stack_run es [] = Some st" "pl_inv R s own st (pushes es)" using pl_run_inv [OF assms] by blast
  then have i: "linked s st" "own_ok R s own st" by (simp_all add: pl_inv_def)
  note o = own_okD [OF i(2)]
  have h: "own t \<subseteq> held s own t" for t by (simp add: held_def)
  have "own t \<inter> set st = {}" for t using o(4) h by blast
  moreover have "own t \<inter> own t' = {}" if "t \<noteq> t'" for t t' using o(5) h that by blast
  ultimately show ?thesis using st(1) i(1) o(1) head_fits(3) [OF st(2)] by blast
qed

text \<open>
  Two threads: the first pushes \<open>d1\<close>, after one spurious failure, and starts to pop; before its
  exchange the second one pushes \<open>d2\<close>, so that the exchange of the first fails.
\<close>

definition d1 :: u64 where "d1 = 0x100040"
definition d2 :: u64 where "d2 = 0x100080"

definition two_owners :: "nat \<Rightarrow> u64 set" where
  "two_owners t = (if t = 0 then {d1} else if t = 1 then {d2} else {})"

definition two_threads :: "ptr_cnt \<Rightarrow> (u64 \<Rightarrow> u64) \<Rightarrow> pl_pc \<Rightarrow> pl_pc \<Rightarrow> plist" where
  "two_threads h nx c0 c1 = \<lparr>pl_cell = acpc_pack sample_regions DESC_IDX h, pl_next = nx, pl_pc = (\<lambda>_. Outside)(0 := c0, 1 := c1)\<rparr>"

definition raced_list :: plist where
  "raced_list = two_threads (ptr_cnt_set d2 2) ((\<lambda>_. 0)(d1 := atomic_pptr_store (d1 + 8) 0, d2 := atomic_pptr_store (d2 + 8) d1))
     (PopNext (ptr_cnt_set d2 2)) Outside"

lemma sample_pairs:
  "good_desc sample_regions d1" "good_desc sample_regions d2" "d1 \<noteq> 0" "d2 \<noteq> 0" "d1 \<noteq> d2"
  "acpc_unpack sample_regions DESC_IDX (acpc_pack sample_regions DESC_IDX (ptr_cnt_set 0 0)) = ptr_cnt_set 0 0"
  "acpc_unpack sample_regions DESC_IDX (acpc_pack sample_regions DESC_IDX (ptr_cnt_set d1 1)) = ptr_cnt_set d1 1"
  "acpc_unpack sample_regions DESC_IDX (acpc_pack sample_regions DESC_IDX (ptr_cnt_set d2 2)) = ptr_cnt_set d2 2"
  "acpc_pack sample_regions DESC_IDX (ptr_cnt_set d2 2) \<noteq> acpc_pack sample_regions DESC_IDX (ptr_cnt_set d1 1)"
proof -
  show g: "good_desc sample_regions d1" "good_desc sample_regions d2" "d1 \<noteq> 0" "d2 \<noteq> 0" "d1 \<noteq> d2"
    by (simp_all add: good_desc_def canonical_def sample_regions_def Regions_lookup_def d1_def d2_def)
  then have f: "acpc_fits sample_regions DESC_IDX (ptr_cnt_set 0 0)" "acpc_fits sample_regions DESC_IDX (ptr_cnt_set d1 1)"
      "acpc_fits sample_regions DESC_IDX (ptr_cnt_set d2 2)" by (simp_all add: acpc_fits_def ptr_cnt_set_def good_desc_def)
  show u: "acpc_unpack sample_regions DESC_IDX (acpc_pack sample_regions DESC_IDX (ptr_cnt_set 0 0)) = ptr_cnt_set 0 0"
    "acpc_unpack sample_regions DESC_IDX (acpc_pack sample_regions DESC_IDX (ptr_cnt_set d1 1)) = ptr_cnt_set d1 1"
    "acpc_unpack sample_regions DESC_IDX (acpc_pack sample_regions DESC_IDX (ptr_cnt_set d2 2)) = ptr_cnt_set d2 2"
    by (rule acpc_unpack_pack [OF f(1)] acpc_unpack_pack [OF f(2)] acpc_unpack_pack [OF f(3)])+
  show "acpc_pack sample_regions DESC_IDX (ptr_cnt_set d2 2) \<noteq> acpc_pack sample_regions DESC_IDX (ptr_cnt_set d1 1)"
    using acpc_pack_inj [OF f(3,2)] g(5) by (auto simp: ptr_cnt_set_def)
qed

lemma ptr_cnt_set_simps: "pc_ptr (ptr_cnt_set p c) = p" "pc_cnt (ptr_cnt_set p c) = c"
  by (simp_all add: ptr_cnt_set_def)

lemma two_threads_simps:
  "pl_pc (two_threads h nx c0 c1) 0 = c0" "pl_pc (two_threads h nx c0 c1) (Suc 0) = c1" "pl_next (two_threads h nx c0 c1) = nx"
  "pl_cell (two_threads h nx c0 c1) = acpc_pack sample_regions DESC_IDX h"
  "to_pc 0 c (two_threads h nx c0 c1) = two_threads h nx c c1" "to_pc (Suc 0) c (two_threads h nx c0 c1) = two_threads h nx c0 c"
  "(two_threads h nx c0 c1)\<lparr>pl_next := nx'\<rparr> = two_threads h nx' c0 c1"
  "(two_threads h nx c0 c1)\<lparr>pl_cell := acpc_pack sample_regions DESC_IDX h'\<rparr> = two_threads h' nx c0 c1"
  by (simp_all add: two_threads_def to_pc_def fun_upd_twist)

lemmas race_eval = two_threads_simps ptr_cnt_set_simps pl_step_def push_begin_def pop_begin_def pop_round_def acpc_compare_exchange_weak_def
  acpc_load_def sample_pairs

lemma raced_run:
  "pl_run sample_regions two_owners raced_list (two_owners(0 := {}, 1 := {})) [Pushed 0 d1, Pushed 1 d2]"
proof -
  let ?z = "ptr_cnt_set 0 0" and ?h1 = "ptr_cnt_set d1 1" and ?h2 = "ptr_cnt_set d2 2"
  let ?n1 = "(\<lambda>_. 0)(d1 := atomic_pptr_store (d1 + 8) 0)"
  let ?n2 = "?n1(d2 := atomic_pptr_store (d2 + 8) d1)"
  let ?run = "pl_run sample_regions two_owners" and ?o = "two_owners(0 := {})"
  have l: "atomic_pptr_load (d1 + 8) (atomic_pptr_store (d1 + 8) 0) = 0"
    using sample_pairs(1) by (simp add: atomic_pptr_load_def atomic_pptr_store_def good_desc_def)
  have own: "d1 \<in> two_owners 0" "d2 \<in> two_owners (Suc 0)" "two_owners 0 - {d1} = {}" "two_owners (Suc 0) - {d2} = {}" by (auto simp: two_owners_def)
  have "?run (two_threads ?z (\<lambda>_. 0) Outside Outside) two_owners []"
    using pl_run.start [of sample_regions two_owners "\<lambda>_. 0"] by (simp add: two_threads_def acpc_store_def fun_upd_idem)
  from pl_run.push [OF this _ own(1)] have "?run (two_threads ?z (\<lambda>_. 0) (PushStore d1 ?z) Outside) ?o []" by (simp add: race_eval own)
  from pl_run.step [OF this, of False 0] have "?run (two_threads ?z ?n1 (PushCas d1 ?z) Outside) ?o []" by (simp add: race_eval)
  from pl_run.step [OF this, of True 0] have "?run (two_threads ?z ?n1 (PushStore d1 ?z) Outside) ?o []" by (simp add: race_eval)
  from pl_run.step [OF this, of False 0] have "?run (two_threads ?z ?n1 (PushCas d1 ?z) Outside) ?o []" by (simp add: race_eval)
  from pl_run.step [OF this, of False 0] have "?run (two_threads ?h1 ?n1 Outside Outside) ?o [Pushed 0 d1]" by (simp add: race_eval)
  from pl_run.pop [OF this, of 0] have "?run (two_threads ?h1 ?n1 (PopNext ?h1) Outside) ?o [Pushed 0 d1]" by (simp add: race_eval)
  from pl_run.push [OF this, of "Suc 0" d2] have "?run (two_threads ?h1 ?n1 (PopNext ?h1) (PushStore d2 ?h1)) (?o(1 := {})) [Pushed 0 d1]" by (simp add: race_eval own)
  from pl_run.step [OF this, of False 0] have "?run (two_threads ?h1 ?n1 (PopCas ?h1 0) (PushStore d2 ?h1)) (?o(1 := {})) [Pushed 0 d1]" by (simp add: race_eval l)
  from pl_run.step [OF this, of False 1] have "?run (two_threads ?h1 ?n2 (PopCas ?h1 0) (PushCas d2 ?h1)) (?o(1 := {})) [Pushed 0 d1]" by (simp add: race_eval)
  from pl_run.step [OF this, of False 1] have "?run (two_threads ?h2 ?n2 (PopCas ?h1 0) Outside) (?o(1 := {})) [Pushed 0 d1, Pushed 1 d2]" by (simp add: race_eval)
  from pl_run.step [OF this, of False 0] show ?thesis by (simp add: race_eval raced_list_def)
qed

theorem partial_list_linearizable_witness:
  "linked raced_list [d2, d1] \<and> acpc_load sample_regions DESC_IDX (pl_cell raced_list) = \<lparr>pc_ptr = d2, pc_cnt = 2\<rparr>"
proof -
  have "d \<in> two_owners t \<longleftrightarrow> t = 0 \<and> d = d1 \<or> t = 1 \<and> d = d2" for d t by (simp add: two_owners_def)
  then have sh: "shared_out sample_regions two_owners" unfolding shared_out_def using sample_pairs(1,2,5) by metis
  have "pushes [Pushed 0 d1, Pushed 1 d2] < 2 ^ 34" by simp
  then obtain st where st: "stack_run [Pushed 0 d1, Pushed 1 d2] [] = Some st" "linked raced_list st"
      "acpc_load sample_regions DESC_IDX (pl_cell raced_list) = \<lparr>pc_ptr = top_of st, pc_cnt = of_nat (pushes [Pushed 0 d1, Pushed 1 d2])\<rparr>"
    using partial_list_linearizable [OF raced_run sh] by blast
  have "st = [d2, d1]" using st(1) by simp
  then show ?thesis using st(2,3) by (simp add: top_of_def)
qed

end
