(* ===== verification/Bx_Simulation.thy ===== *)
theory Bx_Simulation
  imports Bx_Prelude
begin

text \<open>
  Concurrent executions and their refinement.  A system has initial states and transitions, each
  silent or labelled with an event (a completed call); \<open>sys_run\<close> are its executions with the events
  in order, \<open>spec_run\<close> those of a sequential specification.  The locale \<open>simulation\<close> has the one
  induction by which every execution of a system is one of its specification; the array queue and
  the anchors interpret it.
\<close>

inductive sys_run :: "('s \<Rightarrow> bool) \<Rightarrow> ('s \<Rightarrow> 'e option \<Rightarrow> 's \<Rightarrow> bool) \<Rightarrow> 's \<Rightarrow> 'e list \<Rightarrow> bool"
  for init tr where
  start: "init s \<Longrightarrow> sys_run init tr s []"
| silent: "sys_run init tr s es \<Longrightarrow> tr s None s' \<Longrightarrow> sys_run init tr s' es"
| event: "sys_run init tr s es \<Longrightarrow> tr s (Some e) s' \<Longrightarrow> sys_run init tr s' (es @ [e])"

fun spec_run :: "('e \<Rightarrow> 'a \<Rightarrow> 'a option) \<Rightarrow> 'e list \<Rightarrow> 'a \<Rightarrow> 'a option" where
  "spec_run nx [] a = Some a"
| "spec_run nx (e # es) a = (case nx e a of None \<Rightarrow> None | Some a' \<Rightarrow> spec_run nx es a')"

lemma spec_run_append:
  "spec_run nx (es @ fs) a = (case spec_run nx es a of None \<Rightarrow> None | Some a' \<Rightarrow> spec_run nx fs a')"
  by (induction es arbitrary: a) (auto split: option.splits)

lemma spec_run_snoc:
  "spec_run nx es a = Some b \<Longrightarrow> spec_run nx (es @ [e]) a = nx e b"
  by (simp add: spec_run_append split: option.splits)

text \<open>A step labelled with an optional event, and executions that go on from a state.\<close>

lemma sys_run_step:
  "sys_run init tr s es \<Longrightarrow> tr s e s' \<Longrightarrow> sys_run init tr s' (es @ (case e of None \<Rightarrow> [] | Some v \<Rightarrow> [v]))"
  by (cases e) (auto intro: sys_run.intros)

inductive sys_steps :: "('s \<Rightarrow> 'e option \<Rightarrow> 's \<Rightarrow> bool) \<Rightarrow> 's \<Rightarrow> 'e list \<Rightarrow> 's \<Rightarrow> bool" for tr where
  stop: "sys_steps tr s [] s"
| more: "tr s e s' \<Longrightarrow> sys_steps tr s' es s'' \<Longrightarrow> sys_steps tr s ((case e of None \<Rightarrow> [] | Some v \<Rightarrow> [v]) @ es) s''"

lemma sys_steps_silent: "tr s None s' \<Longrightarrow> sys_steps tr s' es s'' \<Longrightarrow> sys_steps tr s es s''"
  using sys_steps.more [of tr s None s' es s''] by simp

lemma sys_steps_one: "tr s None s' \<Longrightarrow> sys_steps tr s [] s'"
  by (rule sys_steps_silent) (auto intro: sys_steps.stop)

lemma sys_steps_last: "tr s (Some e) s' \<Longrightarrow> sys_steps tr s [e] s'"
  using sys_steps.more [of tr s "Some e" s' "[]" s'] by (simp add: sys_steps.stop)

lemma sys_steps_append: "sys_steps tr s es s' \<Longrightarrow> sys_steps tr s' fs s'' \<Longrightarrow> sys_steps tr s (es @ fs) s''"
  by (induction rule: sys_steps.induct) (auto intro: sys_steps.more simp: append_assoc)

lemma sys_run_steps: "sys_steps tr s fs s' \<Longrightarrow> sys_run init tr s es \<Longrightarrow> sys_run init tr s' (es @ fs)"
proof (induction arbitrary: es rule: sys_steps.induct)
  case (more s e s' fs s'')
  then show ?case using sys_run_step [OF more.prems more.hyps(1)] by (metis append_assoc)
qed simp

locale simulation =
  fixes init :: "'s \<Rightarrow> bool"
    and tr :: "'s \<Rightarrow> 'e option \<Rightarrow> 's \<Rightarrow> bool"
    and spec :: "'e \<Rightarrow> 'a \<Rightarrow> 'a option"
    and begins :: 'a
    and rel :: "'s \<Rightarrow> 'a \<Rightarrow> bool"
  assumes init_law: "init s \<Longrightarrow> rel s begins"
    and silent_law: "rel s a \<Longrightarrow> tr s None s' \<Longrightarrow> rel s' a"
    and event_law: "rel s a \<Longrightarrow> tr s (Some e) s' \<Longrightarrow> \<exists>a'. spec e a = Some a' \<and> rel s' a'"
begin

lemma run_refines: "sys_run init tr s es \<Longrightarrow> \<exists>a. spec_run spec es begins = Some a \<and> rel s a"
proof (induction rule: sys_run.induct)
  case (start s)
  then show ?case using init_law by simp
next
  case (silent s es s')
  then show ?case using silent_law by blast
next
  case (event s es e s')
  then obtain a where a: "spec_run spec es begins = Some a" "rel s a" by blast
  then show ?case using event_law [OF a(2) event.hyps(2)] spec_run_snoc [OF a(1)] by metis
qed

end

end
