(* ===== verification/Bx_QueueConc.thy ===== *)
theory Bx_QueueConc
  imports Bx_Queue Bx_Simulation
begin

text \<open>
  The array queue under concurrency (\<open>src/src/LockFreeQueue.hpp\<close>): \<open>push\<close>, \<open>pop\<close> and
  \<open>finish_enqueue\<close> as the sequences of their atomic accesses, interleaved by any number of threads,
  with weak exchanges that may fail without reason.  As long as no call is overtaken by a whole
  round of the ring, every execution is one of a bounded FIFO queue.  The code has nothing that
  ensures this: its exchange on a node retries until it succeeds, and an execution in which a
  helper is overtaken by one round delivers a value twice and loses another.
\<close>

section \<open>Threads and their steps\<close>

text \<open>
  Where a thread stands, named after the access it makes next; \<open>v\<close> is the argument of a push, \<open>r\<close>
  and \<open>f\<close> the locals \<open>old_rear\<close> and \<open>old_front\<close>, \<open>nd\<close> the local \<open>old_node\<close>.  The remaining
  arguments are ghosts: \<open>n\<close> and \<open>m\<close> are the numbers of pushes and pops completed when \<open>r\<close> and \<open>f\<close>
  were read, \<open>e\<close> says whether the queue was full (in a push) or empty (in a pop) when the second
  of the two was read.
\<close>

datatype q_pc =
    Idle
  | PushRear u64
  | PushFront u64 rear_t nat
  | PushCheck u64 rear_t front_t nat nat bool
  | PushNode u64 rear_t front_t nat nat bool
  | PushFin u64 rear_t front_t nat nat bool node_t
  | PushCount u64 rear_t nat
  | PushCas rear_t rear_t nat
  | PopFront
  | PopRear front_t nat
  | PopCheck front_t rear_t nat nat bool
  | PopNode front_t rear_t nat nat
  | PopFin front_t rear_t nat nat node_t
  | PopValue front_t nat
  | PopCas front_t u64 nat
  | Failed

text \<open>The shared queue, the threads, and two ghosts: the values pushed so far and the number of pops.\<close>

record qsys =
  qs_q :: aqueue
  qs_pc :: "nat \<Rightarrow> q_pc"
  qs_pushed :: "u64 list"
  qs_pops :: nat

text \<open>
  A completed call.  The ghost of \<open>NoValue\<close> (the pop that returns \<open>nullopt\<close>) and of \<open>FullStop\<close> (the
  push that fails its assertion) says whether the queue was empty, or full, at a moment of the call.
\<close>

datatype q_event = Enq nat u64 | Deq nat u64 | NoValue nat bool | FullStop nat bool

definition goto :: "nat \<Rightarrow> q_pc \<Rightarrow> qsys \<Rightarrow> qsys" where
  "goto t c s = s\<lparr>qs_pc := (qs_pc s)(t := c)\<rparr>"

definition set_node :: "nat \<Rightarrow> node_t \<Rightarrow> qsys \<Rightarrow> qsys" where
  "set_node i nd s = s\<lparr>qs_q := (qs_q s)\<lparr>q_nodes := (q_nodes (qs_q s))[i := nd]\<rparr>\<rparr>"

definition q_pushes :: "qsys \<Rightarrow> nat" where
  "q_pushes s = length (qs_pushed s)"

text \<open>
  The exchange of \<open>finish_enqueue\<close>: the thread goes on with \<open>ok\<close>, or with \<open>again\<close> and the node it
  has found.
\<close>

definition node_exchange :: "bool \<Rightarrow> nat \<Rightarrow> rear_t \<Rightarrow> node_t \<Rightarrow> q_pc \<Rightarrow> (node_t \<Rightarrow> q_pc) \<Rightarrow> qsys \<Rightarrow> qsys" where
  "node_exchange spurious t r nd ok again s =
     (let cur = q_nodes (qs_q s) ! r_index r in
      case node_cas cur nd (Node (r_value r) (r_counter r)) of
        (True, cur', _) \<Rightarrow> if spurious then goto t (again cur) s else goto t ok (set_node (r_index r) cur' s)
      | (False, _, seen) \<Rightarrow> goto t (again seen) s)"

definition old_node :: "qsys \<Rightarrow> rear_t \<Rightarrow> node_t" where
  "old_node s r = Node (n_value (q_nodes (qs_q s) ! r_index r)) (r_counter r - 1)"

definition push_step :: "nat \<Rightarrow> bool \<Rightarrow> nat \<Rightarrow> qsys \<Rightarrow> q_event option \<times> qsys" where
  "push_step N spurious t s =
     (let q = qs_q s in
      case qs_pc s t of
        PushRear v \<Rightarrow> (None, goto t (PushFront v (q_rear q) (q_pushes s)) s)
      | PushFront v r n \<Rightarrow>
          (None, goto t (PushCheck v r (q_front q) n (qs_pops s) (f_index (q_front q) = (r_index (q_rear q) + 2) mod N)) s)
      | PushCheck v r f n m e \<Rightarrow> (None, goto t (if r = q_rear q then PushNode v r f n m e else PushRear v) s)
      | PushNode v r f n m e \<Rightarrow> (None, goto t (PushFin v r f n m e (old_node s r)) s)
      | PushFin v r f n m e nd \<Rightarrow>
          if f_index f = (r_index r + 2) mod N
          then let s' = node_exchange spurious t r nd Failed (PushFin v r f n m e) s in
               (if qs_pc s' t = Failed then Some (FullStop t e) else None, s')
          else (None, node_exchange spurious t r nd (PushCount v r n) (PushFin v r f n m e) s)
      | PushCount v r n \<Rightarrow>
          let i = (r_index r + 1) mod N in
          (None, goto t (PushCas r \<lparr>r_value = v, r_index = i, r_counter = ucast (n_counter (q_nodes q ! i) + 1)\<rparr> n) s)
      | PushCas r new n \<Rightarrow>
          if q_rear q = r \<and> \<not> spurious
          then (Some (Enq t (r_value new)), goto t Idle (s\<lparr>qs_q := q\<lparr>q_rear := new\<rparr>, qs_pushed := qs_pushed s @ [r_value new]\<rparr>))
          else (None, goto t (PushRear (r_value new)) s)
      | _ \<Rightarrow> (None, s))"

text \<open>The rest of a round of \<open>pop\<close> after the help for a pending push.\<close>

definition pop_test :: "nat \<Rightarrow> front_t \<Rightarrow> rear_t \<Rightarrow> nat \<Rightarrow> q_pc option" where
  "pop_test N f r m = (if f_index f = (r_index r + 1) mod N then None else Some (PopValue f m))"

definition pop_step :: "nat \<Rightarrow> bool \<Rightarrow> nat \<Rightarrow> qsys \<Rightarrow> q_event option \<times> qsys" where
  "pop_step N spurious t s =
     (let q = qs_q s in
      case qs_pc s t of
        PopFront \<Rightarrow> (None, goto t (PopRear (q_front q) (qs_pops s)) s)
      | PopRear f m \<Rightarrow>
          (None, goto t (PopCheck f (q_rear q) (q_pushes s) m (f_index (q_front q) = (r_index (q_rear q) + 1) mod N)) s)
      | PopCheck f r n m e \<Rightarrow>
          if f \<noteq> q_front q then (None, goto t PopFront s)
          else if f_index f = r_index r then (None, goto t (PopNode f r n m) s)
          else (case pop_test N f r m of
                  None \<Rightarrow> (Some (NoValue t e), goto t Idle s)
                | Some c \<Rightarrow> (None, goto t c s))
      | PopNode f r n m \<Rightarrow> (None, goto t (PopFin f r n m (old_node s r)) s)
      | PopFin f r n m nd \<Rightarrow>
          (case pop_test N f r m of
             None \<Rightarrow> let s' = node_exchange spurious t r nd Idle (PopFin f r n m) s in
               (if qs_pc s' t = Idle then Some (NoValue t False) else None, s')
           | Some c \<Rightarrow> (None, node_exchange spurious t r nd c (PopFin f r n m) s))
      | PopValue f m \<Rightarrow> (None, goto t (PopCas f (n_value (q_nodes q ! (f_index f mod N))) m) s)
      | PopCas f ret m \<Rightarrow>
          if q_front q = f
          then (Some (Deq t ret), goto t Idle (s\<lparr>qs_q := q\<lparr>q_front := \<lparr>f_index = (f_index f + 1) mod N, f_counter = f_counter f + 1\<rparr>\<rparr>,
                  qs_pops := qs_pops s + 1\<rparr>))
          else (None, goto t PopFront s)
      | _ \<Rightarrow> (None, s))"

definition is_push_pc :: "q_pc \<Rightarrow> bool" where
  "is_push_pc c = (case c of PushRear v \<Rightarrow> True | PushFront v r n \<Rightarrow> True | PushCheck v r f n m e \<Rightarrow> True
     | PushNode v r f n m e \<Rightarrow> True | PushFin v r f n m e nd \<Rightarrow> True | PushCount v r n \<Rightarrow> True | PushCas r new n \<Rightarrow> True | _ \<Rightarrow> False)"

definition q_step :: "nat \<Rightarrow> bool \<Rightarrow> nat \<Rightarrow> qsys \<Rightarrow> q_event option \<times> qsys" where
  "q_step N spurious t s = (if is_push_pc (qs_pc s t) then push_step N spurious t s else pop_step N spurious t s)"

section \<open>Executions\<close>

definition q_start :: "nat \<Rightarrow> qsys \<Rightarrow> bool" where
  "q_start N s \<longleftrightarrow> s = \<lparr>qs_q = ArrayQueue_new N, qs_pc = \<lambda>_. Idle, qs_pushed = [], qs_pops = 0\<rparr>"

text \<open>
  The timing condition: since a thread has read \<open>rear\<close> fewer than \<open>N\<close> pushes, and since it has read
  \<open>front\<close> fewer than \<open>N\<close> pops have been completed.
\<close>

fun timely :: "nat \<Rightarrow> qsys \<Rightarrow> q_pc \<Rightarrow> bool" where
  "timely N s (PushCheck v r f n m e) \<longleftrightarrow> q_pushes s < n + N"
| "timely N s (PushFin v r f n m e nd) \<longleftrightarrow> q_pushes s < n + N"
| "timely N s (PushCas r new n) \<longleftrightarrow> q_pushes s < n + N"
| "timely N s (PopCheck f r n m e) \<longleftrightarrow> qs_pops s < m + N"
| "timely N s (PopFin f r n m nd) \<longleftrightarrow> q_pushes s < n + N"
| "timely N s (PopCas f ret m) \<longleftrightarrow> qs_pops s < m + N"
| "timely N s c \<longleftrightarrow> True"

text \<open>The transitions of threads that call \<open>push\<close> and \<open>pop\<close> at will, under a condition on who may move.\<close>

inductive q_trans :: "nat \<Rightarrow> (qsys \<Rightarrow> q_pc \<Rightarrow> bool) \<Rightarrow> qsys \<Rightarrow> q_event option \<Rightarrow> qsys \<Rightarrow> bool" for N may where
  push: "qs_pc s t = Idle \<Longrightarrow> q_trans N may s None (goto t (PushRear v) s)"
| pop: "qs_pc s t = Idle \<Longrightarrow> q_trans N may s None (goto t PopFront s)"
| step: "may s (qs_pc s t) \<Longrightarrow> q_step N spurious t s = (e, s') \<Longrightarrow> q_trans N may s e s'"

text \<open>The bounded queue: what a completed call does, or \<open>None\<close> if it cannot have its result.\<close>

fun fifo_step :: "nat \<Rightarrow> q_event \<Rightarrow> u64 list \<Rightarrow> u64 list option" where
  "fifo_step N (Enq t v) xs = (if length xs < N - 1 then Some (xs @ [v]) else None)"
| "fifo_step N (Deq t v) xs = (case xs of [] \<Rightarrow> None | x # xs \<Rightarrow> if x = v then Some xs else None)"
| "fifo_step N (NoValue t e) xs = (if e then Some xs else None)"
| "fifo_step N (FullStop t e) xs = (if e then Some xs else None)"

section \<open>The invariant\<close>

text \<open>
  The values pushed have positions from 1 on, the value in front of them (0) is the initial content
  of \<open>rear\<close>.  A register read when \<open>n\<close> pushes, or \<open>m\<close> pops, were completed shows a position.
\<close>

definition hist :: "qsys \<Rightarrow> nat \<Rightarrow> u64" where
  "hist s k = (0 # qs_pushed s) ! k"

definition rear_ok :: "nat \<Rightarrow> qsys \<Rightarrow> rear_t \<Rightarrow> nat \<Rightarrow> bool" where
  "rear_ok N s r n \<longleftrightarrow> n \<le> q_pushes s \<and> r_value r = hist s n \<and> r_index r = n mod N"

definition front_ok :: "nat \<Rightarrow> qsys \<Rightarrow> front_t \<Rightarrow> nat \<Rightarrow> bool" where
  "front_ok N s f m \<longleftrightarrow> m \<le> qs_pops s \<and> f_index f = (m + 1) mod N"

definition node_ok :: "nat \<Rightarrow> qsys \<Rightarrow> nat \<Rightarrow> bool" where
  "node_ok N s k \<longleftrightarrow> n_value (q_nodes (qs_q s) ! (k mod N)) = hist s k"

fun q_pc_ok :: "nat \<Rightarrow> qsys \<Rightarrow> q_pc \<Rightarrow> bool" where
  "q_pc_ok N s (PushFront v r n) \<longleftrightarrow> rear_ok N s r n"
| "q_pc_ok N s (PushCheck v r f n m e) \<longleftrightarrow> rear_ok N s r n \<and> front_ok N s f m
     \<and> (q_pushes s = n \<longrightarrow> m \<le> n \<and> n < m + N \<and> e = (f_index f = (r_index r + 2) mod N))"
| "q_pc_ok N s (PushNode v r f n m e) \<longleftrightarrow> rear_ok N s r n \<and> front_ok N s f m
     \<and> m \<le> n \<and> n < m + N \<and> e = (f_index f = (r_index r + 2) mod N)"
| "q_pc_ok N s (PushFin v r f n m e nd) \<longleftrightarrow> rear_ok N s r n \<and> front_ok N s f m
     \<and> m \<le> n \<and> n < m + N \<and> e = (f_index f = (r_index r + 2) mod N)"
| "q_pc_ok N s (PushCount v r n) \<longleftrightarrow> rear_ok N s r n \<and> (q_pushes s = n \<longrightarrow> n + 1 < qs_pops s + N \<and> node_ok N s n)"
| "q_pc_ok N s (PushCas r new n) \<longleftrightarrow> rear_ok N s r n \<and> (q_pushes s = n \<longrightarrow> n + 1 < qs_pops s + N \<and> node_ok N s n)
     \<and> r_index new = (r_index r + 1) mod N"
| "q_pc_ok N s (PopRear f m) \<longleftrightarrow> front_ok N s f m"
| "q_pc_ok N s (PopCheck f r n m e) \<longleftrightarrow> rear_ok N s r n \<and> front_ok N s f m
     \<and> (qs_pops s = m \<longrightarrow> m \<le> n \<and> n < m + N \<and> e = (f_index f = (r_index r + 1) mod N))"
| "q_pc_ok N s (PopNode f r n m) \<longleftrightarrow> rear_ok N s r n \<and> front_ok N s f m \<and> n = m + 1"
| "q_pc_ok N s (PopFin f r n m nd) \<longleftrightarrow> rear_ok N s r n \<and> front_ok N s f m \<and> n = m + 1"
| "q_pc_ok N s (PopValue f m) \<longleftrightarrow> front_ok N s f m \<and> (qs_pops s = m \<longrightarrow> m + 1 \<le> q_pushes s \<and> node_ok N s (m + 1))"
| "q_pc_ok N s (PopCas f ret m) \<longleftrightarrow> front_ok N s f m \<and> (qs_pops s = m \<longrightarrow> m + 1 \<le> q_pushes s \<and> ret = hist s (m + 1))"
| "q_pc_ok N s c \<longleftrightarrow> True"

definition shared_ok :: "nat \<Rightarrow> qsys \<Rightarrow> bool" where
  "shared_ok N s \<longleftrightarrow> 3 \<le> N \<and> length (q_nodes (qs_q s)) = N \<and> rear_ok N s (q_rear (qs_q s)) (q_pushes s)
     \<and> front_ok N s (q_front (qs_q s)) (qs_pops s) \<and> qs_pops s \<le> q_pushes s \<and> q_pushes s < qs_pops s + N
     \<and> (\<forall>k. qs_pops s < k \<and> k < q_pushes s \<longrightarrow> node_ok N s k)"

definition q_rel :: "nat \<Rightarrow> qsys \<Rightarrow> u64 list \<Rightarrow> bool" where
  "q_rel N s xs \<longleftrightarrow> shared_ok N s \<and> (\<forall>t. q_pc_ok N s (qs_pc s t)) \<and> xs = drop (qs_pops s) (qs_pushed s)"

lemmas ok_defs = rear_ok_def front_ok_def node_ok_def

text \<open>Two positions less than a round apart that share a slot are the same.\<close>

lemma window_eq:
  assumes "k mod N = l mod N" "k < l + N" "l < k + N"
  shows "k = (l :: nat)"
proof -
  have "x = y" if "x mod N = y mod N" "x \<le> y" "y < x + N" for x y :: nat
    using mod_cancel_less [of x 0 N "y - x"] that by (auto simp: less_diff_conv2)
  then show ?thesis using assms by (metis nat_le_linear)
qed

lemma goto_simps [simp]:
  "qs_q (goto t c s) = qs_q s" "qs_pushed (goto t c s) = qs_pushed s" "qs_pops (goto t c s) = qs_pops s"
  "qs_pc (goto t c s) = (qs_pc s)(t := c)" "q_pushes (goto t c s) = q_pushes s" "hist (goto t c s) = hist s"
  by (simp_all add: goto_def q_pushes_def hist_def fun_eq_iff)

lemma q_pc_ok_cong:
  assumes "qs_q s = qs_q s'" "qs_pushed s = qs_pushed s'" "qs_pops s = qs_pops s'"
  shows "q_pc_ok N s c = q_pc_ok N s' c" "shared_ok N s = shared_ok N s'"
proof -
  have e: "q_pushes s = q_pushes s'" "hist s = hist s'" using assms by (simp_all add: q_pushes_def hist_def fun_eq_iff)
  show "q_pc_ok N s c = q_pc_ok N s' c" by (cases c) (simp_all add: assms e ok_defs)
  show "shared_ok N s = shared_ok N s'" by (simp add: assms e ok_defs shared_ok_def)
qed

lemma rel_goto:
  assumes "q_rel N s xs" "q_pc_ok N s c"
  shows "q_rel N (goto t c s) xs"
proof -
  have "q_pc_ok N (goto t c s) d = q_pc_ok N s d" "shared_ok N (goto t c s) = shared_ok N s" for d
    by (rule q_pc_ok_cong; simp)+
  then show ?thesis using assms by (simp add: q_rel_def)
qed

section \<open>Preservation\<close>

text \<open>A late write of a value that was in \<open>rear\<close> not a whole round ago changes no slot in use.\<close>

lemma write_node_ok:
  assumes "rear_ok N s r n" "q_pushes s < n + N" "length (q_nodes (qs_q s)) = N" "0 < N"
    "k \<le> q_pushes s" "q_pushes s < k + N" "k \<noteq> n \<Longrightarrow> node_ok N s k"
  shows "node_ok N (set_node (r_index r) (Node (r_value r) c) s) k"
proof (cases "k = n")
  case True
  then show ?thesis using assms(1,3,4) by (simp add: ok_defs set_node_def Node_def hist_def)
next
  case False
  have "k mod N \<noteq> n mod N" using window_eq [of k N n] False assms(1,2,5,6) by (auto simp: rear_ok_def)
  then show ?thesis using assms(1,7) False by (simp add: ok_defs set_node_def hist_def)
qed

lemma rel_write:
  assumes "q_rel N s xs" "rear_ok N s r n" "q_pushes s < n + N"
  shows "q_rel N (set_node (r_index r) (Node (r_value r) c) s) xs"
proof -
  let ?s = "set_node (r_index r) (Node (r_value r) c) s"
  have i: "shared_ok N s" "\<And>t. q_pc_ok N s (qs_pc s t)" "xs = drop (qs_pops s) (qs_pushed s)" using assms(1) by (simp_all add: q_rel_def)
  note sh = i(1) [unfolded shared_ok_def]
  have same [simp]: "q_pushes ?s = q_pushes s" "hist ?s = hist s" "qs_pops ?s = qs_pops s" "qs_pushed ?s = qs_pushed s"
    "qs_pc ?s = qs_pc s" "q_rear (qs_q ?s) = q_rear (qs_q s)" "q_front (qs_q ?s) = q_front (qs_q s)"
    "length (q_nodes (qs_q ?s)) = length (q_nodes (qs_q s))" "rear_ok N ?s = rear_ok N s" "front_ok N ?s = front_ok N s"
    by (simp_all add: set_node_def q_pushes_def hist_def rear_ok_def front_ok_def fun_eq_iff)
  have w: "node_ok N ?s k" if "node_ok N s k" "k \<le> q_pushes s" "q_pushes s < k + N" for k
    using write_node_ok [OF assms(2,3)] sh that by simp
  have "q_pc_ok N ?s d" if "q_pc_ok N s d" for d
    using that sh w by (cases d) auto
  moreover have "shared_ok N ?s" using sh w by (simp add: shared_ok_def)
  ultimately show ?thesis using i by (simp add: q_rel_def)
qed

text \<open>The exchange of \<open>finish_enqueue\<close> by a thread that has read \<open>rear\<close> not a whole round ago.\<close>

lemma rel_exchange:
  assumes "q_rel N s xs" "rear_ok N s r n" "q_pushes s < n + N" "\<And>nd. q_pc_ok N s (again nd)"
    "node_ok N (set_node (r_index r) (Node (r_value r) (r_counter r)) s) n \<Longrightarrow>
       q_pc_ok N (set_node (r_index r) (Node (r_value r) (r_counter r)) s) ok"
  shows "q_rel N (node_exchange spurious t r nd ok again s) xs"
proof -
  let ?s = "set_node (r_index r) (Node (r_value r) (r_counter r)) s"
  have sh: "length (q_nodes (qs_q s)) = N" "0 < N" using assms(1) by (auto simp: q_rel_def shared_ok_def)
  have "node_ok N ?s n" using write_node_ok [OF assms(2,3) sh, of n] assms(2,3) by (simp add: rear_ok_def)
  then have "q_rel N (goto t ok ?s) xs" using rel_goto [OF rel_write [OF assms(1-3)]] assms(5) by blast
  then show ?thesis using rel_goto [OF assms(1) assms(4)] by (simp add: node_exchange_def node_cas_def Let_def)
qed

lemma rel_enqueue:
  assumes "q_rel N s xs" "q_pc_ok N s (PushCas r new n)" "q_rear (qs_q s) = r" "q_pushes s < n + N"
  shows "length xs < N - 1"
    "q_rel N (goto t Idle (s\<lparr>qs_q := (qs_q s)\<lparr>q_rear := new\<rparr>, qs_pushed := qs_pushed s @ [r_value new]\<rparr>)) (xs @ [r_value new])"
proof -
  let ?s = "s\<lparr>qs_q := (qs_q s)\<lparr>q_rear := new\<rparr>, qs_pushed := qs_pushed s @ [r_value new]\<rparr>"
  have i: "shared_ok N s" "\<And>t. q_pc_ok N s (qs_pc s t)" "xs = drop (qs_pops s) (qs_pushed s)" using assms(1) by (simp_all add: q_rel_def)
  note sh = i(1) [unfolded shared_ok_def]
  have "q_pushes s mod N = n mod N" using sh assms(2,3) by (simp add: rear_ok_def)
  then have n: "n = q_pushes s" using window_eq [of "q_pushes s" N n] sh assms(2,4) by (auto simp: rear_ok_def)
  have room: "q_pushes s + 1 < qs_pops s + N" "node_ok N s (q_pushes s)" using assms(2) n by simp_all
  show "length xs < N - 1" using room(1) sh i(3) by (simp add: q_pushes_def) linarith
  have P: "q_pushes ?s = q_pushes s + 1" by (simp add: q_pushes_def)
  have H: "hist ?s k = hist s k" if "k \<le> q_pushes s" for k
    using that by (cases k) (simp_all add: hist_def q_pushes_def nth_append)
  have R: "rear_ok N ?s c k" if "rear_ok N s c k" for c k using that H P by (simp add: rear_ok_def)
  have F: "front_ok N ?s c k = front_ok N s c k" for c k by (simp add: front_ok_def)
  have W: "node_ok N ?s k" if "node_ok N s k" "k \<le> q_pushes s" for k using that H by (simp add: node_ok_def)
  have "q_pc_ok N ?s d" if "q_pc_ok N s d" for d
    using that P F R W H by (cases d) (auto simp: rear_ok_def)
  moreover have "rear_ok N ?s new (q_pushes s + 1)"
    using assms(2) P n by (simp add: rear_ok_def hist_def q_pushes_def nth_append mod_Suc_eq)
  then have "shared_ok N ?s" using sh room P F W by (auto simp: shared_ok_def less_Suc_eq)
  moreover have "xs @ [r_value new] = drop (qs_pops s) (qs_pushed s @ [r_value new])" using i(3) sh by (simp add: q_pushes_def)
  ultimately have "q_rel N ?s (xs @ [r_value new])" using i(2) by (simp add: q_rel_def)
  then show "q_rel N (goto t Idle ?s) (xs @ [r_value new])" by (rule rel_goto) simp
qed

lemma rel_dequeue:
  assumes "q_rel N s xs" "q_pc_ok N s (PopCas f ret m)" "q_front (qs_q s) = f" "qs_pops s < m + N"
  shows "\<exists>ys. xs = ret # ys \<and> q_rel N (goto t Idle (s\<lparr>qs_q := (qs_q s)\<lparr>q_front := \<lparr>f_index = (f_index f + 1) mod N, f_counter = c\<rparr>\<rparr>,
      qs_pops := qs_pops s + 1\<rparr>)) ys"
proof -
  define u where "u = s\<lparr>qs_q := (qs_q s)\<lparr>q_front := \<lparr>f_index = (f_index f + 1) mod N, f_counter = c\<rparr>\<rparr>, qs_pops := qs_pops s + 1\<rparr>"
  have i: "shared_ok N s" "\<And>t. q_pc_ok N s (qs_pc s t)" "xs = drop (qs_pops s) (qs_pushed s)" using assms(1) by (simp_all add: q_rel_def)
  note sh = i(1) [unfolded shared_ok_def]
  have "(qs_pops s + 1) mod N = (m + 1) mod N" using sh assms(2,3) by (simp add: front_ok_def)
  then have m: "qs_pops s = m" using window_eq [of "qs_pops s + 1" N "m + 1"] sh assms(2,4) by (auto simp: front_ok_def)
  have v: "m < length (qs_pushed s)" "ret = qs_pushed s ! m" using assms(2) m by (simp_all add: q_pushes_def hist_def)
  have xs: "xs = ret # drop (m + 1) (qs_pushed s)" using v i(3) m by (simp add: Cons_nth_drop_Suc)
  have same [simp]: "qs_pops u = Suc (qs_pops s)" "qs_pushed u = qs_pushed s" "qs_pc u = qs_pc s" "q_rear (qs_q u) = q_rear (qs_q s)"
      "q_nodes (qs_q u) = q_nodes (qs_q s)" "f_index (q_front (qs_q u)) = (f_index f + 1) mod N"
      "q_pushes u = q_pushes s" "hist u = hist s" "rear_ok N u = rear_ok N s" "node_ok N u = node_ok N s"
    by (simp_all add: u_def q_pushes_def hist_def rear_ok_def node_ok_def fun_eq_iff)
  have F: "front_ok N u g k" if "front_ok N s g k" for g k using that by (simp add: front_ok_def)
  have "q_pc_ok N u d" if "q_pc_ok N s d" for d
    using that F by (cases d) (auto simp: front_ok_def)
  moreover have "front_ok N u (q_front (qs_q u)) (m + 1)"
    using sh assms(3) m by (simp add: front_ok_def mod_Suc_eq)
  then have "shared_ok N u" using sh m v by (auto simp: shared_ok_def q_pushes_def [of s])
  ultimately have "q_rel N u (drop (m + 1) (qs_pushed s))" using i(2) m by (simp add: q_rel_def)
  then have "q_rel N (goto t Idle u) (drop (m + 1) (qs_pushed s))" by (rule rel_goto) simp
  then show ?thesis using xs unfolding u_def by blast
qed

text \<open>Every step is silent or what the bounded queue does.\<close>

definition q_follows :: "nat \<Rightarrow> u64 list \<Rightarrow> q_event option \<times> qsys \<Rightarrow> bool" where
  "q_follows N xs p \<longleftrightarrow> (case p of (None, s') \<Rightarrow> q_rel N s' xs
     | (Some v, s') \<Rightarrow> \<exists>ys. fifo_step N v xs = Some ys \<and> q_rel N s' ys)"

lemma q_follows_simps:
  "q_follows N xs (None, s) \<longleftrightarrow> q_rel N s xs"
  "q_follows N xs (Some v, s) \<longleftrightarrow> (\<exists>ys. fifo_step N v xs = Some ys \<and> q_rel N s ys)"
  by (simp_all add: q_follows_def)

lemma q_relD:
  assumes "q_rel N s xs"
  shows "shared_ok N s" "q_pc_ok N s (qs_pc s t)" "3 \<le> N" "rear_ok N s (q_rear (qs_q s)) (q_pushes s)"
    "front_ok N s (q_front (qs_q s)) (qs_pops s)" "qs_pops s \<le> q_pushes s" "q_pushes s < qs_pops s + N"
    "qs_pops s < k \<Longrightarrow> k < q_pushes s \<Longrightarrow> node_ok N s k"
  using assms by (simp_all add: q_rel_def shared_ok_def)

text \<open>The check after the two reads: the register has not moved in between.\<close>

lemma rear_unmoved:
  assumes "q_rel N s xs" "rear_ok N s r n" "r = q_rear (qs_q s)" "q_pushes s < n + N"
  shows "q_pushes s = n"
  using window_eq [of "q_pushes s" N n] q_relD(3,4) [OF assms(1)] assms(2-) by (auto simp: rear_ok_def)

lemma front_unmoved:
  assumes "q_rel N s xs" "front_ok N s f m" "f = q_front (qs_q s)" "qs_pops s < m + N"
  shows "qs_pops s = m"
  using window_eq [of "qs_pops s + 1" N "m + 1"] q_relD(3,5) [OF assms(1)] assms(2-) by (auto simp: front_ok_def)

text \<open>What the tests on the two indices mean for positions less than a round apart.\<close>

lemma full_test:
  fixes m n :: nat
  assumes "m \<le> n" "n < m + N" "3 \<le> N"
  shows "(m + 1) mod N = (n + 2) mod N \<longleftrightarrow> n + 1 = m + N"
proof
  assume "(m + 1) mod N = (n + 2) mod N"
  then have "(m + 1 + N) mod N = (n + 2) mod N" unfolding mod_add_self2 .
  then show "n + 1 = m + N" using window_eq [of "m + 1 + N" N "n + 2"] assms by simp
next
  assume "n + 1 = m + N"
  then have "n + 2 = m + 1 + N" by simp
  then show "(m + 1) mod N = (n + 2) mod N" by (metis mod_add_self2)
qed

lemma empty_tests:
  fixes m n :: nat
  assumes "m \<le> n" "n < m + N" "3 \<le> N"
  shows "(m + 1) mod N = n mod N \<longleftrightarrow> n = m + 1" "(m + 1) mod N = (n + 1) mod N \<longleftrightarrow> n = m"
proof -
  show "(m + 1) mod N = n mod N \<longleftrightarrow> n = m + 1" using window_eq [of "m + 1" N n] assms by auto
  show "(m + 1) mod N = (n + 1) mod N \<longleftrightarrow> n = m" using window_eq [of "m + 1" N "n + 1"] assms by auto
qed

lemma push_step_ok:
  assumes "q_rel N s xs" "timely N s (qs_pc s t)"
  shows "q_follows N xs (push_step N spurious t s)"
proof -
  note i = q_relD [OF assms(1)] and g = rel_goto [OF assms(1)]
  have pc: "q_pc_ok N s (qs_pc s t)" by (rule i(2))
  show ?thesis
  proof (cases "qs_pc s t")
    case (PushRear v)
    then show ?thesis using i by (auto simp: push_step_def q_follows_simps Let_def intro!: g)
  next
    case (PushFront v r n)
    have "r_index r = r_index (q_rear (qs_q s))" if "q_pushes s = n" using that pc PushFront i(4) by (simp add: rear_ok_def)
    then show ?thesis using PushFront pc i by (auto simp: push_step_def q_follows_simps Let_def intro!: g)
  next
    case (PushCheck v r f n m e)
    have "q_pushes s = n" if "r = q_rear (qs_q s)" using rear_unmoved [OF assms(1) _ that, of n] pc assms(2) PushCheck by simp
    then show ?thesis using PushCheck pc by (auto simp: push_step_def q_follows_simps Let_def intro!: g)
  next
    case (PushNode v r f n m e)
    then show ?thesis using pc by (auto simp: push_step_def q_follows_simps Let_def intro!: g)
  next
    case (PushFin v r f n m e nd)
    let ?s = "set_node (r_index r) (Node (r_value r) (r_counter r)) s"
    have p: "rear_ok N s r n" "q_pushes s < n + N" "m \<le> n" "n < m + N" "e = (f_index f = (r_index r + 2) mod N)"
      "m \<le> qs_pops s" "f_index f = (m + 1) mod N" "r_index r = n mod N" using pc assms(2) PushFin by (auto simp: ok_defs)
    note x = rel_exchange [OF assms(1) p(1,2), of "PushFin v r f n m e"]
    have again: "q_pc_ok N s (PushFin v r f n m e nd)" for nd using pc PushFin by simp
    have keep: "rear_ok N ?s r n" "q_pushes ?s = q_pushes s" "qs_pops ?s = qs_pops s"
      using p(1) by (simp_all add: rear_ok_def q_pushes_def set_node_def hist_def)
    show ?thesis
    proof (cases "f_index f = (r_index r + 2) mod N")
      case True
      have "q_rel N (node_exchange spurious t r nd Failed (PushFin v r f n m e) s) xs" by (rule x [OF again]) simp
      then show ?thesis using True PushFin p(5) by (auto simp: push_step_def q_follows_simps Let_def)
    next
      case False
      have "n + 1 < m + N" using False p(3,4,7,8) i(3) full_test [of m n N] by (simp add: mod_simps)
      then have "q_rel N (node_exchange spurious t r nd (PushCount v r n) (PushFin v r f n m e) s) xs"
        using keep p(6) by (intro x [OF again]) auto
      then show ?thesis using False PushFin by (auto simp: push_step_def q_follows_simps Let_def)
    qed
  next
    case (PushCount v r n)
    then show ?thesis using pc by (auto simp: push_step_def q_follows_simps Let_def intro!: g)
  next
    case (PushCas r new n)
    have c: "q_pc_ok N s (PushCas r new n)" "q_pushes s < n + N" using pc assms(2) PushCas by simp_all
    show ?thesis using PushCas rel_enqueue [OF assms(1) c(1) _ c(2)] by (auto simp: push_step_def q_follows_simps Let_def intro!: g)
  qed (use assms(1) in \<open>auto simp: push_step_def q_follows_simps Let_def\<close>)
qed

lemma pop_step_ok:
  assumes "q_rel N s xs" "timely N s (qs_pc s t)"
  shows "q_follows N xs (pop_step N spurious t s)"
proof -
  note i = q_relD [OF assms(1)] and g = rel_goto [OF assms(1)]
  have pc: "q_pc_ok N s (qs_pc s t)" by (rule i(2))
  show ?thesis
  proof (cases "qs_pc s t")
    case PopFront
    then show ?thesis using i by (auto simp: pop_step_def q_follows_simps Let_def intro!: g)
  next
    case (PopRear f m)
    have "f_index f = f_index (q_front (qs_q s))" if "qs_pops s = m" using that pc PopRear i(5) by (simp add: front_ok_def)
    then show ?thesis using PopRear pc i by (auto simp: pop_step_def q_follows_simps Let_def intro!: g)
  next
    case (PopCheck f r n m e)
    note p = pc [unfolded PopCheck q_pc_ok.simps]
    show ?thesis
    proof (cases "f = q_front (qs_q s)")
      case True
      have m: "qs_pops s = m" using front_unmoved [OF assms(1) _ True, of m] p assms(2) PopCheck by simp
      then have r: "m \<le> n" "n < m + N" "e = (f_index f = (r_index r + 1) mod N)" "n \<le> q_pushes s" using p by (simp_all add: rear_ok_def)
      have t: "f_index f = r_index r \<longleftrightarrow> n = m + 1" "f_index f = (r_index r + 1) mod N \<longleftrightarrow> n = m"
        using empty_tests [OF r(1,2) i(3)] p by (simp_all add: ok_defs mod_simps)
      have "node_ok N s (m + 1)" if "n \<noteq> m + 1" "n \<noteq> m" using i(8) [of "m + 1"] that r(1,4) m by simp
      then show ?thesis using True PopCheck p t r(1,3,4) by (auto simp: pop_step_def pop_test_def q_follows_simps Let_def intro!: g)
    qed (use PopCheck in \<open>auto simp: pop_step_def q_follows_simps Let_def intro!: g\<close>)
  next
    case (PopNode f r n m)
    then show ?thesis using pc by (auto simp: pop_step_def q_follows_simps Let_def intro!: g)
  next
    case (PopFin f r n m nd)
    let ?s = "set_node (r_index r) (Node (r_value r) (r_counter r)) s"
    have p: "rear_ok N s r n" "q_pushes s < n + N" "front_ok N s f m" "n = m + 1" using pc assms(2) PopFin by auto
    have again: "q_pc_ok N s (PopFin f r n m nd)" for nd using p by simp
    have "front_ok N ?s f m" "q_pushes ?s = q_pushes s" using p(3) by (simp_all add: front_ok_def q_pushes_def set_node_def)
    then have "q_rel N (node_exchange spurious t r nd (PopValue f m) (PopFin f r n m) s) xs"
      using p(1,4) by (intro rel_exchange [OF assms(1) p(1,2) again]) (auto simp: rear_ok_def)
    moreover have "pop_test N f r m = Some (PopValue f m)"
      using empty_tests(2) [of m n N] p i(3) by (simp add: pop_test_def ok_defs mod_simps)
    ultimately show ?thesis using PopFin by (auto simp: pop_step_def q_follows_simps Let_def)
  next
    case (PopValue f m)
    have "f_index f mod N = (m + 1) mod N" using pc PopValue by (simp add: front_ok_def)
    then show ?thesis using PopValue pc by (auto simp: pop_step_def q_follows_simps Let_def node_ok_def intro!: g)
  next
    case (PopCas f ret m)
    have c: "q_pc_ok N s (PopCas f ret m)" "qs_pops s < m + N" using pc assms(2) PopCas by simp_all
    show ?thesis
    proof (cases "q_front (qs_q s) = f")
      case True
      then show ?thesis using PopCas rel_dequeue [OF assms(1) c(1) True c(2), of t "f_counter f + 1"]
        by (auto simp: pop_step_def q_follows_simps Let_def)
    qed (use PopCas in \<open>auto simp: pop_step_def q_follows_simps Let_def intro!: g\<close>)
  qed (use assms(1) in \<open>auto simp: pop_step_def q_follows_simps Let_def\<close>)
qed

inductive_cases q_transE: "q_trans N may s e s'"

lemma q_trans_ok:
  assumes "q_rel N s xs" "q_trans N (timely N) s e s'"
  shows "q_follows N xs (e, s')"
  using assms(2)
proof (cases rule: q_trans.cases)
  case (step t spurious)
  then show ?thesis using push_step_ok [OF assms(1) step(1)] pop_step_ok [OF assms(1) step(1)]
    by (metis q_step_def)
qed (auto simp: q_follows_simps intro: rel_goto [OF assms(1)])

lemma q_start_rel:
  assumes "3 \<le> N" "q_start N s"
  shows "q_rel N s []"
  using assms by (auto simp: q_start_def q_rel_def shared_ok_def ArrayQueue_new_def ok_defs hist_def q_pushes_def)

text \<open>The ring of the allocator.\<close>

interpretation aqc: simulation "q_start QUEUE_CAP" "q_trans QUEUE_CAP (timely QUEUE_CAP)" "fifo_step QUEUE_CAP" "[]" "q_rel QUEUE_CAP"
proof
  show "q_rel QUEUE_CAP s []" if "q_start QUEUE_CAP s" for s using q_start_rel that by (simp add: QUEUE_CAP_def)
  show "q_rel QUEUE_CAP s' a" if "q_rel QUEUE_CAP s a" "q_trans QUEUE_CAP (timely QUEUE_CAP) s None s'" for s a s'
    using q_trans_ok [OF that] by (simp add: q_follows_simps)
  show "\<exists>a'. fifo_step QUEUE_CAP e a = Some a' \<and> q_rel QUEUE_CAP s' a'"
    if "q_rel QUEUE_CAP s a" "q_trans QUEUE_CAP (timely QUEUE_CAP) s (Some e) s'" for s a e s'
    using q_trans_ok [OF that] by (simp add: q_follows_simps)
qed

section \<open>Uninterrupted calls\<close>

text \<open>The operations of the sequential queue are the same steps without a pause.\<close>

abbreviation anyone :: "qsys \<Rightarrow> q_pc \<Rightarrow> bool" where
  "anyone \<equiv> \<lambda>_ _. True"

lemma goto_goto [simp]: "goto t c (goto t d s) = goto t c s"
  by (simp add: goto_def)

lemma goto_idle [simp]: "qs_pc s t = Idle \<Longrightarrow> goto t Idle s = s"
  by (simp add: goto_def fun_upd_idem)

text \<open>A condition on who may move that lets every timely thread move.\<close>

definition lax :: "nat \<Rightarrow> (qsys \<Rightarrow> q_pc \<Rightarrow> bool) \<Rightarrow> bool" where
  "lax N may \<longleftrightarrow> 0 < N \<and> (\<forall>s c. timely N s c \<longrightarrow> may s c)"

lemma alone_step:
  assumes "lax N may" "q_step N False t s = (None, s') \<and> timely N s (qs_pc s t)" "sys_steps (q_trans N may) s' es s''"
  shows "sys_steps (q_trans N may) s es s''"
  using sys_steps_silent [OF q_trans.step assms(3)] assms(1,2) unfolding lax_def by blast

lemma alone_last:
  "lax N may \<Longrightarrow> q_step N False t s = (Some e, s') \<and> timely N s (qs_pc s t) \<Longrightarrow> sys_steps (q_trans N may) s [e] s'"
  by (rule sys_steps_last, rule q_trans.step) (auto simp: lax_def)

text \<open>The exchange on a node succeeds at the second attempt at the latest.\<close>

lemma node_exchange_alone:
  "node_exchange False t r nd ok again (goto t (again nd) s) =
     (if q_nodes (qs_q s) ! r_index r = nd then goto t ok (set_node (r_index r) (Node (r_value r) (r_counter r)) s)
      else goto t (again (q_nodes (qs_q s) ! r_index r)) s)"
  by (simp add: node_exchange_def node_cas_def Let_def set_node_def goto_def)

lemma finish_alone:
  assumes "lax N may" "\<And>nd. q_step N False t (goto t (again nd) s) = (None, node_exchange False t r nd ok again (goto t (again nd) s))
      \<and> timely N (goto t (again nd) s) (again nd)"
    "sys_steps (q_trans N may) (goto t ok (set_node (r_index r) (Node (r_value r) (r_counter r)) s)) es s''"
  shows "sys_steps (q_trans N may) (goto t (again nd) s) es s''"
proof -
  let ?cur = "q_nodes (qs_q s) ! r_index r"
  have *: "sys_steps (q_trans N may) (goto t (again ?cur) s) es s''"
    using alone_step [OF assms(1), of t "goto t (again ?cur) s"] assms(2) [of ?cur] assms(3) by (simp add: node_exchange_alone)
  show ?thesis using alone_step [OF assms(1), of t "goto t (again nd) s"] assms(2) [of nd] assms(3) *
    by (simp add: node_exchange_alone split: if_splits)
qed

lemma q_push_alone:
  assumes l: "lax N may" and a: "qs_pc s t = Idle" "aq_inv N (qs_q s)" "aq_push N 0 (qs_q s) v = Inr q'"
  shows "sys_steps (q_trans N may) s [Enq t v] (s\<lparr>qs_q := q', qs_pushed := qs_pushed s @ [v]\<rparr>)"
proof -
  let ?r = "q_rear (qs_q s)" and ?f = "q_front (qs_q s)" and ?n = "q_pushes s" and ?m = "qs_pops s"
  let ?full = "f_index ?f = (r_index ?r + 2) mod N" and ?i = "(r_index ?r + 1) mod N"
  define s1 where "s1 = set_node (r_index ?r) (Node (r_value ?r) (r_counter ?r)) s"
  define new where "new = \<lparr>r_value = v, r_index = ?i, r_counter = ucast (n_counter (q_nodes (qs_q s1) ! ?i) + 1)\<rparr>"
  have N: "0 < N" using l by (simp add: lax_def)
  note st = alone_step [OF l, where t = t] and ev = N q_step_def is_push_pc_def push_step_def Let_def
  have len: "r_index ?r < length (q_nodes (qs_q s))" using a(2) by (simp add: aq_inv_def)
  have nf: "\<not> ?full" and q': "q' = (qs_q s1)\<lparr>q_rear := new\<rparr>" and sr: "q_rear (qs_q s1) = ?r" "qs_pushed s1 = qs_pushed s" "qs_pc s1 = qs_pc s"
    using a(3) len
    by (auto simp: push_round_def finish_enqueue_eq Let_def s1_def new_def set_node_def assertE_def split: if_splits)
  have "sys_steps (q_trans N may) (goto t (PushCas ?r new ?n) s1) [Enq t v]
      (goto t Idle (s1\<lparr>qs_q := (qs_q s1)\<lparr>q_rear := new\<rparr>, qs_pushed := qs_pushed s1 @ [v]\<rparr>))"
    by (rule alone_last [OF l, where t = t]) (simp add: ev sr new_def goto_def q_pushes_def)
  also have "goto t Idle (s1\<lparr>qs_q := (qs_q s1)\<lparr>q_rear := new\<rparr>, qs_pushed := qs_pushed s1 @ [v]\<rparr>) = s\<lparr>qs_q := q', qs_pushed := qs_pushed s @ [v]\<rparr>"
    using a(1) by (simp add: q' sr goto_def fun_upd_idem) (simp add: s1_def set_node_def)
  finally have "sys_steps (q_trans N may) (goto t (PushCas ?r new ?n) s1) [Enq t v] (s\<lparr>qs_q := q', qs_pushed := qs_pushed s @ [v]\<rparr>)" .
  then have "sys_steps (q_trans N may) (goto t (PushCount v ?r ?n) s1) [Enq t v] (s\<lparr>qs_q := q', qs_pushed := qs_pushed s @ [v]\<rparr>)"
    by (rule st [rotated]) (simp add: ev new_def)
  then have "sys_steps (q_trans N may) (goto t (PushFin v ?r ?f ?n ?m ?full (old_node s ?r)) s) [Enq t v] (s\<lparr>qs_q := q', qs_pushed := qs_pushed s @ [v]\<rparr>)"
    unfolding s1_def by (rule finish_alone [OF l, rotated]) (use nf in \<open>simp add: ev\<close>)
  then have "sys_steps (q_trans N may) (goto t (PushNode v ?r ?f ?n ?m ?full) s) [Enq t v] (s\<lparr>qs_q := q', qs_pushed := qs_pushed s @ [v]\<rparr>)"
    by (rule st [rotated]) (simp add: ev old_node_def)
  then have "sys_steps (q_trans N may) (goto t (PushCheck v ?r ?f ?n ?m ?full) s) [Enq t v] (s\<lparr>qs_q := q', qs_pushed := qs_pushed s @ [v]\<rparr>)"
    by (rule st [rotated]) (simp add: ev)
  then have "sys_steps (q_trans N may) (goto t (PushFront v ?r ?n) s) [Enq t v] (s\<lparr>qs_q := q', qs_pushed := qs_pushed s @ [v]\<rparr>)"
    by (rule st [rotated]) (simp add: ev)
  then have "sys_steps (q_trans N may) (goto t (PushRear v) s) [Enq t v] (s\<lparr>qs_q := q', qs_pushed := qs_pushed s @ [v]\<rparr>)"
    by (rule st [rotated]) (simp add: ev)
  then show ?thesis by (rule sys_steps_silent [rotated]) (rule q_trans.push [where t = t], rule a(1))
qed

lemma q_pop_alone:
  assumes l: "lax N may" and a: "qs_pc s t = Idle" "aq_inv N (qs_q s)" "aq_pop N (qs_q s) = Inr (Some v, q')"
  shows "sys_steps (q_trans N may) s [Deq t v] (s\<lparr>qs_q := q', qs_pops := qs_pops s + 1\<rparr>)"
proof -
  let ?r = "q_rear (qs_q s)" and ?f = "q_front (qs_q s)" and ?n = "q_pushes s" and ?m = "qs_pops s"
  let ?empty = "f_index ?f = (r_index ?r + 1) mod N" and ?s' = "s\<lparr>qs_q := q', qs_pops := qs_pops s + 1\<rparr>"
  define s1 where "s1 = (if f_index ?f = r_index ?r then set_node (r_index ?r) (Node (r_value ?r) (r_counter ?r)) s else s)"
  define new where "new = \<lparr>f_index = (f_index ?f + 1) mod N, f_counter = f_counter ?f + 1\<rparr>"
  have N: "0 < N" using l by (simp add: lax_def)
  note st = alone_step [OF l, where t = t] and ev = N q_step_def is_push_pc_def pop_step_def pop_test_def Let_def
  have len: "r_index ?r < length (q_nodes (qs_q s))" using a(2) by (simp add: aq_inv_def)
  have ne: "\<not> ?empty" and v: "v = n_value (q_nodes (qs_q s1) ! (f_index ?f mod N))" and q': "q' = (qs_q s1)\<lparr>q_front := new\<rparr>"
    and sr: "q_front (qs_q s1) = ?f" "qs_pops s1 = qs_pops s" "qs_pc s1 = qs_pc s"
    using a(3) len by (auto simp: aq_pop_def finish_enqueue_eq Let_def s1_def new_def set_node_def split: if_splits)
  have "sys_steps (q_trans N may) (goto t (PopCas ?f v ?m) s1) [Deq t v] (goto t Idle (s1\<lparr>qs_q := (qs_q s1)\<lparr>q_front := new\<rparr>, qs_pops := qs_pops s1 + 1\<rparr>))"
    by (rule alone_last [OF l, where t = t]) (simp add: ev sr new_def goto_def q_pushes_def)
  also have "goto t Idle (s1\<lparr>qs_q := (qs_q s1)\<lparr>q_front := new\<rparr>, qs_pops := qs_pops s1 + 1\<rparr>) = ?s'"
    using a(1) by (simp add: q' sr goto_def fun_upd_idem) (simp add: s1_def set_node_def)
  finally have "sys_steps (q_trans N may) (goto t (PopCas ?f v ?m) s1) [Deq t v] ?s'" .
  then have read: "sys_steps (q_trans N may) (goto t (PopValue ?f ?m) s1) [Deq t v] ?s'"
    by (rule st [rotated]) (simp add: ev v)
  have "sys_steps (q_trans N may) (goto t (PopCheck ?f ?r ?n ?m ?empty) s) [Deq t v] ?s'"
  proof (cases "f_index ?f = r_index ?r")
    case True
    have "sys_steps (q_trans N may) (goto t (PopFin ?f ?r ?n ?m (old_node s ?r)) s) [Deq t v] ?s'"
      by (rule finish_alone [OF l, where ok = "PopValue ?f ?m"]) (use ne True read in \<open>simp_all add: ev s1_def\<close>)
    then have "sys_steps (q_trans N may) (goto t (PopNode ?f ?r ?n ?m) s) [Deq t v] ?s'"
      by (rule st [rotated]) (simp add: ev old_node_def)
    then show ?thesis by (rule st [rotated]) (simp add: ev True)
  next
    case False
    show ?thesis by (rule st [OF _ read]) (use False ne in \<open>simp add: ev s1_def\<close>)
  qed
  then have "sys_steps (q_trans N may) (goto t (PopRear ?f ?m) s) [Deq t v] ?s'"
    by (rule st [rotated]) (simp add: ev)
  then have "sys_steps (q_trans N may) (goto t PopFront s) [Deq t v] ?s'"
    by (rule st [rotated]) (simp add: ev)
  then show ?thesis by (rule sys_steps_silent [rotated]) (rule q_trans.pop [where t = t], rule a(1))
qed

section \<open>A helper that is overtaken\<close>

lemma aq_push_regs:
  assumes "aq_inv N q" "aq_push N 0 q v = Inr q'"
  shows "r_index (q_rear q') = (r_index (q_rear q) + 1) mod N" "r_value (q_rear q') = v" "q_front q' = q_front q"
    "q_nodes q' = (q_nodes q)[r_index (q_rear q) := Node (r_value (q_rear q)) (r_counter (q_rear q))]"
  using assms by (auto simp: push_round_def finish_enqueue_eq aq_inv_def Let_def split: if_splits)

lemma aq_pop_regs:
  assumes "aq_inv N q" "aq_pop N q = Inr (Some v, q')"
  shows "q_rear q' = q_rear q"
  using assms by (auto simp: aq_pop_def finish_enqueue_eq aq_inv_def Let_def split: if_splits)

text \<open>Pushes and pops in turn leave an empty queue whose registers have moved on.\<close>

lemma push_pop_alone:
  assumes l: "lax N may" and a: "qs_pc s t = Idle" "aq_inv N (qs_q s)" "queue_abs N (qs_q s) = []"
  shows "\<exists>s'. sys_steps (q_trans N may) s [Enq t v, Deq t v] s' \<and> qs_pc s' = qs_pc s \<and> aq_inv N (qs_q s')
    \<and> queue_abs N (qs_q s') = [] \<and> r_index (q_rear (qs_q s')) = (r_index (q_rear (qs_q s)) + 1) mod N"
proof -
  have "aq_count N (qs_q s) < N - 1" using a(2) length_queue_abs [of N "qs_q s"] unfolding a(3) by (simp add: aq_inv_def)
  then obtain q1 where q1: "aq_push N 0 (qs_q s) v = Inr q1" "aq_inv N q1" "queue_abs N q1 = [v]"
    using aq_push_room [OF a(2), of 0 v] a(3) by auto
  obtain q2 where q2: "aq_pop N q1 = Inr (Some v, q2)" "aq_inv N q2" "queue_abs N q2 = []" using aq_pop_some [OF q1(2,3)] .
  let ?s1 = "s\<lparr>qs_q := q1, qs_pushed := qs_pushed s @ [v]\<rparr>"
  have "sys_steps (q_trans N may) s ([Enq t v] @ [Deq t v]) (?s1\<lparr>qs_q := q2, qs_pops := qs_pops ?s1 + 1\<rparr>)"
    by (rule sys_steps_append [OF q_push_alone [OF l a(1,2) q1(1)] q_pop_alone [OF l]]) (use a(1) q1 q2 in simp_all)
  then show ?thesis using q2 aq_push_regs(1) [OF a(2) q1(1)] aq_pop_regs [OF q1(2) q2(1)]
    by (intro exI [of _ "?s1\<lparr>qs_q := q2, qs_pops := qs_pops ?s1 + 1\<rparr>"]) simp
qed

lemma round_alone:
  assumes l: "lax N may" and a: "qs_pc s t = Idle" "aq_inv N (qs_q s)" "queue_abs N (qs_q s) = []"
  shows "\<exists>s'. sys_steps (q_trans N may) s (concat (replicate k [Enq t v, Deq t v])) s' \<and> qs_pc s' = qs_pc s \<and> aq_inv N (qs_q s')
    \<and> queue_abs N (qs_q s') = [] \<and> r_index (q_rear (qs_q s')) = (r_index (q_rear (qs_q s)) + k) mod N"
  using a
proof (induction k arbitrary: s)
  case 0
  then show ?case by (intro exI [of _ s]) (simp add: sys_steps.stop aq_inv_def)
next
  case (Suc k)
  obtain s1 where s1: "sys_steps (q_trans N may) s [Enq t v, Deq t v] s1" "qs_pc s1 = qs_pc s" "aq_inv N (qs_q s1)"
    "queue_abs N (qs_q s1) = []" "r_index (q_rear (qs_q s1)) = (r_index (q_rear (qs_q s)) + 1) mod N"
    using push_pop_alone [OF l Suc.prems, of v] by blast
  obtain s2 where s2: "sys_steps (q_trans N may) s1 (concat (replicate k [Enq t v, Deq t v])) s2" "qs_pc s2 = qs_pc s1" "aq_inv N (qs_q s2)"
    "queue_abs N (qs_q s2) = []" "r_index (q_rear (qs_q s2)) = (r_index (q_rear (qs_q s1)) + k) mod N"
    using Suc.IH [of s1] Suc.prems(1) s1 by auto
  show ?case using sys_steps_append [OF s1(1) s2(1)] s1 s2 by (intro exI [of _ s2]) (simp add: mod_simps)
qed

text \<open>The help of thread 0 for the push of \<open>v\<close> into slot 1, stopped before its exchange.\<close>

lemma helper_stops:
  assumes l: "lax N may" and a: "qs_pc s t = Idle" "f_index (q_front (qs_q s)) \<noteq> (r_index (q_rear (qs_q s)) + 2) mod N"
  shows "\<exists>f n m e nd. sys_steps (q_trans N may) s [] (goto t (PushFin x (q_rear (qs_q s)) f n m e nd) s)
    \<and> f_index f \<noteq> (r_index (q_rear (qs_q s)) + 2) mod N"
proof -
  let ?r = "q_rear (qs_q s)" and ?f = "q_front (qs_q s)" and ?n = "q_pushes s" and ?m = "qs_pops s"
  have N: "0 < N" using l by (simp add: lax_def)
  note st = alone_step [OF l, where t = t] and ev = N q_step_def is_push_pc_def push_step_def Let_def
  let ?fin = "goto t (PushFin x ?r ?f ?n ?m False (old_node s ?r)) s"
  have "sys_steps (q_trans N may) ?fin [] ?fin" by (rule sys_steps.stop)
  then have "sys_steps (q_trans N may) (goto t (PushNode x ?r ?f ?n ?m False) s) [] ?fin"
    by (rule st [rotated]) (simp add: ev old_node_def)
  then have "sys_steps (q_trans N may) (goto t (PushCheck x ?r ?f ?n ?m False) s) [] ?fin"
    by (rule st [rotated]) (simp add: ev)
  then have "sys_steps (q_trans N may) (goto t (PushFront x ?r ?n) s) [] ?fin"
    by (rule st [rotated]) (use a(2) in \<open>simp add: ev\<close>)
  then have "sys_steps (q_trans N may) (goto t (PushRear x) s) [] ?fin"
    by (rule st [rotated]) (simp add: ev)
  then have "sys_steps (q_trans N may) s [] ?fin"
    by (rule sys_steps_silent [rotated]) (rule q_trans.push [where t = t], rule a(1))
  then show ?thesis using a(2) by blast
qed

lemma lax_timely: "0 < N \<Longrightarrow> lax N (timely N)"
  by (simp add: lax_def)

lemma lax_anyone: "0 < N \<Longrightarrow> lax N anyone"
  by (simp add: lax_def)

text \<open>The ring in a related state is the one whose content \<open>queue_abs\<close> reads.\<close>

lemma rel_queue_abs:
  assumes "q_rel N s xs"
  shows "aq_inv N (qs_q s)" "queue_abs N (qs_q s) = xs"
proof -
  let ?q = "qs_q s" and ?P = "q_pushes s" and ?m = "qs_pops s"
  note i = q_relD [OF assms]
  have fr: "f_index (q_front ?q) = (?m + 1) mod N" "r_index (q_rear ?q) = ?P mod N" "r_value (q_rear ?q) = hist s ?P"
    using i(4,5) by (simp_all add: ok_defs)
  show inv: "aq_inv N ?q" using i(1,3) fr by (simp add: aq_inv_def shared_ok_def)
  have cnt: "aq_count N ?q = ?P - ?m"
  proof (rule aq_count_unique [OF inv])
    show "?P - ?m < N" using i(6,7) by simp
    have "?m + 1 + (?P - ?m) = ?P + 1" using i(6) by simp
    then show "(f_index (q_front ?q) + (?P - ?m)) mod N = (r_index (q_rear ?q) + 1) mod N"
      unfolding fr by (metis mod_add_left_eq)
  qed
  have "aq_val ?q ((f_index (q_front ?q) + k) mod N) = hist s (?m + 1 + k)" if k: "k < ?P - ?m" for k
  proof -
    have slot: "(f_index (q_front ?q) + k) mod N = (?m + 1 + k) mod N" unfolding fr by (rule mod_add_left_eq)
    show ?thesis
    proof (cases "?m + 1 + k = ?P")
      case True
      then show ?thesis using fr slot by (simp add: aq_val_def)
    next
      case False
      have "?m + 1 + k < ?P + N" "?P < ?m + 1 + k + N" using k i(3,7) by linarith+
      then have "(?m + 1 + k) mod N \<noteq> ?P mod N" using window_eq [of "?m + 1 + k" N ?P] False by blast
      then show ?thesis using i(8) [of "?m + 1 + k"] k False fr slot by (simp add: aq_val_def node_ok_def)
    qed
  qed
  then have "queue_abs N ?q = map (\<lambda>k. hist s (?m + 1 + k)) [0..<?P - ?m]" by (simp add: queue_abs_def cnt)
  also have "\<dots> = drop ?m (qs_pushed s)" by (rule nth_equalityI) (simp_all add: q_pushes_def hist_def add.commute)
  finally show "queue_abs N ?q = xs" using assms by (simp add: q_rel_def)
qed

section \<open>Properties\<close>

text \<open>C13: Every execution of any number of threads that push and pop on the queue of superblocks, in any
  interleaving of their atomic accesses and with any spurious failures, is one of a FIFO queue of
  79999 places, as long as no thread goes on with a register it has read a whole round of the
  ring before: the completed calls in their order are a run of the queue, whose content is what the ring
  holds; a pop without a value has seen the queue empty and a push that fails its assertion
  has seen it full at a moment of its call.\<close>

theorem array_queue_linearizable:
  assumes "sys_run (q_start QUEUE_CAP) (q_trans QUEUE_CAP (timely QUEUE_CAP)) s es"
  shows "\<exists>xs. spec_run (fifo_step QUEUE_CAP) es [] = Some xs \<and> queue_abs QUEUE_CAP (qs_q s) = xs \<and> aq_inv QUEUE_CAP (qs_q s)"
  using aqc.run_refines [OF assms] rel_queue_abs by blast


text \<open>
  Thread 1 pushes 7; thread 0 starts to push and is interrupted while it helps; thread 2 pushes 8
  and thread 1 pops.
\<close>

definition queue_begin :: "nat \<Rightarrow> qsys" where
  "queue_begin N = \<lparr>qs_q = ArrayQueue_new N, qs_pc = \<lambda>_. Idle, qs_pushed = [], qs_pops = 0\<rparr>"

lemma first_push:
  assumes "lax N may" "3 \<le> N"
  shows "\<exists>s q f n m e nd. sys_steps (q_trans N may) (queue_begin N) [Enq 1 v] (goto 0 (PushFin x (q_rear q) f n m e nd) s)
    \<and> qs_q s = q \<and> qs_pc s = (\<lambda>_. Idle) \<and> aq_inv N q \<and> queue_abs N q = [v] \<and> r_index (q_rear q) = 1 \<and> r_value (q_rear q) = v
    \<and> f_index f \<noteq> (1 + 2) mod N"
proof -
  let ?s = "queue_begin N"
  have q: "qs_q ?s = ArrayQueue_new N" "qs_pc ?s = (\<lambda>_. Idle)" by (simp_all add: queue_begin_def)
  note inv = aq_inv_new [OF assms(2)]
  have e: "queue_abs N (ArrayQueue_new N) = []" by (rule queue_abs_new [OF assms(2)])
  then have "aq_count N (ArrayQueue_new N) < N - 1" using assms(2) length_queue_abs [of N "ArrayQueue_new N"] by simp
  then obtain q1 where q1: "aq_push N 0 (ArrayQueue_new N) v = Inr q1" "aq_inv N q1" "queue_abs N q1 = [v]"
    using aq_push_room [OF inv, of 0 v] e by auto
  let ?s1 = "?s\<lparr>qs_q := q1, qs_pushed := qs_pushed ?s @ [v]\<rparr>"
  have p: "sys_steps (q_trans N may) ?s [Enq 1 v] ?s1"
    using q_push_alone [OF assms(1), of ?s 1 v q1] q inv q1(1) by simp
  have r: "r_index (q_rear q1) = 1" "r_value (q_rear q1) = v" "f_index (q_front q1) = 1"
    using aq_push_regs [OF inv q1(1)] assms(2) by (simp_all add: ArrayQueue_new_def)
  have nf: "(1::nat) \<noteq> (1 + 2) mod N" using assms(2) by (cases "N = 3") auto
  then obtain f n m e nd where h: "sys_steps (q_trans N may) ?s1 [] (goto 0 (PushFin x (q_rear q1) f n m e nd) ?s1)"
      "f_index f \<noteq> (r_index (q_rear q1) + 2) mod N"
    using helper_stops [OF assms(1), of ?s1 0 x] q r by (auto simp: queue_begin_def)
  have "sys_steps (q_trans N may) ?s [Enq 1 v] (goto 0 (PushFin x (q_rear q1) f n m e nd) ?s1)"
    using sys_steps_append [OF p h(1)] by simp
  moreover have "f_index f \<noteq> (1 + 2) mod N" using h(2) r by simp
  ultimately show ?thesis using q1 q(2) r by (intro exI [of _ ?s1] exI [of _ q1] exI [of _ f] exI [of _ n] exI [of _ m] exI [of _ e] exI [of _ nd]) simp
qed

lemma queue_begin_run: "sys_run (q_start N) (q_trans N may) (queue_begin N) []"
  by (rule sys_run.start) (simp add: q_start_def queue_begin_def)

theorem array_queue_linearizable_witness:
  "\<exists>s. sys_run (q_start QUEUE_CAP) (q_trans QUEUE_CAP (timely QUEUE_CAP)) s [Enq 1 7, Enq 2 8, Deq 1 7]
    \<and> queue_abs QUEUE_CAP (qs_q s) = [8]"
proof -
  let ?N = QUEUE_CAP
  have N: "3 \<le> ?N" "lax ?N (timely ?N)" by (simp_all add: QUEUE_CAP_def lax_timely)
  obtain s q f n m e nd where s: "sys_steps (q_trans ?N (timely ?N)) (queue_begin ?N) [Enq 1 7] (goto 0 (PushFin 5 (q_rear q) f n m e nd) s)"
    "qs_q s = q" "qs_pc s = (\<lambda>_. Idle)" "aq_inv ?N q" "queue_abs ?N q = [7]"
    using first_push [OF N(2,1), of 7 5] by blast
  let ?s = "goto 0 (PushFin 5 (q_rear q) f n m e nd) s"
  have "aq_count ?N q < ?N - 1" using s(5) length_queue_abs [of ?N q] by (simp add: QUEUE_CAP_def)
  then obtain q1 where q1: "aq_push ?N 0 q 8 = Inr q1" "aq_inv ?N q1" "queue_abs ?N q1 = [7, 8]" using aq_push_room [OF s(4), of 0 8] s(5) by auto
  obtain q2 where q2: "aq_pop ?N q1 = Inr (Some 7, q2)" using aq_pop_some [OF q1(2,3)] .
  let ?s1 = "?s\<lparr>qs_q := q1, qs_pushed := qs_pushed ?s @ [8]\<rparr>"
  have "sys_steps (q_trans ?N (timely ?N)) ?s [Enq 2 8] ?s1" by (rule q_push_alone [OF N(2)]) (use s q1 in simp_all)
  moreover have "sys_steps (q_trans ?N (timely ?N)) ?s1 [Deq 1 7] (?s1\<lparr>qs_q := q2, qs_pops := qs_pops ?s1 + 1\<rparr>)"
    by (rule q_pop_alone [OF N(2)]) (use s q1 q2 in simp_all)
  ultimately have "sys_run (q_start ?N) (q_trans ?N (timely ?N)) (?s1\<lparr>qs_q := q2, qs_pops := qs_pops ?s1 + 1\<rparr>) [Enq 1 7, Enq 2 8, Deq 1 7]"
    using sys_run_steps [OF sys_steps_append [OF s(1) sys_steps_append] queue_begin_run] by fastforce
  from this array_queue_linearizable [OF this] show ?thesis by (auto simp: QUEUE_CAP_def split: if_splits)
qed

text \<open>What thread 1 does while thread 0 waits, and that no FIFO queue answers like this.\<close>

definition overtaking :: "nat \<Rightarrow> u64 \<Rightarrow> u64 \<Rightarrow> u64 \<Rightarrow> u64 \<Rightarrow> q_event list" where
  "overtaking N v z w u = [Enq 1 v, Deq 1 v] @ concat (replicate (N - 1) [Enq 1 z, Deq 1 z]) @ [Enq 1 w, Enq 1 u, Deq 1 v]"

lemma round_spec:
  "3 \<le> N \<Longrightarrow> spec_run (fifo_step N) (concat (replicate k [Enq t z, Deq t z])) [] = Some []"
  by (induction k) (auto split: option.splits)

lemma overtaking_no_fifo: "3 \<le> N \<Longrightarrow> w \<noteq> v \<Longrightarrow> spec_run (fifo_step N) (overtaking N v z w u) [] = None"
  by (auto simp: overtaking_def spec_run_append round_spec)

text \<open>The late exchange: slot 1 gets \<open>v\<close> back, whatever it holds.\<close>

lemma late_exchange:
  assumes "0 < N" "qs_pc s t = PushFin x r f n m e nd" "f_index f \<noteq> (r_index r + 2) mod N"
  shows "sys_steps (q_trans N anyone) s [] (goto t (PushCount x r n) (set_node (r_index r) (Node (r_value r) (r_counter r)) s))"
proof -
  let ?again = "PushFin x r f n m e"
  have q: "q_trans N anyone (goto t (?again c) s) None (node_exchange False t r c (PushCount x r n) ?again (goto t (?again c) s))" for c
    by (rule q_trans.step [where t = t and spurious = False]) (use assms(3) in \<open>simp_all add: q_step_def is_push_pc_def push_step_def Let_def\<close>)
  have s: "goto t (?again nd) s = s" using assms(2) by (simp add: goto_def fun_upd_idem)
  let ?cur = "q_nodes (qs_q s) ! r_index r"
  have "sys_steps (q_trans N anyone) (goto t (?again ?cur) s) [] (goto t (PushCount x r n) (set_node (r_index r) (Node (r_value r) (r_counter r)) s))"
    using sys_steps_one [of "q_trans N anyone", OF q [of ?cur]] by (simp add: node_exchange_alone)
  moreover have "node_exchange False t r nd (PushCount x r n) ?again s =
      (if ?cur = nd then goto t (PushCount x r n) (set_node (r_index r) (Node (r_value r) (r_counter r)) s) else goto t (?again ?cur) s)"
    by (simp add: node_exchange_def node_cas_def Let_def)
  moreover have "q_trans N anyone s None (node_exchange False t r nd (PushCount x r n) ?again s)" using q [of nd] unfolding s .
  ultimately show ?thesis using sys_steps_one [of "q_trans N anyone" s] sys_steps_silent [of "q_trans N anyone" s] by (metis (no_types))
qed

text \<open>A queue that has come round: two more pushes and the late exchange make the next pop return \<open>v\<close>.\<close>

lemma come_round:
  assumes "3 \<le> N" "aq_inv N q" "queue_abs N q = []" "r_index (q_rear q) = 0"
  obtains q1 q2 where "aq_push N 0 q w = Inr q1" "aq_inv N q1" "aq_push N 0 q1 u = Inr q2" "aq_inv N q2"
    "f_index (q_front q2) = 1" "r_index (q_rear q2) = 2" "r_value (q_rear q2) = u"
proof -
  have c: "aq_count N q = 0" using assms(3) length_queue_abs [of N q] by simp
  then obtain q1 where q1: "aq_push N 0 q w = Inr q1" "aq_inv N q1" "queue_abs N q1 = [w]"
    using aq_push_room [OF assms(2), of 0 w] assms(1,3) by auto
  have "aq_count N q1 < N - 1" using q1(3) assms(1) length_queue_abs [of N q1] by simp
  then obtain q2 where q2: "aq_push N 0 q1 u = Inr q2" "aq_inv N q2" using aq_push_room [OF q1(2), of 0 u] by metis
  have "f_index (q_front q) = 1" using aq_empty_iff [OF assms(2)] c assms(1,4) by simp
  then show thesis using aq_push_regs [OF assms(2) q1(1)] aq_push_regs [OF q1(2) q2(1)] assms(1,4) q1 q2
    by (intro that [of q1 q2]) (auto simp: numeral_2_eq_2)
qed

lemma pop_stale:
  assumes "3 \<le> N" "aq_inv N q" "f_index (q_front q) = 1" "r_index (q_rear q) = 2" "n_value (q_nodes q ! 1) = v" "r_value (q_rear q) = u"
  shows "\<exists>q'. aq_pop N q = Inr (Some v, q') \<and> queue_abs N q' = [u]"
proof -
  have "aq_count N q = 2" using assms by (intro aq_count_unique) (auto simp: numeral_2_eq_2)
  then have "queue_abs N q = [v, u]"
    using assms by (simp add: queue_abs_def aq_val_def numeral_2_eq_2 upt_rec)
  then show ?thesis using aq_pop_some [OF assms(2)] by metis
qed

text \<open>C24: A helper that is overtaken by a whole round of the ring destroys the queue.  Thread 0 reads
  \<open>rear\<close> in slot 1 and is interrupted before its exchange in \<open>finish_enqueue\<close>; thread 1 pops that value \<open>v\<close>,
  goes round once and pushes \<open>w\<close> and \<open>u\<close>; then the exchange of thread 0 writes \<open>v\<close> over \<open>w\<close>.  The next pop
  returns \<open>v\<close>, which was pushed once and has been popped before, and \<open>w\<close> is lost: no FIFO queue has
  this run.  For the allocator two threads then own the same superblock.\<close>

theorem overtaken_helper_duplicates:
  assumes "3 \<le> N" "w \<noteq> v"
  shows "\<exists>s. sys_run (q_start N) (q_trans N anyone) s (overtaking N v z w u) \<and> queue_abs N (qs_q s) = [u]
    \<and> spec_run (fifo_step N) (overtaking N v z w u) [] = None"
proof -
  have l: "lax N anyone" "0 < N" using assms(1) lax_anyone by auto
  obtain s q f n m e nd where s: "sys_steps (q_trans N anyone) (queue_begin N) [Enq 1 v] (goto 0 (PushFin 0 (q_rear q) f n m e nd) s)"
    "qs_q s = q" "qs_pc s = (\<lambda>_. Idle)" "aq_inv N q" "queue_abs N q = [v]" "r_index (q_rear q) = 1" "r_value (q_rear q) = v" "f_index f \<noteq> (1 + 2) mod N"
    using first_push [OF l(1) assms(1), of v 0] by blast
  let ?fin = "PushFin 0 (q_rear q) f n m e nd"
  let ?s = "goto 0 ?fin s"
  obtain q0 where q0: "aq_pop N q = Inr (Some v, q0)" "aq_inv N q0" "queue_abs N q0 = []" using aq_pop_some [OF s(4,5)] .
  let ?sp = "?s\<lparr>qs_q := q0, qs_pops := qs_pops ?s + 1\<rparr>"
  have st0: "sys_steps (q_trans N anyone) ?s [Deq 1 v] ?sp" by (rule q_pop_alone [OF l(1)]) (use s q0 in simp_all)
  obtain s1 where s1: "sys_steps (q_trans N anyone) ?sp (concat (replicate (N - 1) [Enq 1 z, Deq 1 z])) s1" "qs_pc s1 = qs_pc ?sp"
      "aq_inv N (qs_q s1)" "queue_abs N (qs_q s1) = []" "r_index (q_rear (qs_q s1)) = (r_index (q_rear (qs_q ?sp)) + (N - 1)) mod N"
    using round_alone [OF l(1), of ?sp 1 "N - 1" z] s q0 by auto
  have r0: "r_index (q_rear (qs_q s1)) = 0" using s1(5) aq_pop_regs [OF s(4) q0(1)] s(6) assms(1) by simp
  obtain q1 q2 where q: "aq_push N 0 (qs_q s1) w = Inr q1" "aq_inv N q1" "aq_push N 0 q1 u = Inr q2" "aq_inv N q2"
      "f_index (q_front q2) = 1" "r_index (q_rear q2) = 2" "r_value (q_rear q2) = u" using come_round [OF assms(1) s1(3,4) r0] .
  let ?s2 = "s1\<lparr>qs_q := q1, qs_pushed := qs_pushed s1 @ [w]\<rparr>"
  let ?s3 = "?s2\<lparr>qs_q := q2, qs_pushed := qs_pushed ?s2 @ [u]\<rparr>"
  let ?s4 = "goto 0 (PushCount 0 (q_rear q) n) (set_node 1 (Node v (r_counter (q_rear q))) ?s3)"
  have pc: "qs_pc s1 0 = ?fin" "qs_pc s1 1 = Idle" using s1(2) s(3) by simp_all
  have st: "sys_steps (q_trans N anyone) s1 [Enq 1 w] ?s2" by (rule q_push_alone [OF l(1)]) (use pc s1 q in simp_all)
  have st3: "sys_steps (q_trans N anyone) ?s2 [Enq 1 u] ?s3" by (rule q_push_alone [OF l(1)]) (use pc q in simp_all)
  have st4: "sys_steps (q_trans N anyone) ?s3 [] ?s4"
    using late_exchange [OF l(2), of ?s3 0 0 "q_rear q" f n m e nd] pc s(6-8) by simp
  have len: "1 < length (q_nodes q2)" using q(4) assms(1) by (simp add: aq_inv_def)
  then obtain q5 where q5: "aq_pop N (qs_q ?s4) = Inr (Some v, q5)" "queue_abs N q5 = [u]"
    using pop_stale [OF assms(1), of "qs_q ?s4" v u] q by (auto simp: set_node_def aq_inv_def Node_def)
  let ?s5 = "?s4\<lparr>qs_q := q5, qs_pops := qs_pops ?s4 + 1\<rparr>"
  have st5: "sys_steps (q_trans N anyone) ?s4 [Deq 1 v] ?s5"
    by (rule q_pop_alone [OF l(1)]) (use pc q q5(1) in \<open>simp_all add: set_node_def aq_inv_def\<close>)
  have "sys_run (q_start N) (q_trans N anyone) ?s5
      ([] @ ([Enq 1 v] @ [Deq 1 v]) @ concat (replicate (N - 1) [Enq 1 z, Deq 1 z]) @ ([Enq 1 w] @ [Enq 1 u]) @ [] @ [Deq 1 v])"
    by (rule sys_run_steps [OF _ queue_begin_run], intro sys_steps_append) (rule s(1) st0 s1(1) st st3 st4 st5)+
  then have "sys_run (q_start N) (q_trans N anyone) ?s5 (overtaking N v z w u)" by (simp add: overtaking_def)
  then show ?thesis using q5(2) overtaking_no_fifo [OF assms] by (intro exI [of _ ?s5]) simp
qed

theorem overtaken_helper_duplicates_witness:
  "\<exists>s. sys_run (q_start QUEUE_CAP) (q_trans QUEUE_CAP anyone) s (overtaking QUEUE_CAP 7 0 8 9) \<and> queue_abs QUEUE_CAP (qs_q s) = [9]"
  using overtaken_helper_duplicates [of QUEUE_CAP 8 7 0 9] by (auto simp: QUEUE_CAP_def)

end
