(* ===== verification/Bx_AnchorConc.thy ===== *)
theory Bx_AnchorConc
  imports Bx_Sweep Bx_Simulation
begin

unbundle bit_operations_syntax

text \<open>
  One superblock under concurrency: the threads that flush blocks to it (\<open>flush_cache\<close>) and refill
  their caches from it (\<open>malloc_from_partial\<close>, \<open>src/src/BaseMeta.cpp\<close>), as the sequences of their
  accesses to the anchor of its descriptor and to the links in its blocks.  Where the batch of
  every cache covers a superblock, so that a refill takes all free blocks, every execution is one
  of a pool of blocks: no block is given to two threads or lost.  The other branch of the refill,
  for batches smaller than what is free, loses blocks that are flushed at the same time and leaves
  an anchor that counts a block behind the end of the superblock.
\<close>

section \<open>Threads and their steps\<close>

text \<open>
  Where a thread stands: outside; in a flush of the blocks \<open>xs\<close>, before the load of the anchor, the
  store of the link and the exchange; about to push the descriptor on the partial list or to retire
  the superblock; in a refill with batch size \<open>b\<close>, before the load of the anchor and the exchange that
  takes all; in the walk over the first \<open>b\<close> blocks and before the exchange that takes them.  \<open>Failed\<close> is
  a failed assertion.
\<close>

datatype a_pc =
    Out
  | FlushLoad "u64 list"
  | FlushLink "u64 list" anchor
  | FlushCas "u64 list" anchor
  | Publish
  | Retire
  | TakeLoad u32
  | TakeCas anchor
  | PartWalk u32 u64 u64 u64 u32 anchor
  | PartCas u64 u32 u32 anchor
  | Failed

text \<open>
  The anchor, the memory and the threads; whether the descriptor is on the partial list; as a ghost,
  which blocks of the superblock each thread owns (in its cache or with its client).
\<close>

record asys =
  as_anchor :: anchor
  as_mem :: memory
  as_pc :: "nat \<Rightarrow> a_pc"
  as_listed :: bool
  as_own :: "nat \<Rightarrow> u64 set"

text \<open>A completed flush, a completed refill, a block that changes hands, a retired superblock.\<close>

datatype a_event = Flushed nat "u64 list" | Took nat "u64 list" | Passed nat nat u64 | Retired nat

definition at_pc :: "nat \<Rightarrow> a_pc \<Rightarrow> asys \<Rightarrow> asys" where
  "at_pc t c s = s\<lparr>as_pc := (as_pc s)(t := c)\<rparr>"

text \<open>The block size and the number of blocks of a class, as the descriptor holds them.\<close>

definition class_block :: "nat \<Rightarrow> u32" where
  "class_block c = ucast (indextosize myclasssize ! c)"

definition class_max :: "nat \<Rightarrow> u32" where
  "class_max c = ucast (SBSIZE div ucast (class_block c))"

fun blocks_from :: "memory \<Rightarrow> nat \<Rightarrow> u64 \<Rightarrow> u64 list" where
  "blocks_from m 0 a = []"
| "blocks_from m (Suc n) a = a # blocks_from m n (pptr_get m a)"

definition gain_blocks :: "nat \<Rightarrow> u64 list \<Rightarrow> asys \<Rightarrow> asys" where
  "gain_blocks t xs s = s\<lparr>as_own := (as_own s)(t := as_own s t \<union> set xs)\<rparr>"

definition flush_exchange :: "u64 \<Rightarrow> nat \<Rightarrow> bool \<Rightarrow> nat \<Rightarrow> u64 list \<Rightarrow> anchor \<Rightarrow> asys \<Rightarrow> a_event option \<times> asys" where
  "flush_exchange superblock c spurious t xs old s =
     (case compute_idx superblock (hd xs) c of
        Inl _ \<Rightarrow> (None, at_pc t Failed s)
      | Inr idx \<Rightarrow>
          if as_anchor s = old \<and> \<not> spurious then
            let new = flush_anchor old idx (of_nat (length xs)) (class_max c) in
            (Some (Flushed t xs),
             at_pc t (if astate old = SB_FULL then if astate new = SB_EMPTY then Retire else Publish else Out) (s\<lparr>as_anchor := new\<rparr>))
          else (None, at_pc t (FlushLink xs (as_anchor s)) s))"

text \<open>The head of the loop that takes all blocks, with the anchor just read.\<close>

definition take_round :: "nat \<Rightarrow> anchor \<Rightarrow> asys \<Rightarrow> asys" where
  "take_round t old s =
     at_pc t (if astate old = SB_EMPTY then Retire else if astate old = SB_PARTIAL then TakeCas old else Failed) s"

definition take_exchange :: "u64 \<Rightarrow> nat \<Rightarrow> bool \<Rightarrow> nat \<Rightarrow> anchor \<Rightarrow> asys \<Rightarrow> a_event option \<times> asys" where
  "take_exchange superblock c spurious t old s =
     (if as_anchor s = old \<and> \<not> spurious then
        let xs = blocks_from (as_mem s) (unat (acount old)) (block_at superblock (avail old) (class_block c)) in
        (Some (Took t xs),
         at_pc t Out (gain_blocks t xs (s\<lparr>as_anchor := \<lparr>avail = ucast (class_max c), acount = 0, astate = SB_FULL\<rparr>\<rparr>)))
      else (None, take_round t (as_anchor s) s))"

text \<open>The other branch: the walk, the cut behind it, and the exchange for the rest.\<close>

definition part_walk :: "u64 \<Rightarrow> nat \<Rightarrow> nat \<Rightarrow> u32 \<Rightarrow> u64 \<Rightarrow> u64 \<Rightarrow> u64 \<Rightarrow> u32 \<Rightarrow> anchor \<Rightarrow> asys \<Rightarrow> asys" where
  "part_walk superblock c t b head prev cur num old s =
     (if num < b \<and> cur \<noteq> 0 then at_pc t (PartWalk b head cur (pptr_get (as_mem s) cur) (num + 1) old) s
      else case compute_idx superblock cur c of
          Inl _ \<Rightarrow> at_pc t Failed s
        | Inr idx \<Rightarrow> at_pc t (PartCas head idx num old) (s\<lparr>as_mem := pptr_set (as_mem s) prev 0\<rparr>))"

definition part_exchange :: "bool \<Rightarrow> nat \<Rightarrow> u64 \<Rightarrow> u32 \<Rightarrow> u32 \<Rightarrow> anchor \<Rightarrow> asys \<Rightarrow> a_event option \<times> asys" where
  "part_exchange spurious t head idx num old s =
     (if as_anchor s = old \<and> \<not> spurious then
        let xs = blocks_from (as_mem s) (unat num) head;
            new = \<lparr>avail = ucast idx, acount = ucast ((ucast (acount old) :: u32) - num), astate = SB_PARTIAL\<rparr> in
        (Some (Took t xs), at_pc t Publish (gain_blocks t xs (s\<lparr>as_anchor := new\<rparr>)))
      else (None, at_pc t (PartCas head idx num (as_anchor s)) s))"

definition a_step :: "u64 \<Rightarrow> nat \<Rightarrow> bool \<Rightarrow> nat \<Rightarrow> asys \<Rightarrow> a_event option \<times> asys" where
  "a_step superblock c spurious t s =
     (case as_pc s t of
        FlushLoad xs \<Rightarrow> (None, at_pc t (FlushLink xs (as_anchor s)) s)
      | FlushLink xs old \<Rightarrow>
          (None, at_pc t (FlushCas xs old) (s\<lparr>as_mem := pptr_set (as_mem s) (last xs) (block_at superblock (avail old) (class_block c))\<rparr>))
      | FlushCas xs old \<Rightarrow> flush_exchange superblock c spurious t xs old s
      | Publish \<Rightarrow> (None, at_pc t Out (s\<lparr>as_listed := True\<rparr>))
      | Retire \<Rightarrow> (Some (Retired t), at_pc t Out (s\<lparr>as_anchor := Anchor 0\<rparr>))
      | TakeLoad b \<Rightarrow>
          let old = as_anchor s; head = block_at superblock (avail old) (class_block c) in
          (None, if ucast (acount old) \<le> b then take_round t old s
                 else if astate old = SB_EMPTY then at_pc t Retire s
                 else at_pc t (PartWalk b head head head 0 old) s)
      | TakeCas old \<Rightarrow> take_exchange superblock c spurious t old s
      | PartWalk b head prev cur num old \<Rightarrow> (None, part_walk superblock c t b head prev cur num old s)
      | PartCas head idx num old \<Rightarrow> part_exchange spurious t head idx num old s
      | _ \<Rightarrow> (None, s))"

section \<open>Executions\<close>

text \<open>
  A thread may write to the blocks it owns and hand them to another one; it flushes a chain of its
  own blocks; the one that pops the descriptor off the partial list refills with a batch size that
  \<open>batch\<close> allows.
\<close>

inductive a_trans :: "regions \<Rightarrow> nat \<Rightarrow> nat \<Rightarrow> (u32 \<Rightarrow> bool) \<Rightarrow> asys \<Rightarrow> a_event option \<Rightarrow> asys \<Rightarrow> bool" for R k c batch where
  put: "(\<And>x. x \<in> sb_blocks R k c \<Longrightarrow> x \<notin> as_own s t \<Longrightarrow> pptr_get m x = pptr_get (as_mem s) x) \<Longrightarrow>
    a_trans R k c batch s None (s\<lparr>as_mem := m\<rparr>)"
| pass: "x \<in> as_own s t \<Longrightarrow> t \<noteq> u \<Longrightarrow>
    a_trans R k c batch s (Some (Passed t u x)) (s\<lparr>as_own := (as_own s)(t := as_own s t - {x}, u := insert x (as_own s u))\<rparr>)"
| flush: "as_pc s t = Out \<Longrightarrow> xs \<noteq> [] \<Longrightarrow> distinct xs \<Longrightarrow> set xs \<subseteq> as_own s t \<Longrightarrow> chain (as_mem s) (hd xs) xs z \<Longrightarrow>
    a_trans R k c batch s None (at_pc t (FlushLoad xs) (s\<lparr>as_own := (as_own s)(t := as_own s t - set xs)\<rparr>))"
| take: "as_pc s t = Out \<Longrightarrow> as_listed s \<Longrightarrow> batch b \<Longrightarrow> a_trans R k c batch s None (at_pc t (TakeLoad b) (s\<lparr>as_listed := False\<rparr>))"
| step: "a_step (sb_addr R k) c spurious t s = (e, s') \<Longrightarrow> a_trans R k c batch s e s'"

text \<open>The pool: where each block is; after the superblock is retired it has none.\<close>

datatype place = Free | With nat

type_synonym pool = "u64 \<rightharpoonup> place"

definition move :: "u64 set \<Rightarrow> place \<Rightarrow> pool \<Rightarrow> pool" where
  "move X a p = (\<lambda>x. if x \<in> X then Some a else p x)"

definition free_blocks :: "pool \<Rightarrow> u64 set" where
  "free_blocks p = {x. p x = Some Free}"

fun pool_step :: "a_event \<Rightarrow> pool \<Rightarrow> pool option" where
  "pool_step (Flushed t xs) p = (if xs \<noteq> [] \<and> (\<forall>x\<in>set xs. p x = Some (With t)) then Some (move (set xs) Free p) else None)"
| "pool_step (Took t xs) p = (if xs \<noteq> [] \<and> distinct xs \<and> set xs = free_blocks p then Some (move (set xs) (With t) p) else None)"
| "pool_step (Passed t u x) p = (if p x = Some (With t) then Some (move {x} (With u) p) else None)"
| "pool_step (Retired t) p = (if dom p \<noteq> {} \<and> dom p = free_blocks p then Some Map.empty else None)"

text \<open>
  The state that \<open>malloc_from_newsb\<close> leaves when it takes all blocks: the anchor is full, the threads
  hold the blocks of superblock \<open>k\<close> of class \<open>c\<close> as \<open>p\<close> says.
\<close>

definition a_start :: "regions \<Rightarrow> nat \<Rightarrow> nat \<Rightarrow> pool \<Rightarrow> asys \<Rightarrow> bool" where
  "a_start R k c p s \<longleftrightarrow> geom R \<and> k < nsb R \<and> c < NLIST \<and> dom p = sb_blocks R k c \<and> free_blocks p = {}
     \<and> s = \<lparr>as_anchor = \<lparr>avail = ucast (class_max c), acount = 0, astate = SB_FULL\<rparr>, as_mem = as_mem s,
             as_pc = \<lambda>_. Out, as_listed = False, as_own = \<lambda>t. {x. p x = Some (With t)}\<rparr>"

section \<open>The invariant\<close>

lemma class_words:
  assumes "c < NLIST"
  shows "unat (class_block c) = cls_size c" "unat (class_max c) = cls_count c"
  using block_words [OF assms] by (simp_all add: class_block_def class_max_def)

text \<open>An anchor points to a block or behind the last one.\<close>

lemma unat_block_at:
  assumes "geom R" "k < nsb R" "c < NLIST" "unat av \<le> cls_count c"
  shows "unat (block_at (sb_addr R k) av (class_block c)) = unat (sb_addr R k) + unat av * cls_size c"
    "canonical (block_at (sb_addr R k) av (class_block c))"
proof -
  have "cls_count c * cls_size c \<le> 65536" by (simp add: cls_count_def)
  then have le: "unat av * cls_size c \<le> 65536" using assms(4) by (meson mult_le_mono1 order_trans)
  have "unat (ucast av :: u32) = unat av"
    using assms(4) cls_count_bounds(2) [of c] by (simp add: unsigned_ucast_eq take_bit_nat_eq_self)
  then have "unat ((ucast av :: u32) * class_block c) = unat av * cls_size c"
    using le class_words(1) [OF assms(3)] by (subst unat_mult_lem [THEN iffD1]) auto
  then have o: "unat (ucast ((ucast av :: u32) * class_block c) :: u64) = unat av * cls_size c"
    using le by (simp add: unsigned_ucast_eq take_bit_nat_eq_self)
  have s: "unat (sb_addr R k) + 65536 < 2 ^ 48"
    using unat_sb_addr [OF assms(1), of k] geom_nsb(2) [OF assms(1)] assms(2) mult_le_mono1 [of "Suc k" "nsb R" 65536] by simp
  show e: "unat (block_at (sb_addr R k) av (class_block c)) = unat (sb_addr R k) + unat av * cls_size c"
    using o s le by (simp add: block_at_def unat_add_lt)
  show "canonical (block_at (sb_addr R k) av (class_block c))" using e s le by (simp add: canonical_def)
qed

fun in_flight :: "a_pc \<Rightarrow> u64 set" where
  "in_flight (FlushLoad xs) = set xs"
| "in_flight (FlushLink xs old) = set xs"
| "in_flight (FlushCas xs old) = set xs"
| "in_flight _ = {}"

text \<open>The right to the descriptor: of a thread that has popped it, has to push it or retires it.\<close>

fun has_desc :: "a_pc \<Rightarrow> bool" where
  "has_desc Out \<longleftrightarrow> False"
| "has_desc (FlushLoad xs) \<longleftrightarrow> False"
| "has_desc (FlushLink xs old) \<longleftrightarrow> False"
| "has_desc (FlushCas xs old) \<longleftrightarrow> False"
| "has_desc _ \<longleftrightarrow> True"

definition desc_holders :: "asys \<Rightarrow> nat set" where
  "desc_holders s = {t. has_desc (as_pc s t)}"

definition desc_once :: "asys \<Rightarrow> bool" where
  "desc_once s \<longleftrightarrow>
     (if astate (as_anchor s) = SB_PARTIAL \<or> astate (as_anchor s) = SB_EMPTY
      then if as_listed s then desc_holders s = {} else \<exists>t. desc_holders s = {t}
      else \<not> as_listed s \<and> desc_holders s = {})"

text \<open>Batches that cover what can be free in a superblock that is not empty.\<close>

definition whole :: "nat \<Rightarrow> u32 \<Rightarrow> bool" where
  "whole c b \<longleftrightarrow> cls_count c \<le> unat b + 1"

definition span_ok :: "memory \<Rightarrow> u64 list \<Rightarrow> u64 \<Rightarrow> bool" where
  "span_ok m xs z \<longleftrightarrow> xs \<noteq> [] \<and> distinct xs \<and> chain m (hd xs) xs z"

fun a_pc_ok :: "u64 \<Rightarrow> nat \<Rightarrow> asys \<Rightarrow> a_pc \<Rightarrow> bool" where
  "a_pc_ok sb c s Out \<longleftrightarrow> True"
| "a_pc_ok sb c s (FlushLoad xs) \<longleftrightarrow> (\<exists>z. span_ok (as_mem s) xs z)"
| "a_pc_ok sb c s (FlushLink xs old) \<longleftrightarrow> (\<exists>z. span_ok (as_mem s) xs z) \<and> unat (avail old) \<le> cls_count c"
| "a_pc_ok sb c s (FlushCas xs old) \<longleftrightarrow> span_ok (as_mem s) xs (block_at sb (avail old) (class_block c)) \<and> unat (avail old) \<le> cls_count c"
| "a_pc_ok sb c s Publish \<longleftrightarrow> True"
| "a_pc_ok sb c s Retire \<longleftrightarrow> astate (as_anchor s) = SB_EMPTY"
| "a_pc_ok sb c s (TakeLoad b) \<longleftrightarrow> whole c b"
| "a_pc_ok sb c s (TakeCas old) \<longleftrightarrow> astate old = SB_PARTIAL"
| "a_pc_ok sb c s _ \<longleftrightarrow> False"

definition owned_as :: "asys \<Rightarrow> pool \<Rightarrow> bool" where
  "owned_as s p \<longleftrightarrow> (\<forall>t x. p x = Some (With t) \<longleftrightarrow> x \<in> as_own s t \<union> in_flight (as_pc s t))
     \<and> (\<forall>t. as_own s t \<inter> in_flight (as_pc s t) = {})"

definition anchored :: "u64 \<Rightarrow> nat \<Rightarrow> asys \<Rightarrow> u64 list \<Rightarrow> bool" where
  "anchored sb c s fs \<longleftrightarrow> distinct fs \<and> anchor_ok (as_anchor s) c (length fs) \<and> unat (avail (as_anchor s)) \<le> cls_count c
     \<and> (\<exists>z. chain (as_mem s) (block_at sb (avail (as_anchor s)) (class_block c)) fs z)"

definition a_rel :: "regions \<Rightarrow> nat \<Rightarrow> nat \<Rightarrow> asys \<Rightarrow> pool \<Rightarrow> bool" where
  "a_rel R k c s p \<longleftrightarrow> geom R \<and> k < nsb R \<and> c < NLIST \<and> owned_as s p \<and> desc_once s \<and> (\<forall>t. a_pc_ok (sb_addr R k) c s (as_pc s t))
     \<and> (dom p = {} \<and> as_anchor s = Anchor 0
        \<or> dom p = sb_blocks R k c \<and> (\<exists>fs. set fs = free_blocks p \<and> anchored (sb_addr R k) c s fs))"

lemma chain_blocks_from: "chain m a xs z \<Longrightarrow> blocks_from m (length xs) a = xs"
  by (induction xs arbitrary: a) auto

lemma at_pc_simps [simp]:
  "as_anchor (at_pc t d s) = as_anchor s" "as_mem (at_pc t d s) = as_mem s" "as_listed (at_pc t d s) = as_listed s"
  "as_own (at_pc t d s) = as_own s" "as_pc (at_pc t d s) = (as_pc s)(t := d)"
  by (simp_all add: at_pc_def)

lemma sb_block_addr: "geom R \<Longrightarrow> k < nsb R \<Longrightarrow> x \<in> sb_blocks R k c \<Longrightarrow> block_addr x"
  using blk_block_addr by (auto simp: sb_blocks_def)

lemma a_relD:
  assumes "a_rel R k c s p"
  shows "geom R" "k < nsb R" "c < NLIST" "owned_as s p" "desc_once s" "a_pc_ok (sb_addr R k) c s (as_pc s t)"
    "dom p = {} \<and> as_anchor s = Anchor 0 \<or> dom p = sb_blocks R k c \<and> (\<exists>fs. set fs = free_blocks p \<and> anchored (sb_addr R k) c s fs)"
  using assms by (simp_all add: a_rel_def)

lemma owned_asD:
  assumes "owned_as s p"
  shows "p x = Some (With t) \<longleftrightarrow> x \<in> as_own s t \<or> x \<in> in_flight (as_pc s t)" "x \<in> as_own s t \<Longrightarrow> x \<notin> in_flight (as_pc s t)"
  using assms unfolding owned_as_def by blast+

text \<open>A thread in a flush holds blocks, so the superblock is neither retired nor empty.\<close>

lemma rel_held:
  assumes "a_rel R k c s p" "p x = Some (With t)"
  obtains fs where "dom p = sb_blocks R k c" "set fs = free_blocks p" "anchored (sb_addr R k) c s fs" "x \<in> sb_blocks R k c" "x \<notin> set fs"
    "length fs < cls_count c"
proof -
  have x: "x \<in> dom p" using assms(2) by auto
  then obtain fs where fs: "dom p = sb_blocks R k c" "set fs = free_blocks p" "anchored (sb_addr R k) c s fs" using a_relD(7) [OF assms(1)] by auto
  have "x \<notin> set fs" using assms(2) fs(2) by (simp add: free_blocks_def)
  moreover have "set fs \<subseteq> dom p" using fs(2) by (auto simp: free_blocks_def)
  ultimately have "set fs \<subset> sb_blocks R k c" using fs(1) x by auto
  then have "card (set fs) < card (sb_blocks R k c)" by (intro psubset_card_mono) (simp_all add: sb_blocks_def)
  moreover have "card (sb_blocks R k c) \<le> cls_count c" using card_image_le [of "{..<cls_count c}" "blk R k c"] by (simp add: sb_blocks_def)
  ultimately have "length fs < cls_count c" using fs(3) by (simp add: anchored_def distinct_card)
  then show thesis using that fs x \<open>x \<notin> set fs\<close> by auto
qed

section \<open>Preservation\<close>

lemma dom_move: "X \<subseteq> dom p \<Longrightarrow> dom (move X a p) = dom p"
  by (auto simp: move_def dom_def)

lemma free_move:
  "free_blocks (move X Free p) = X \<union> free_blocks p" "free_blocks (move X (With t) p) = free_blocks p - X"
  by (auto simp: move_def free_blocks_def)

text \<open>What a memory that agrees on the blocks in flight, or on the free blocks, keeps.\<close>

lemma a_pc_ok_mem:
  assumes "\<And>x. x \<in> in_flight d \<Longrightarrow> pptr_get (as_mem s') x = pptr_get (as_mem s) x" "as_anchor s' = as_anchor s"
  shows "a_pc_ok sb c s' d = a_pc_ok sb c s d"
proof -
  have "span_ok (as_mem s') xs z = span_ok (as_mem s) xs z" if "set xs = in_flight d" for xs z
    using chain_cong [of xs "as_mem s'" "as_mem s"] assms(1) that by (simp add: span_ok_def)
  then have "span_ok (as_mem s') xs = span_ok (as_mem s) xs" if "set xs = in_flight d" for xs using that by blast
  then show ?thesis using assms(2) by (cases d) simp_all
qed

lemma anchored_mem:
  assumes "\<And>x. x \<in> set fs \<Longrightarrow> pptr_get (as_mem s') x = pptr_get (as_mem s) x" "as_anchor s' = as_anchor s"
  shows "anchored sb c s' fs = anchored sb c s fs"
  using chain_cong [of fs "as_mem s'" "as_mem s"] assms by (simp add: anchored_def)

text \<open>A write to blocks that one thread holds.\<close>

lemma rel_mem:
  assumes "a_rel R k c s p" "s' = s\<lparr>as_mem := m\<rparr>" "\<And>x. x \<in> sb_blocks R k c \<Longrightarrow> p x \<noteq> Some (With t) \<Longrightarrow> pptr_get m x = pptr_get (as_mem s) x"
    "a_pc_ok (sb_addr R k) c s' (as_pc s t)"
  shows "a_rel R k c s' p"
proof -
  note i = a_relD [OF assms(1)]
  have same: "as_anchor s' = as_anchor s" "as_pc s' = as_pc s" "as_listed s' = as_listed s" "as_own s' = as_own s" "as_mem s' = m" using assms(2) by simp_all
  have "a_pc_ok (sb_addr R k) c s' (as_pc s u)" for u
  proof (cases "u = t")
    case False
    have "pptr_get m x = pptr_get (as_mem s) x" if "x \<in> in_flight (as_pc s u)" for x
    proof -
      have "p x = Some (With u)" using owned_asD(1) [OF i(4)] that by blast
      then show ?thesis using assms(3) False a_relD(7) [OF assms(1)] by (metis domI emptyE option.inject place.inject)
    qed
    then show ?thesis using a_pc_ok_mem [of "as_pc s u" s' s] i(6) same by auto
  qed (use assms(4) in simp)
  moreover have "anchored (sb_addr R k) c s' fs" if "anchored (sb_addr R k) c s fs" "set fs = free_blocks p" "dom p = sb_blocks R k c" for fs
  proof -
    have "pptr_get m x = pptr_get (as_mem s) x" if "x \<in> set fs" for x
      using assms(3) [of x] that \<open>set fs = free_blocks p\<close> \<open>dom p = sb_blocks R k c\<close> by (auto simp: free_blocks_def)
    then show ?thesis using anchored_mem [of fs s' s] that(1) same by simp
  qed
  moreover have "desc_holders s' = desc_holders s" using same by (simp add: desc_holders_def)
  then have "owned_as s' p" "desc_once s'" using i(4,5) same by (simp_all add: owned_as_def desc_once_def)
  ultimately show ?thesis using i(1-3,7) same by (auto simp: a_rel_def)
qed

text \<open>A thread moves on with the same blocks in flight and the same right to the descriptor.\<close>

lemma rel_move:
  assumes "a_rel R k c s p" "a_pc_ok (sb_addr R k) c s d" "in_flight d = in_flight (as_pc s t)" "has_desc d = has_desc (as_pc s t)"
  shows "a_rel R k c (at_pc t d s) p"
proof -
  note i = a_relD [OF assms(1)]
  let ?s = "at_pc t d s"
  have "a_pc_ok (sb_addr R k) c ?s e = a_pc_ok (sb_addr R k) c s e" for e by (rule a_pc_ok_mem) simp_all
  moreover have "anchored (sb_addr R k) c ?s fs = anchored (sb_addr R k) c s fs" for fs by (rule anchored_mem) simp_all
  moreover have "in_flight (as_pc ?s u) = in_flight (as_pc s u)" "has_desc (as_pc ?s u) = has_desc (as_pc s u)" for u using assms(3,4) by simp_all
  then have "owned_as ?s p = owned_as s p" "desc_once ?s = desc_once s" by (simp_all only: owned_as_def desc_once_def desc_holders_def at_pc_simps(1,3,4))
  ultimately show ?thesis using i assms(2) by (auto simp: a_rel_def)
qed

text \<open>The anchor, the owners, the list or the right to the descriptor change, but no link does.\<close>

lemma rel_shared:
  assumes "a_rel R k c s p" "as_mem s' = as_mem s" "\<And>u. u \<noteq> t \<Longrightarrow> as_pc s' u = as_pc s u" "a_pc_ok (sb_addr R k) c s' (as_pc s' t)"
    "\<And>u. u \<noteq> t \<Longrightarrow> as_pc s u = Retire \<Longrightarrow> astate (as_anchor s') = SB_EMPTY" "owned_as s' p'" "desc_once s'"
    "dom p' = {} \<and> as_anchor s' = Anchor 0 \<or> dom p' = sb_blocks R k c \<and> (\<exists>fs. set fs = free_blocks p' \<and> anchored (sb_addr R k) c s' fs)"
  shows "a_rel R k c s' p'"
proof -
  note i = a_relD [OF assms(1)]
  have "a_pc_ok (sb_addr R k) c s' (as_pc s' u)" for u
  proof (cases "u = t")
    case False
    show ?thesis using i(6) [of u] assms(2,5) False unfolding assms(3) [OF False] by (cases "as_pc s u") auto
  qed (use assms(4) in simp)
  then show ?thesis using i(1-3) assms(6-8) by (simp add: a_rel_def)
qed

lemma holders_move:
  "as_pc s' = (as_pc s)(t := d) \<Longrightarrow> desc_holders s' = (if has_desc d then insert t (desc_holders s) else desc_holders s - {t})"
  by (auto simp: desc_holders_def)

lemma sole_holder:
  assumes "desc_once s" "has_desc (as_pc s t)"
  shows "desc_holders s = {t}" "\<not> as_listed s" "astate (as_anchor s) = SB_PARTIAL \<or> astate (as_anchor s) = SB_EMPTY"
proof -
  have "t \<in> desc_holders s" using assms(2) by (simp add: desc_holders_def)
  then show "desc_holders s = {t}" "\<not> as_listed s" "astate (as_anchor s) = SB_PARTIAL \<or> astate (as_anchor s) = SB_EMPTY"
    using assms(1) by (auto simp: desc_once_def split: if_splits)
qed

lemma rel_put:
  assumes "a_rel R k c s p" "\<And>x. x \<in> sb_blocks R k c \<Longrightarrow> x \<notin> as_own s t \<Longrightarrow> pptr_get m x = pptr_get (as_mem s) x"
  shows "a_rel R k c (s\<lparr>as_mem := m\<rparr>) p"
proof (rule rel_mem [OF assms(1) refl, where t = t])
  note h = owned_asD [OF a_relD(4) [OF assms(1)]]
  show "pptr_get m x = pptr_get (as_mem s) x" if "x \<in> sb_blocks R k c" "p x \<noteq> Some (With t)" for x using assms(2) that h(1) by blast
  have "pptr_get m x = pptr_get (as_mem s) x" if "x \<in> in_flight (as_pc s t)" for x
  proof (rule assms(2))
    have "p x = Some (With t)" using that h(1) by blast
    then show "x \<in> sb_blocks R k c" using a_relD(7) [OF assms(1)] by auto
    show "x \<notin> as_own s t" using that h(2) by blast
  qed
  then show "a_pc_ok (sb_addr R k) c (s\<lparr>as_mem := m\<rparr>) (as_pc s t)"
    using a_pc_ok_mem [of "as_pc s t" "s\<lparr>as_mem := m\<rparr>" s] a_relD(6) [OF assms(1)] by simp
qed

text \<open>The descriptor changes hands without a change of the anchor.\<close>

lemma rel_desc:
  assumes "a_rel R k c s p" "in_flight d = in_flight (as_pc s t)" "a_pc_ok (sb_addr R k) c (at_pc t d (s\<lparr>as_listed := b\<rparr>)) d"
    "desc_once (at_pc t d (s\<lparr>as_listed := b\<rparr>))"
  shows "a_rel R k c (at_pc t d (s\<lparr>as_listed := b\<rparr>)) p"
proof (rule rel_shared [OF assms(1), where t = t])
  note i = a_relD [OF assms(1)]
  let ?s = "at_pc t d (s\<lparr>as_listed := b\<rparr>)"
  show "astate (as_anchor ?s) = SB_EMPTY" if "as_pc s u = Retire" for u using i(6) [of u] that by simp
  have "in_flight (as_pc ?s u) = in_flight (as_pc s u)" for u using assms(2) by simp
  then show "owned_as ?s p" using i(4) unfolding owned_as_def by simp
  have "anchored (sb_addr R k) c ?s fs = anchored (sb_addr R k) c s fs" for fs by (rule anchored_mem) simp_all
  then show "dom p = {} \<and> as_anchor ?s = Anchor 0 \<or> dom p = sb_blocks R k c \<and> (\<exists>fs. set fs = free_blocks p \<and> anchored (sb_addr R k) c ?s fs)"
    using i(7) by simp
qed (use assms(3,4) in simp_all)

lemma rel_take:
  assumes "a_rel R k c s p" "as_pc s t = Out" "as_listed s" "whole c b"
  shows "a_rel R k c (at_pc t (TakeLoad b) (s\<lparr>as_listed := False\<rparr>)) p"
proof (rule rel_desc [OF assms(1)])
  have "desc_holders (at_pc t (TakeLoad b) (s\<lparr>as_listed := False\<rparr>)) = insert t (desc_holders s)"
    using holders_move [of "at_pc t (TakeLoad b) (s\<lparr>as_listed := False\<rparr>)" s t "TakeLoad b"] by simp
  then show "desc_once (at_pc t (TakeLoad b) (s\<lparr>as_listed := False\<rparr>))"
    using a_relD(5) [OF assms(1)] assms(3) by (auto simp: desc_once_def split: if_splits)
qed (use assms in simp_all)

lemma rel_publish:
  assumes "a_rel R k c s p" "as_pc s t = Publish"
  shows "a_rel R k c (at_pc t Out (s\<lparr>as_listed := True\<rparr>)) p"
proof (rule rel_desc [OF assms(1)])
  have h: "desc_holders s = {t}" "astate (as_anchor s) = SB_PARTIAL \<or> astate (as_anchor s) = SB_EMPTY"
    using sole_holder [OF a_relD(5) [OF assms(1)], of t] assms(2) by simp_all
  have "desc_holders (at_pc t Out (s\<lparr>as_listed := True\<rparr>)) = {}"
    using holders_move [of "at_pc t Out (s\<lparr>as_listed := True\<rparr>)" s t Out] h(1) by simp
  then show "desc_once (at_pc t Out (s\<lparr>as_listed := True\<rparr>))" using h(2) by (simp add: desc_once_def)
qed (use assms in simp_all)

text \<open>Blocks go from the caches of a thread into its flush, or to another thread.\<close>

lemma rel_owners:
  assumes "a_rel R k c s p" "as_anchor s' = as_anchor s" "as_mem s' = as_mem s" "as_listed s' = as_listed s" "as_pc s' = (as_pc s)(t := d)"
    "has_desc d = has_desc (as_pc s t)" "a_pc_ok (sb_addr R k) c s d" "owned_as s' p'" "dom p' = dom p" "free_blocks p' = free_blocks p"
  shows "a_rel R k c s' p'"
proof (rule rel_shared [OF assms(1,3), where t = t])
  note i = a_relD [OF assms(1)]
  have "desc_holders s' = desc_holders s" using holders_move [OF assms(5)] assms(6) by (auto simp: desc_holders_def)
  then show "desc_once s'" using i(5) assms(2,4) by (simp add: desc_once_def)
  show "a_pc_ok (sb_addr R k) c s' (as_pc s' t)" using a_pc_ok_mem [of d s' s] assms(2,3,5,7) by simp
  show "astate (as_anchor s') = SB_EMPTY" if "as_pc s u = Retire" for u using i(6) [of u] that assms(2) by simp
  have "anchored (sb_addr R k) c s' fs = anchored (sb_addr R k) c s fs" for fs using assms(2,3) by (intro anchored_mem) simp_all
  then show "dom p' = {} \<and> as_anchor s' = Anchor 0 \<or> dom p' = sb_blocks R k c \<and> (\<exists>fs. set fs = free_blocks p' \<and> anchored (sb_addr R k) c s' fs)"
    using i(7) assms(2,9,10) by simp
qed (use assms(5,8) in simp_all)

lemma rel_flush:
  assumes "a_rel R k c s p" "as_pc s t = Out" "xs \<noteq> []" "distinct xs" "set xs \<subseteq> as_own s t" "chain (as_mem s) (hd xs) xs z"
  shows "a_rel R k c (at_pc t (FlushLoad xs) (s\<lparr>as_own := (as_own s)(t := as_own s t - set xs)\<rparr>)) p"
proof (rule rel_owners [OF assms(1), where t = t and d = "FlushLoad xs"])
  show "owned_as (at_pc t (FlushLoad xs) (s\<lparr>as_own := (as_own s)(t := as_own s t - set xs)\<rparr>)) p"
    using a_relD(4) [OF assms(1)] assms(2,5) by (auto simp: owned_as_def)
  show "a_pc_ok (sb_addr R k) c s (FlushLoad xs)" using assms(3,4,6) by (auto simp: span_ok_def)
qed (use assms(2) in simp_all)

lemma rel_pass:
  assumes "a_rel R k c s p" "x \<in> as_own s t" "t \<noteq> u"
  shows "p x = Some (With t)"
    "a_rel R k c (s\<lparr>as_own := (as_own s)(t := as_own s t - {x}, u := insert x (as_own s u))\<rparr>) (move {x} (With u) p)"
proof -
  note h = owned_asD [OF a_relD(4) [OF assms(1)]]
  show px: "p x = Some (With t)" using h(1) assms(2) by blast
  then have nf: "x \<notin> in_flight (as_pc s v)" for v using h(1) [of x v] h(2) [OF assms(2)] by (cases "v = t") auto
  have no: "x \<notin> as_own s v" if "v \<noteq> t" for v using h(1) [of x v] px that by auto
  show "a_rel R k c (s\<lparr>as_own := (as_own s)(t := as_own s t - {x}, u := insert x (as_own s u))\<rparr>) (move {x} (With u) p)"
  proof (rule rel_owners [OF assms(1), where t = t and d = "as_pc s t"])
    have "(move {x} (With u) p y = Some (With v)) =
        (y \<in> ((as_own s)(t := as_own s t - {x}, u := insert x (as_own s u))) v \<union> in_flight (as_pc s v))" for y v
    proof (cases "y = x")
      case True
      then show ?thesis using nf [of v] no [of v] assms(3) by (auto simp: move_def)
    qed (use h(1) [of y v] in \<open>auto simp: move_def\<close>)
    moreover have "((as_own s)(t := as_own s t - {x}, u := insert x (as_own s u))) v \<inter> in_flight (as_pc s v) = {}" for v
      using h(2) nf [of v] by (auto split: if_splits)
    ultimately show "owned_as (s\<lparr>as_own := (as_own s)(t := as_own s t - {x}, u := insert x (as_own s u))\<rparr>) (move {x} (With u) p)"
      by (simp add: owned_as_def)
    show "dom (move {x} (With u) p) = dom p" using px by (intro dom_move) auto
    show "free_blocks (move {x} (With u) p) = free_blocks p" unfolding free_move using px by (auto simp: free_blocks_def)
  qed (use a_relD(6) [OF assms(1)] in simp_all)
qed

text \<open>The link of the last block of a flush is set to the block the anchor points to.\<close>

lemma span_link:
  assumes "span_ok m xs z" "\<And>x. x \<in> set xs \<Longrightarrow> block_addr x" "canonical v"
  shows "span_ok (pptr_set m (last xs) v) xs v"
proof -
  obtain ys y where xs: "xs = ys @ [y]" using assms(1) by (metis span_ok_def rev_exhaust)
  have y: "block_addr y" "y \<notin> set ys" "\<forall>x\<in>set ys. block_addr x" using assms(1,2) by (auto simp: span_ok_def xs)
  have "chain m (hd xs) ys y" using assms(1) by (auto simp: span_ok_def xs)
  then have "chain (pptr_set m y v) (hd xs) ys y" using chain_set_other [OF y(3,1,2)] by blast
  moreover have "pptr_get (pptr_set m y v) y = v" using y(1) assms(3) by (simp add: block_addr_def)
  ultimately show ?thesis using assms(1) by (auto simp: span_ok_def xs)
qed

lemma flight_held:
  assumes "a_rel R k c s p" "x \<in> in_flight (as_pc s t)"
  shows "p x = Some (With t)" "x \<in> sb_blocks R k c" "block_addr x"
proof -
  show x: "p x = Some (With t)" using owned_asD(1) [OF a_relD(4) [OF assms(1)]] assms(2) by blast
  then show "x \<in> sb_blocks R k c" using a_relD(7) [OF assms(1)] by auto
  then show "block_addr x" using sb_block_addr a_relD(1,2) [OF assms(1)] by blast
qed

lemma rel_link:
  assumes "a_rel R k c s p" "as_pc s t = FlushLink xs old"
  shows "a_rel R k c (at_pc t (FlushCas xs old)
    (s\<lparr>as_mem := pptr_set (as_mem s) (last xs) (block_at (sb_addr R k) (avail old) (class_block c))\<rparr>)) p"
proof -
  note i = a_relD [OF assms(1)]
  let ?v = "block_at (sb_addr R k) (avail old) (class_block c)"
  let ?s = "s\<lparr>as_mem := pptr_set (as_mem s) (last xs) ?v\<rparr>"
  obtain z where z: "span_ok (as_mem s) xs z" "unat (avail old) \<le> cls_count c" using i(6) [of t] assms(2) by auto
  have f: "x \<in> set xs \<Longrightarrow> p x = Some (With t)" "x \<in> set xs \<Longrightarrow> block_addr x" for x using flight_held [OF assms(1), of x t] assms(2) by simp_all
  have last: "last xs \<in> set xs" using z(1) by (simp add: span_ok_def)
  have sp: "span_ok (as_mem ?s) xs ?v" using span_link [OF z(1) f(2) unat_block_at(2) [OF i(1-3) z(2)]] by simp
  have "a_rel R k c ?s p"
  proof (rule rel_mem [OF assms(1) refl, where t = t])
    show "pptr_get (pptr_set (as_mem s) (last xs) ?v) x = pptr_get (as_mem s) x" if "x \<in> sb_blocks R k c" "p x \<noteq> Some (With t)" for x
      using that f last sb_block_addr [OF i(1,2) that(1)] by (intro pptr_get_set_other) (auto simp: block_addr_def)
    show "a_pc_ok (sb_addr R k) c ?s (as_pc s t)" using sp z(2) assms(2) by auto
  qed
  then show ?thesis by (rule rel_move) (use sp z(2) assms(2) in simp_all)
qed

text \<open>The exchange of a flush: the blocks join the chain in front.\<close>

lemma anchored_flush:
  assumes "anchored sb c s fs" "span_ok (as_mem s) xs (block_at sb (avail (as_anchor s)) (class_block c))" "set xs \<inter> set fs = {}"
    "length fs + length xs \<le> cls_count c" "c < NLIST" "j < cls_count c" "as_mem s' = as_mem s"
    "as_anchor s' = flush_anchor (as_anchor s) (of_nat j) (of_nat (length xs)) (class_max c)"
    "block_at sb (avail (as_anchor s')) (class_block c) = hd xs"
  shows "anchored sb c s' (xs @ fs)"
proof -
  have M: "cls_count c \<le> 8192" by (rule cls_count_bounds)
  have len: "unat (of_nat (length xs) :: u32) = length xs" using assms(4) M by (simp add: unsigned_of_nat take_bit_nat_eq_self)
  have xs: "xs \<noteq> []" "distinct xs" using assms(2) by (simp_all add: span_ok_def)
  note a = flush_anchor_ok [of "as_anchor s" c "length fs" "length xs" "class_max c" "of_nat (length xs)" j]
  have "anchor_ok (as_anchor s') c (length fs + length xs)" "unat (avail (as_anchor s')) = j"
    using a(1,2) assms(1,4,6,8) class_words(2) [OF assms(5)] len xs by (simp_all add: anchored_def)
  then show ?thesis using assms xs by (auto simp: anchored_def span_ok_def add.commute)
qed

lemma desc_once_full:
  "desc_once s \<Longrightarrow> astate (as_anchor s) = SB_FULL \<Longrightarrow> \<not> as_listed s \<and> desc_holders s = {}"
  by (auto simp: desc_once_def SB_FULL_def SB_PARTIAL_def SB_EMPTY_def split: if_splits)

lemma owned_as_flushed:
  assumes "owned_as s p" "in_flight (as_pc s t) = X" "as_own s' = as_own s" "as_pc s' = (as_pc s)(t := d)" "in_flight d = {}"
  shows "owned_as s' (move X Free p)"
proof -
  note h = owned_asD [OF assms(1)]
  have "(move X Free p x = Some (With v)) = (x \<in> as_own s' v \<union> in_flight (as_pc s' v))" for x v
  proof (cases "x \<in> X")
    case True
    then have "p x = Some (With t)" "x \<notin> as_own s t" using h(1) [of x t] h(2) [of x t] assms(2) by auto
    then show ?thesis using True h(1) [of x v] assms(3-5) by (auto simp: move_def split: if_splits)
  next
    case False
    then show ?thesis using h(1) [of x v] assms(2-5) by (auto simp: move_def)
  qed
  then show ?thesis using h(2) assms(3-5) by (auto simp: owned_as_def split: if_splits)
qed

lemma blocks_fit:
  assumes "distinct xs" "set xs \<subseteq> sb_blocks R k c"
  shows "length xs \<le> cls_count c"
proof -
  have "card (set xs) \<le> card (sb_blocks R k c)" using assms(2) by (intro card_mono) (simp_all add: sb_blocks_def)
  also have "\<dots> \<le> cls_count c" using card_image_le [of "{..<cls_count c}" "blk R k c"] by (simp add: sb_blocks_def)
  finally show ?thesis using assms(1) by (simp add: distinct_card)
qed

lemma rel_flushed:
  assumes "a_rel R k c s p" "as_pc s t = FlushCas xs (as_anchor s)"
  shows "\<exists>idx new. compute_idx (sb_addr R k) (hd xs) c = Inr idx \<and> new = flush_anchor (as_anchor s) idx (of_nat (length xs)) (class_max c)
    \<and> pool_step (Flushed t xs) p = Some (move (set xs) Free p)
    \<and> a_rel R k c (at_pc t (if astate (as_anchor s) = SB_FULL then if astate new = SB_EMPTY then Retire else Publish else Out) (s\<lparr>as_anchor := new\<rparr>))
        (move (set xs) Free p)"
proof -
  note i = a_relD [OF assms(1)]
  have sp: "span_ok (as_mem s) xs (block_at (sb_addr R k) (avail (as_anchor s)) (class_block c))" using i(6) [of t] assms(2) by simp
  then have xs: "xs \<noteq> []" "distinct xs" "hd xs \<in> set xs" by (simp_all add: span_ok_def)
  have f: "x \<in> set xs \<Longrightarrow> p x = Some (With t) \<and> x \<in> sb_blocks R k c" for x using flight_held(1,2) [OF assms(1), of x t] assms(2) by simp
  have hd: "p (hd xs) = Some (With t)" using f [OF xs(3)] by simp
  obtain fs where fs: "dom p = sb_blocks R k c" "set fs = free_blocks p" "anchored (sb_addr R k) c s fs" "length fs < cls_count c"
    by (rule rel_held [OF assms(1) hd])
  have disj: "set xs \<inter> set fs = {}" using f fs(2) by (auto simp: free_blocks_def)
  have all: "distinct (xs @ fs)" "set (xs @ fs) \<subseteq> sb_blocks R k c"
  proof -
    show "distinct (xs @ fs)" using xs(2) fs(3) disj by (simp add: anchored_def)
    have "set fs \<subseteq> dom p" using fs(2) by (auto simp: free_blocks_def)
    then show "set (xs @ fs) \<subseteq> sb_blocks R k c" using f fs(1) by auto
  qed
  have le: "length fs + length xs \<le> cls_count c" using blocks_fit [OF all] by simp
  obtain j where j: "j < cls_count c" "hd xs = blk R k c j" using f xs(3) by (auto simp: sb_blocks_def)
  define new where "new = flush_anchor (as_anchor s) (of_nat j) (of_nat (length xs)) (class_max c)"
  define d where "d = (if astate (as_anchor s) = SB_FULL then if astate new = SB_EMPTY then Retire else Publish else Out)"
  let ?s = "at_pc t d (s\<lparr>as_anchor := new\<rparr>)" and ?p = "move (set xs) Free p"
  have idx: "compute_idx (sb_addr R k) (hd xs) c = Inr (of_nat j)" using compute_idx_blk [OF i(1-3) j(1)] j(2) by simp
  have M: "cls_count c \<le> 8192" by (rule cls_count_bounds)
  have len: "unat (of_nat (length xs) :: u32) = length xs" using le M by (simp add: unsigned_of_nat take_bit_nat_eq_self)
  have av: "unat (avail new) = j"
    using flush_anchor_ok(2) [of "as_anchor s" c "length fs" "length xs" "class_max c" "of_nat (length xs)" j] fs(3) le j(1) len xs(1) class_words(2) [OF i(3)]
    by (simp add: new_def anchored_def)
  have bl: "block_at (sb_addr R k) (avail new) (class_block c) = hd xs"
    using block_at_blk [OF i(3), of "avail new" "class_block c" R k] av j class_words(1) [OF i(3)] by simp
  have anch: "anchored (sb_addr R k) c ?s (xs @ fs)"
    by (rule anchored_flush [OF fs(3) sp disj le i(3) j(1)]) (use bl in \<open>simp_all add: new_def\<close>)
  have new: "astate new = SB_PARTIAL \<or> astate new = SB_EMPTY" using anch xs(1) by (auto simp: anchored_def anchor_ok_def)
  have old: "astate (as_anchor s) = SB_FULL \<or> astate (as_anchor s) = SB_PARTIAL" using fs(3,4) by (auto simp: anchored_def anchor_ok_def)
  have hold: "desc_holders ?s = (if has_desc d then insert t (desc_holders s) else desc_holders s)"
    using holders_move [of ?s s t d] assms(2) by (simp add: desc_holders_def)
  have "a_rel R k c ?s ?p"
  proof (rule rel_shared [OF assms(1), where t = t])
    show "owned_as ?s ?p" by (rule owned_as_flushed [OF i(4), where t = t and d = d]) (use assms(2) in \<open>simp_all add: d_def\<close>)
    show "a_pc_ok (sb_addr R k) c ?s (as_pc ?s t)" by (simp add: d_def)
    show "astate (as_anchor ?s) = SB_EMPTY" if "as_pc s u = Retire" for u using i(6) [of u] that old by (auto simp: sb_states)
    show "desc_once ?s"
    proof (cases "astate (as_anchor s) = SB_FULL")
      case True
      then show ?thesis using desc_once_full [OF i(5)] hold new by (simp add: desc_once_def d_def)
    next
      case False
      then show ?thesis using i(5) hold new old by (auto simp: desc_once_def d_def)
    qed
    have "dom ?p = sb_blocks R k c" using dom_move [of "set xs" p Free] f fs(1) by blast
    moreover have "set (xs @ fs) = free_blocks ?p" using fs(2) by (simp add: free_move)
    ultimately show "dom ?p = {} \<and> as_anchor ?s = Anchor 0 \<or> dom ?p = sb_blocks R k c \<and> (\<exists>fs. set fs = free_blocks ?p \<and> anchored (sb_addr R k) c ?s fs)"
      using anch by blast
  qed simp_all
  moreover have "pool_step (Flushed t xs) p = Some ?p" using xs(1) f by simp
  ultimately show ?thesis using idx by (intro exI [of _ "of_nat j"] exI [of _ new]) (simp add: new_def d_def)
qed

text \<open>The exchange of a refill takes the whole chain.\<close>

lemma owned_as_took:
  assumes "owned_as s p" "in_flight (as_pc s t) = {}" "as_own s' = (as_own s)(t := as_own s t \<union> X)" "as_pc s' = (as_pc s)(t := d)" "in_flight d = {}"
    "X \<subseteq> free_blocks p"
  shows "owned_as s' (move X (With t) p)"
proof -
  note h = owned_asD [OF assms(1)]
  have "(move X (With t) p x = Some (With v)) = (x \<in> as_own s' v \<union> in_flight (as_pc s' v))" for x v
  proof (cases "x \<in> X")
    case True
    then have "p x = Some Free" using assms(6) by (auto simp: free_blocks_def)
    then have "x \<notin> as_own s v" "x \<notin> in_flight (as_pc s v)" using h(1) [of x v] by auto
    then show ?thesis using True assms(3-5) by (auto simp: move_def)
  next
    case False
    then show ?thesis using h(1) [of x v] assms(2-5) by (auto simp: move_def)
  qed
  then show ?thesis using h(2) assms(3-5) by (auto simp: owned_as_def)
qed

lemma other_not_retire:
  assumes "desc_holders s = {t}" "u \<noteq> t"
  shows "as_pc s u \<noteq> Retire"
proof
  assume "as_pc s u = Retire"
  then have "u \<in> desc_holders s" by (simp add: desc_holders_def)
  then show False using assms by simp
qed

lemma rel_took:
  assumes "a_rel R k c s p" "as_pc s t = TakeCas (as_anchor s)"
    "xs = blocks_from (as_mem s) (unat (acount (as_anchor s))) (block_at (sb_addr R k) (avail (as_anchor s)) (class_block c))"
  shows "pool_step (Took t xs) p = Some (move (set xs) (With t) p)"
    "a_rel R k c (at_pc t Out (gain_blocks t xs (s\<lparr>as_anchor := \<lparr>avail = ucast (class_max c), acount = 0, astate = SB_FULL\<rparr>\<rparr>))) (move (set xs) (With t) p)"
proof -
  note i = a_relD [OF assms(1)]
  have st: "astate (as_anchor s) = SB_PARTIAL" using i(6) [of t] assms(2) by simp
  then have "as_anchor s \<noteq> Anchor 0" by (auto simp: Anchor_def sb_states)
  then obtain fs where fs: "dom p = sb_blocks R k c" "set fs = free_blocks p" "anchored (sb_addr R k) c s fs" using i(7) by blast
  then have n: "unat (acount (as_anchor s)) = length fs" "fs \<noteq> []" "distinct fs" using st by (auto simp: anchored_def anchor_ok_def sb_states)
  then have xs: "xs = fs" using fs(3) chain_blocks_from [of "as_mem s" _ fs] by (auto simp: anchored_def assms(3))
  show "pool_step (Took t xs) p = Some (move (set xs) (With t) p)" using xs n fs(2) by simp
  let ?s = "at_pc t Out (gain_blocks t xs (s\<lparr>as_anchor := \<lparr>avail = ucast (class_max c), acount = 0, astate = SB_FULL\<rparr>\<rparr>))"
    and ?p = "move (set xs) (With t) p"
  note h = sole_holder [OF i(5), of t]
  have h1: "desc_holders s = {t}" "\<not> as_listed s" using h assms(2) by simp_all
  have h2: "desc_holders ?s = {}" using holders_move [of ?s s t Out] h1 by (simp add: gain_blocks_def)
  have mx: "unat (ucast (class_max c) :: 31 word) = cls_count c"
    using class_words(2) [OF i(3)] cls_count_bounds(2) [of c] by (simp add: unsigned_ucast_eq take_bit_nat_eq_self)
  show "a_rel R k c ?s ?p"
  proof (rule rel_shared [OF assms(1), where t = t])
    show "owned_as ?s ?p" by (rule owned_as_took [OF i(4), where t = t and d = Out]) (use assms(2) xs fs(2) in \<open>simp_all add: gain_blocks_def\<close>)
    show "desc_once ?s" using h1 h2 by (simp add: desc_once_def gain_blocks_def sb_states)
    show "astate (as_anchor ?s) = SB_EMPTY" if "u \<noteq> t" "as_pc s u = Retire" for u using other_not_retire [OF h1(1) that(1)] that(2) by simp
    have "dom ?p = sb_blocks R k c" using fs xs by (subst dom_move) (auto simp: free_blocks_def)
    moreover have "set [] = free_blocks ?p" using xs fs(2) by (simp add: free_move)
    moreover have "anchored (sb_addr R k) c ?s []" using mx by (simp add: anchored_def anchor_ok_def gain_blocks_def)
    ultimately show "dom ?p = {} \<and> as_anchor ?s = Anchor 0 \<or> dom ?p = sb_blocks R k c \<and> (\<exists>fs. set fs = free_blocks ?p \<and> anchored (sb_addr R k) c ?s fs)"
      by blast
  qed (simp_all add: gain_blocks_def)
qed

lemma rel_retired:
  assumes "a_rel R k c s p" "as_pc s t = Retire"
  shows "pool_step (Retired t) p = Some Map.empty" "a_rel R k c (at_pc t Out (s\<lparr>as_anchor := Anchor 0\<rparr>)) Map.empty"
proof -
  note i = a_relD [OF assms(1)]
  have st: "astate (as_anchor s) = SB_EMPTY" using i(6) [of t] assms(2) by simp
  then have "as_anchor s \<noteq> Anchor 0" by (auto simp: Anchor_def sb_states)
  then obtain fs where fs: "dom p = sb_blocks R k c" "set fs = free_blocks p" "anchored (sb_addr R k) c s fs" using i(7) by blast
  have n: "length fs = cls_count c" "distinct fs" using fs(3) st by (auto simp: anchored_def anchor_ok_def sb_states)
  have none: "p x \<noteq> Some (With v)" for x v using rel_held [OF assms(1), of x v] fs(2,3) n
    by (metis anchored_def distinct_card nat_less_le)
  have "x \<in> free_blocks p" if "x \<in> dom p" for x using that none by (auto simp: free_blocks_def) (metis place.exhaust)
  then have "dom p = free_blocks p" by (auto simp: free_blocks_def)
  moreover have "fs \<noteq> []" using n cls_count_bounds(1) [of c] by auto
  ultimately show "pool_step (Retired t) p = Some Map.empty" using fs(2) by (metis pool_step.simps(4) set_empty)
  let ?s = "at_pc t Out (s\<lparr>as_anchor := Anchor 0\<rparr>)"
  note h = sole_holder [OF i(5), of t]
  have h1: "desc_holders s = {t}" "\<not> as_listed s" using h assms(2) by simp_all
  have h2: "desc_holders ?s = {}" using holders_move [of ?s s t Out] h1 by simp
  show "a_rel R k c ?s Map.empty"
  proof (rule rel_shared [OF assms(1), where t = t])
    have "x \<notin> as_own s v" "x \<notin> in_flight (as_pc s v)" for x v using none [of x v] owned_asD(1) [OF i(4), of x v] by blast+
    then show "owned_as ?s Map.empty" by (auto simp: owned_as_def)
    show "desc_once ?s" using h1 h2 by (simp add: desc_once_def Anchor_def sb_states)
    show "astate (as_anchor ?s) = SB_EMPTY" if "u \<noteq> t" "as_pc s u = Retire" for u using other_not_retire [OF h1(1) that(1)] that(2) by simp
  qed simp_all
qed

section \<open>Refinement\<close>

definition a_follows :: "regions \<Rightarrow> nat \<Rightarrow> nat \<Rightarrow> pool \<Rightarrow> a_event option \<times> asys \<Rightarrow> bool" where
  "a_follows R k c p r \<longleftrightarrow> (case r of (None, s') \<Rightarrow> a_rel R k c s' p
     | (Some v, s') \<Rightarrow> \<exists>p'. pool_step v p = Some p' \<and> a_rel R k c s' p')"

lemma a_follows_simps:
  "a_follows R k c p (None, s) \<longleftrightarrow> a_rel R k c s p"
  "a_follows R k c p (Some v, s) \<longleftrightarrow> (\<exists>p'. pool_step v p = Some p' \<and> a_rel R k c s p')"
  by (simp_all add: a_follows_def)

lemma anchor_bound:
  assumes "a_rel R k c s p"
  shows "unat (avail (as_anchor s)) \<le> cls_count c"
  using a_relD(7) [OF assms] by (auto simp: anchored_def Anchor_def)

lemma rel_take_round:
  assumes "a_rel R k c s p" "has_desc (as_pc s t)" "in_flight (as_pc s t) = {}"
  shows "a_rel R k c (take_round t (as_anchor s) s) p"
  using sole_holder(3) [OF a_relD(5) [OF assms(1)] assms(2)] assms(2,3)
  by (auto simp: take_round_def intro!: rel_move [OF assms(1)])

text \<open>With a whole batch the anchor never counts more than is asked for.\<close>

lemma whole_count:
  assumes "a_rel R k c s p" "whole c b"
  shows "ucast (acount (as_anchor s)) \<le> b"
proof -
  have "unat (acount (as_anchor s)) \<le> cls_count c - 1"
    using a_relD(7) [OF assms(1)] by (auto simp: anchored_def anchor_ok_def Anchor_def)
  then have "unat (acount (as_anchor s)) \<le> unat b" using assms(2) by (simp add: whole_def)
  moreover have "unat (ucast (acount (as_anchor s)) :: u32) = unat (acount (as_anchor s))"
    by (rule unat_ucast_lt) (simp_all add: less_trans [OF unat_lt_2p])
  ultimately show ?thesis by (simp add: word_le_nat_alt)
qed

lemma a_step_ok:
  assumes "a_rel R k c s p"
  shows "a_follows R k c p (a_step (sb_addr R k) c spurious t s)"
proof -
  note i = a_relD [OF assms] and mv = rel_move [OF assms, where t = t]
  have pc: "a_pc_ok (sb_addr R k) c s (as_pc s t)" by (rule i(6))
  show ?thesis
  proof (cases "as_pc s t")
    case (FlushLoad xs)
    then show ?thesis using pc anchor_bound [OF assms] by (auto simp: a_step_def a_follows_simps intro!: mv)
  next
    case (FlushLink xs old)
    then show ?thesis using rel_link [OF assms FlushLink] by (simp add: a_step_def a_follows_simps)
  next
    case (FlushCas xs old)
    show ?thesis
    proof (cases "as_anchor s = old")
      case True
      have again: "a_rel R k c (at_pc t (FlushLink xs old) s) p" by (rule mv) (use pc FlushCas in auto)
      show ?thesis using rel_flushed [OF assms, of t xs] FlushCas again True
        by (auto simp: a_step_def flush_exchange_def Let_def a_follows_simps)
    next
      case False
      have again: "a_rel R k c (at_pc t (FlushLink xs (as_anchor s)) s) p" by (rule mv) (use pc FlushCas anchor_bound [OF assms] in auto)
      have "hd xs \<in> sb_blocks R k c" using flight_held(2) [OF assms, of "hd xs" t] pc FlushCas by (simp add: span_ok_def)
      then obtain idx where "compute_idx (sb_addr R k) (hd xs) c = Inr idx" using compute_idx_blk [OF i(1-3)] by (auto simp: sb_blocks_def)
      then show ?thesis using FlushCas False again by (simp add: a_step_def flush_exchange_def a_follows_simps)
    qed
  next
    case Publish
    then show ?thesis using rel_publish [OF assms] by (simp add: a_step_def a_follows_simps)
  next
    case Retire
    then show ?thesis using rel_retired [OF assms Retire] by (auto simp: a_step_def a_follows_simps)
  next
    case (TakeLoad b)
    then show ?thesis using rel_take_round [OF assms, of t] whole_count [OF assms, of b] pc by (simp add: a_step_def a_follows_simps Let_def)
  next
    case (TakeCas old)
    then show ?thesis using rel_take_round [OF assms, of t] rel_took [OF assms, of t]
      by (auto simp: a_step_def take_exchange_def Let_def a_follows_simps simp del: pool_step.simps)
  qed (use pc assms in \<open>simp_all add: a_step_def a_follows_simps\<close>)
qed

lemma a_trans_ok:
  assumes "a_rel R k c s p" "a_trans R k c (whole c) s e s'"
  shows "a_follows R k c p (e, s')"
  using assms(2)
proof (cases rule: a_trans.cases)
  case (put t m)
  then show ?thesis using rel_put [OF assms(1), of t m] by (simp add: a_follows_simps)
next
  case (pass x t u)
  then show ?thesis using rel_pass [OF assms(1)] by (simp add: a_follows_simps)
next
  case (step spurious t)
  then show ?thesis using a_step_ok [OF assms(1), of spurious t] by simp
qed (auto simp: a_follows_simps intro: rel_flush [OF assms(1)] rel_take [OF assms(1)])

lemma a_start_rel:
  assumes "a_start R k c p s"
  shows "a_rel R k c s p"
proof -
  have s: "as_anchor s = \<lparr>avail = ucast (class_max c), acount = 0, astate = SB_FULL\<rparr>" "as_pc s = (\<lambda>_. Out)" "\<not> as_listed s"
    "as_own s = (\<lambda>t. {x. p x = Some (With t)})" using assms unfolding a_start_def by (metis asys.simps)+
  have g: "c < NLIST" "free_blocks p = {}" "geom R" "k < nsb R" "dom p = sb_blocks R k c" using assms by (simp_all add: a_start_def)
  have mx: "unat (ucast (class_max c) :: 31 word) = cls_count c"
    using class_words(2) [OF g(1)] cls_count_bounds(2) [of c] by (simp add: unsigned_ucast_eq take_bit_nat_eq_self)
  have "anchored (sb_addr R k) c s []" using s mx by (simp add: anchored_def anchor_ok_def)
  moreover have "set [] = free_blocks p" using g(2) by simp
  moreover have "owned_as s p" "desc_once s" using s by (simp_all add: owned_as_def desc_once_def desc_holders_def sb_states)
  ultimately show ?thesis using g s unfolding a_rel_def by auto
qed

interpretation ac: simulation "a_start R k c p" "a_trans R k c (whole c)" pool_step p "a_rel R k c" for R k c p
proof
  show "a_rel R k c s p" if "a_start R k c p s" for s using a_start_rel that .
  show "a_rel R k c s' a" if "a_rel R k c s a" "a_trans R k c (whole c) s None s'" for s a s'
    using a_trans_ok [OF that] by (simp add: a_follows_simps)
  show "\<exists>a'. pool_step e a = Some a' \<and> a_rel R k c s' a'" if "a_rel R k c s a" "a_trans R k c (whole c) s (Some e) s'" for s a e s'
    using a_trans_ok [OF that] by (simp add: a_follows_simps)
qed

section \<open>Uninterrupted flushes\<close>

lemma a_steps_silent:
  assumes "a_step (sb_addr R k) c False t s = (None, s')" "sys_steps (a_trans R k c batch) s' es s''"
  shows "sys_steps (a_trans R k c batch) s es s''"
  using sys_steps_silent [OF a_trans.step [OF assms(1)] assms(2)] .

definition flushed :: "regions \<Rightarrow> nat \<Rightarrow> nat \<Rightarrow> nat \<Rightarrow> u64 list \<Rightarrow> u32 \<Rightarrow> asys \<Rightarrow> asys" where
  "flushed R k c t xs idx s =
     (let old = as_anchor s; new = flush_anchor old idx (of_nat (length xs)) (class_max c) in
      at_pc t (if astate old = SB_FULL then if astate new = SB_EMPTY then Retire else Publish else Out)
        (s\<lparr>as_anchor := new, as_mem := pptr_set (as_mem s) (last xs) (block_at (sb_addr R k) (avail old) (class_block c)),
           as_own := (as_own s)(t := as_own s t - set xs)\<rparr>))"

lemma flush_alone:
  assumes "as_pc s t = Out" "xs \<noteq> []" "distinct xs" "set xs \<subseteq> as_own s t" "chain (as_mem s) (hd xs) xs z"
    "compute_idx (sb_addr R k) (hd xs) c = Inr idx"
  shows "sys_steps (a_trans R k c batch) s [Flushed t xs] (flushed R k c t xs idx s)"
proof -
  let ?v = "block_at (sb_addr R k) (avail (as_anchor s)) (class_block c)"
  let ?s = "s\<lparr>as_own := (as_own s)(t := as_own s t - set xs)\<rparr>"
  let ?m = "?s\<lparr>as_mem := pptr_set (as_mem s) (last xs) ?v\<rparr>"
  have "a_trans R k c batch (at_pc t (FlushCas xs (as_anchor s)) ?m) (Some (Flushed t xs)) (flushed R k c t xs idx s)"
    by (rule a_trans.step [where t = t and spurious = False])
      (simp add: a_step_def flush_exchange_def assms(6) Let_def flushed_def at_pc_def)
  then have "sys_steps (a_trans R k c batch) (at_pc t (FlushCas xs (as_anchor s)) ?m) [Flushed t xs] (flushed R k c t xs idx s)"
    by (rule sys_steps_last)
  then have "sys_steps (a_trans R k c batch) (at_pc t (FlushLink xs (as_anchor s)) ?s) [Flushed t xs] (flushed R k c t xs idx s)"
    by (rule a_steps_silent [where t = t, rotated]) (simp add: a_step_def at_pc_def)
  then have "sys_steps (a_trans R k c batch) (at_pc t (FlushLoad xs) ?s) [Flushed t xs] (flushed R k c t xs idx s)"
    by (rule a_steps_silent [where t = t, rotated]) (simp add: a_step_def at_pc_def)
  then show ?thesis by (rule sys_steps_silent [rotated]) (rule a_trans.flush [OF assms(1-5)])
qed

text \<open>
  The batches of the thread caches: classes from 128 bytes on have at most 512 blocks in a superblock
  and start with a batch that covers it, and the growth of the batch keeps this.
\<close>

lemma cache_batch_whole:
  assumes "c < NLIST" "128 \<le> cls_size c"
  shows "whole c (cache_maxsize (indextosize myclasssize ! c))"
proof -
  have n: "cls_count c \<le> 512" using assms(2) div_le_mono2 [of 128 "cls_size c" 65536] by (simp add: cls_count_def)
  have "unat (indextosize myclasssize ! c) = cls_size c" using assms(1) by (simp add: indextosize_class cls_size_def NLIST_def)
  then have "unat (SBSIZE div (indextosize myclasssize ! c)) = cls_count c" by (simp add: unat_div_distrib SBSIZE_eq cls_count_def)
  then have t: "unat (ucast (SBSIZE div (indextosize myclasssize ! c)) :: u32) = cls_count c"
    using n by (simp add: unsigned_ucast_eq take_bit_nat_eq_self)
  then have "cache_maxsize (indextosize myclasssize ! c) = ucast (SBSIZE div (indextosize myclasssize ! c))"
    using n by (simp add: cache_maxsize_def Let_def word_less_nat_alt)
  then show ?thesis using t by (simp add: whole_def)
qed

lemma grow_whole:
  assumes "c < NLIST" "whole c m" "unat m \<le> 8192"
  shows "whole c (Maxsize (grow_maxsize f m (class_max c)))"
proof (cases "m * 2 < class_max c")
  case True
  have "unat (m * 2) < cls_count c" using True class_words(2) [OF assms(1)] by (simp add: word_less_nat_alt)
  moreover have "unat (m * 2) = unat m * 2" using assms(3) by (subst unat_mult_lem [THEN iffD1]) auto
  ultimately show ?thesis using True assms(2) by (simp add: grow_maxsize_def whole_def Maxsize_def SetMaxSize_def)
next
  case False
  then show ?thesis using class_words(2) [OF assms(1)] by (simp add: grow_maxsize_def whole_def Maxsize_def SetMaxSize_def)
qed

section \<open>Properties\<close>

text \<open>C14: Any number of threads that flush blocks to a superblock, refill from it, hand blocks to each other
  and write to the blocks they own, in any interleaving of their accesses and with any spurious
  failures, treat it as a pool: the completed calls in their order are a run of the pool, every
  block is with at most one thread or free, the free blocks are exactly the chain of the anchor,
  the descriptor is on the partial list or with exactly one thread while blocks are free, and no
  assertion fails.  The batch of every refill covers a superblock, as the caches of all classes from
  128 bytes on do.\<close>

theorem superblock_linearizable:
  assumes "sys_run (a_start R k c p0) (a_trans R k c (whole c)) s es"
  shows "\<exists>p. spec_run pool_step es p0 = Some p \<and> owned_as s p \<and> desc_once s \<and> (\<forall>t. as_pc s t \<noteq> Failed)
    \<and> (dom p = {} \<or> dom p = sb_blocks R k c \<and> (\<exists>fs. set fs = free_blocks p \<and> anchored (sb_addr R k) c s fs))"
proof -
  obtain p where p: "spec_run pool_step es p0 = Some p" "a_rel R k c s p" using ac.run_refines [OF assms] by blast
  have "as_pc s t \<noteq> Failed" for t using a_relD(6) [OF p(2), of t] by auto
  then show ?thesis using p(1) a_relD(4,5,7) [OF p(2)] by blast
qed

text \<open>Thread 0 has a whole superblock of the largest class and flushes its first block.\<close>

definition one_owner :: "regions \<Rightarrow> nat \<Rightarrow> nat \<Rightarrow> pool" where
  "one_owner R k c = (\<lambda>x. if x \<in> sb_blocks R k c then Some (With 0) else None)"

definition full_superblock :: "regions \<Rightarrow> nat \<Rightarrow> nat \<Rightarrow> memory \<Rightarrow> asys" where
  "full_superblock R k c m = \<lparr>as_anchor = \<lparr>avail = ucast (class_max c), acount = 0, astate = SB_FULL\<rparr>, as_mem = m,
     as_pc = \<lambda>_. Out, as_listed = False, as_own = \<lambda>t. {x. one_owner R k c x = Some (With t)}\<rparr>"

lemma full_superblock_run:
  assumes "geom R" "k < nsb R" "c < NLIST"
  shows "sys_run (a_start R k c (one_owner R k c)) tr (full_superblock R k c m) []"
  by (rule sys_run.start) (use assms in \<open>auto simp: a_start_def full_superblock_def one_owner_def free_blocks_def split: if_splits\<close>)

theorem superblock_linearizable_witness:
  "\<exists>s. sys_run (a_start (w_rgs sample_heap) 1 159 (one_owner (w_rgs sample_heap) 1 159)) (a_trans (w_rgs sample_heap) 1 159 (whole 159)) s
      [Flushed 0 [blk (w_rgs sample_heap) 1 159 0]]
    \<and> (\<exists>fs. set fs = {blk (w_rgs sample_heap) 1 159 0} \<and> anchored (sb_addr (w_rgs sample_heap) 1) 159 s fs)"
proof -
  let ?R = "w_rgs sample_heap" and ?c = "159 :: nat"
  let ?x = "blk ?R 1 ?c 0" and ?s = "full_superblock ?R 1 ?c (\<lambda>_. 0)"
  have g: "geom ?R" "1 < nsb ?R" "?c < NLIST" using sample_layout by (simp_all add: NLIST_def)
  have j: "0 < cls_count ?c" using cls_count_bounds(1) [of ?c] by simp
  have x: "?x \<in> sb_blocks ?R 1 ?c" using j by (auto simp: sb_blocks_def)
  have "sys_steps (a_trans ?R 1 ?c (whole ?c)) ?s [Flushed 0 [?x]] (flushed ?R 1 ?c 0 [?x] (of_nat 0) ?s)"
    by (rule flush_alone [where z = "pptr_get (\<lambda>_. 0) ?x"]) (use x compute_idx_blk [OF g j] in \<open>simp_all add: full_superblock_def one_owner_def\<close>)
  then have run: "sys_run (a_start ?R 1 ?c (one_owner ?R 1 ?c)) (a_trans ?R 1 ?c (whole ?c)) (flushed ?R 1 ?c 0 [?x] (of_nat 0) ?s) [Flushed 0 [?x]]"
    using sys_run_steps [OF _ full_superblock_run [OF g]] by fastforce
  obtain p where p: "spec_run pool_step [Flushed 0 [?x]] (one_owner ?R 1 ?c) = Some p" "dom p = {} \<or> dom p = sb_blocks ?R 1 ?c
      \<and> (\<exists>fs. set fs = free_blocks p \<and> anchored (sb_addr ?R 1) ?c (flushed ?R 1 ?c 0 [?x] (of_nat 0) ?s) fs)"
    using superblock_linearizable [OF run] by blast
  have "p = move {?x} Free (one_owner ?R 1 ?c)" using p(1) x by (simp add: one_owner_def)
  then have "free_blocks p = {?x}" "?x \<in> dom p" by (auto simp: free_blocks_def one_owner_def move_def split: if_splits)
  then show ?thesis using p(2) run by (metis empty_iff)
qed

section \<open>Refills of a part\<close>

lemma link_after:
  assumes "geom R" "k < nsb R" "i < cls_count c" "j < cls_count c" "canonical v"
  shows "pptr_get (pptr_set m (blk R k c i) v) (blk R k c j) = (if j = i then v else pptr_get m (blk R k c j))"
proof -
  have b: "block_addr (blk R k c i)" "block_addr (blk R k c j)" using blk_block_addr [OF assms(1,2)] assms(3,4) by simp_all
  have "blk R k c i = blk R k c j \<longleftrightarrow> i = j" using blk_inj(2) [OF assms(1,2,3,2,4)] by auto
  then show ?thesis using b assms(5) by (auto simp: pptr_get_set block_addr_def)
qed

text \<open>The links after the two flushes and the cut of the refill.\<close>

lemma raced_memory:
  assumes B_def: "B = blk R k c" and "geom R" "k < nsb R" "n + 1 < cls_count c" "0 < b" "b < n" "\<And>j. Suc j < n \<Longrightarrow> pptr_get m (B j) = B (Suc j)" "canonical v"
    and "m2 = pptr_set (pptr_set m (B (n - 1)) v) (B n) (B 0)"
  shows "\<And>j. Suc j < n \<Longrightarrow> pptr_get m2 (B j) = B (Suc j)"
    "blocks_from (pptr_set m2 (B (b - 1)) 0) b (B 0) = map B [0..<b]"
    "blocks_from (pptr_set m2 (B (b - 1)) 0) (n + 1 - b) (B b) = map B [b..<n] @ [v]"
proof -
  have can: "canonical (B j)" if "j < cls_count c" for j using blk_block_addr [OF assms(2,3) that] by (simp add: B_def block_addr_def)
  note la = link_after [OF assms(2,3), of _ c, folded B_def]
  have g2: "pptr_get m2 (B j) = (if j = n then B 0 else if j = n - 1 then v else pptr_get m (B j))" if "j < cls_count c" for j
    using that assms(4,8) can [of 0] by (simp add: assms(9) la)
  then show l2: "pptr_get m2 (B j) = B (Suc j)" if "Suc j < n" for j using that assms(4) assms(7) [OF that] by auto
  let ?m = "pptr_set m2 (B (b - 1)) 0"
  have g3: "pptr_get ?m (B j) = (if j = b - 1 then 0 else pptr_get m2 (B j))" if "j < cls_count c" for j
    using that assms(4-6) by (simp add: la canonical_def)
  have "pptr_get ?m (B j) = B (Suc j)" if "Suc j < b" for j using that assms(4,6) g3 [of j] l2 [of j] by (auto split: if_splits)
  then have "chain ?m (B 0) (map B [0..<b]) (pptr_get ?m (B (b - 1)))" using assms(5) by (intro chain_links) auto
  then show "blocks_from ?m b (B 0) = map B [0..<b]" using chain_blocks_from [of ?m "B 0" "map B [0..<b]"] by simp
  have "pptr_get ?m (B j) = B (Suc j)" if "b \<le> j" "Suc j < n" for j using that assms(4,5) g3 [of j] l2 [of j] by (auto split: if_splits)
  then have "chain ?m (B b) (map B [b..<n]) (pptr_get ?m (B (n - 1)))" using assms(6) by (intro chain_links) auto
  moreover have "n - 1 \<noteq> b - 1" "n - 1 \<noteq> n" "n - 1 < cls_count c" using assms(4-6) by linarith+
  then have "pptr_get ?m (B (n - 1)) = v" using g3 [of "n - 1"] g2 [of "n - 1"] by simp
  ultimately have "chain ?m (B b) (map B [b..<n] @ [v]) (pptr_get ?m v)" by simp
  from chain_blocks_from [OF this] show "blocks_from ?m (n + 1 - b) (B b) = map B [b..<n] @ [v]" using assms(6) by (simp add: Suc_diff_le)
qed

text \<open>The walk of a refill over \<open>b\<close> blocks.\<close>

lemma walk_alone:
  assumes "geom R" "k < nsb R" "n < cls_count c" "\<And>j. Suc j < n \<Longrightarrow> pptr_get (as_mem s) (blk R k c j) = blk R k c (Suc j)"
    "i + d < n" "i + d < 2 ^ 32" "as_pc s t = PartWalk (of_nat (i + d)) h prev (blk R k c i) (of_nat i) old"
  shows "sys_steps (a_trans R k c batch) s []
    (at_pc t (PartWalk (of_nat (i + d)) h (if d = 0 then prev else blk R k c (i + d - 1)) (blk R k c (i + d)) (of_nat (i + d)) old) s)"
  using assms(4-7)
proof (induction d arbitrary: i prev s)
  case 0
  then show ?case by (simp add: at_pc_def fun_upd_idem sys_steps.stop)
next
  case (Suc d)
  let ?b = "of_nat (i + Suc d) :: u32"
  let ?s = "at_pc t (PartWalk ?b h (blk R k c i) (blk R k c (Suc i)) (of_nat (Suc i)) old) s"
  have nz: "blk R k c i \<noteq> 0" using blk_block_addr [OF assms(1,2), of i c] Suc.prems(2) assms(3) by (simp add: block_addr_def)
  have "unat ?b = i + Suc d" "unat (of_nat i :: u32) = i"
    using Suc.prems(3) unfolding unsigned_of_nat by (simp_all add: take_bit_nat_eq_self del: of_nat_add of_nat_Suc)
  then have lt: "(of_nat i :: u32) < ?b" unfolding word_less_nat_alt by simp
  have "pptr_get (as_mem s) (blk R k c i) = blk R k c (Suc i)" using Suc.prems(1,2) by simp
  then have step: "a_step (sb_addr R k) c False t s = (None, ?s)"
    using nz lt Suc.prems(4) by (simp add: a_step_def part_walk_def add.commute)
  have ih: "sys_steps (a_trans R k c batch) ?s []
      (at_pc t (PartWalk (of_nat (Suc i + d)) h (if d = 0 then blk R k c i else blk R k c (Suc i + d - 1)) (blk R k c (Suc i + d)) (of_nat (Suc i + d)) old) ?s)"
    using Suc.prems by (intro Suc.IH) simp_all
  have "at_pc t e ?s = at_pc t e s" for e by (simp add: at_pc_def)
  moreover have "(if d = 0 then blk R k c i else blk R k c (Suc i + d - 1)) = blk R k c (i + Suc d - 1)" "Suc i + d = i + Suc d" by simp_all
  ultimately have "sys_steps (a_trans R k c batch) ?s []
      (at_pc t (PartWalk ?b h (blk R k c (i + Suc d - 1)) (blk R k c (i + Suc d)) ?b old) s)" using ih by presburger
  then show ?case using a_steps_silent [OF step] by simp
qed

text \<open>The anchors of the race: after the first and the second flush, and after the refill.\<close>

lemma race_anchors:
  assumes "c < NLIST" "n + 1 < cls_count c" "0 < b" "b < n" "a0 = \<lparr>avail = ucast (class_max c), acount = 0, astate = SB_FULL\<rparr>"
    "a1 = flush_anchor a0 0 (of_nat n) (class_max c)" "a2 = flush_anchor a1 (of_nat n) (of_nat 1) (class_max c)"
  shows "unat (avail a0) = cls_count c" "unat (avail a1) = 0" "unat (acount a1) = n" "astate a1 = SB_PARTIAL"
    "unat (avail a2) = n" "unat (acount a2) = n + 1" "astate a2 = SB_PARTIAL"
    "unat (ucast (of_nat b :: u32) :: 31 word) = b" "unat (ucast ((ucast (acount a2) :: u32) - of_nat b) :: 31 word) = n + 1 - b"
    "\<not> ucast (acount a1) \<le> (of_nat b :: u32)" "a2 \<noteq> a1"
proof -
  have M: "cls_count c \<le> 8192" by (rule cls_count_bounds)
  have u: "unat (of_nat i :: u32) = i" if "i < cls_count c" for i using that M by (simp add: unsigned_of_nat take_bit_nat_eq_self)
  have n: "unat (of_nat n :: u32) = n" "unat (of_nat 1 :: u32) = 1" "unat (of_nat b :: u32) = b" using u assms(2-4) by simp_all
  show "unat (avail a0) = cls_count c" using class_words(2) [OF assms(1)] M by (simp add: assms(5) unsigned_ucast_eq take_bit_nat_eq_self)
  have "anchor_ok a0 c 0" by (simp add: assms(5) anchor_ok_def)
  then have 1: "anchor_ok a1 c n" "unat (avail a1) = 0"
    using flush_anchor_ok(1,2) [of a0 c 0 n "class_max c" "of_nat n" 0] n(1) assms(2-4) class_words(2) [OF assms(1)] by (simp_all add: assms(6))
  then show a1: "unat (acount a1) = n" "astate a1 = SB_PARTIAL" "unat (avail a1) = 0" using assms(2-4) by (auto simp: anchor_ok_def)
  have 2: "anchor_ok a2 c (n + 1)" "unat (avail a2) = n"
    using flush_anchor_ok(1,2) [OF 1(1), of 1 "class_max c" "of_nat 1" n] n(2) assms(2) class_words(2) [OF assms(1)] by (simp_all add: assms(7))
  then show a2: "unat (acount a2) = n + 1" "astate a2 = SB_PARTIAL" "unat (avail a2) = n" using assms(2) by (auto simp: anchor_ok_def)
  have w: "unat (ucast (acount a1) :: u32) = n" "unat (ucast (acount a2) :: u32) = n + 1"
    using a1(1) a2(1) assms(2) M by (simp_all add: unsigned_ucast_eq take_bit_nat_eq_self)
  show "\<not> ucast (acount a1) \<le> (of_nat b :: u32)" using w(1) n(3) assms(4) by (simp add: word_le_nat_alt)
  show "a2 \<noteq> a1" using a1(1) a2(1) by auto
  show "unat (ucast (of_nat b :: u32) :: 31 word) = b" using n(3) assms(2,4) M by (simp add: unsigned_ucast_eq take_bit_nat_eq_self)
  have "unat ((ucast (acount a2) :: u32) - of_nat b) = n + 1 - b" using w(2) n(3) assms(4) by (subst unat_sub_le) (simp_all add: word_le_nat_alt)
  then show "unat (ucast ((ucast (acount a2) :: u32) - of_nat b) :: 31 word) = n + 1 - b"
    using assms(2) M by (simp add: unsigned_ucast_eq take_bit_nat_eq_self)
qed

lemma part_refill_alone:
  assumes "as_pc s t = PartWalk bb h prev cur bb old" "compute_idx (sb_addr R k) cur c = Inr idx" "old \<noteq> as_anchor s"
    "m = pptr_set (as_mem s) prev 0" "xs = blocks_from m (unat bb) h"
    "a = \<lparr>avail = ucast idx, acount = ucast ((ucast (acount (as_anchor s)) :: u32) - bb), astate = SB_PARTIAL\<rparr>"
  shows "sys_steps (a_trans R k c batch) s [Took t xs] (at_pc t Publish (gain_blocks t xs (s\<lparr>as_mem := m, as_anchor := a\<rparr>)))"
proof -
  let ?s = "s\<lparr>as_mem := m\<rparr>" and ?fin = "at_pc t Publish (gain_blocks t xs (s\<lparr>as_mem := m, as_anchor := a\<rparr>))"
  have "a_trans R k c batch (at_pc t (PartCas h idx bb (as_anchor s)) ?s) (Some (Took t xs)) ?fin"
    by (rule a_trans.step [where t = t and spurious = False])
      (simp add: a_step_def part_exchange_def Let_def assms(5,6), simp add: at_pc_def gain_blocks_def)
  then have "sys_steps (a_trans R k c batch) (at_pc t (PartCas h idx bb (as_anchor s)) ?s) [Took t xs] ?fin" by (rule sys_steps_last)
  then have "sys_steps (a_trans R k c batch) (at_pc t (PartCas h idx bb old) ?s) [Took t xs] ?fin"
    by (rule a_steps_silent [where t = t, rotated]) (use assms(3) in \<open>simp add: a_step_def part_exchange_def Let_def at_pc_def\<close>)
  then show ?thesis
    by (rule a_steps_silent [where t = t, rotated]) (use assms(1,2,4) in \<open>simp add: a_step_def part_walk_def at_pc_def\<close>)
qed

text \<open>Blocks, their indices and their order in a superblock of the race.\<close>

lemma race_blocks:
  assumes "geom R" "k < nsb R" "c < NLIST" "n < cls_count c" "B = blk R k c"
  shows "\<And>av. unat av < cls_count c \<Longrightarrow> block_at (sb_addr R k) av (class_block c) = B (unat av)"
    "\<And>j. j < cls_count c \<Longrightarrow> compute_idx (sb_addr R k) (B j) c = Inr (of_nat j)"
    "\<And>j. Suc j < n \<Longrightarrow> pptr_get (link_blocks (\<lambda>_. 0) (sb_addr R k) (class_block c) (cls_count c - 1)) (B j) = B (Suc j)"
    "distinct (map B [0..<n])" "B n \<notin> set (map B [0..<n])" "\<And>j. j < cls_count c \<Longrightarrow> B j \<in> sb_blocks R k c"
proof -
  show "block_at (sb_addr R k) av (class_block c) = B (unat av)" if "unat av < cls_count c" for av
    using block_at_blk [OF assms(3) that class_words(1) [OF assms(3)]] by (simp add: assms(5))
  show "compute_idx (sb_addr R k) (B j) c = Inr (of_nat j)" "B j \<in> sb_blocks R k c" if "j < cls_count c" for j
    using compute_idx_blk [OF assms(1-3) that] that by (simp_all add: assms(5) sb_blocks_def)
  show "pptr_get (link_blocks (\<lambda>_. 0) (sb_addr R k) (class_block c) (cls_count c - 1)) (B j) = B (Suc j)" if "Suc j < n" for j
    using link_blocks_spec [OF assms(1-3) class_words(1) [OF assms(3)], of "cls_count c - 1"] that assms(4) by (simp add: assms(5))
  have inj: "B i = B j \<Longrightarrow> i = j" if "i < cls_count c" "j < cls_count c" for i j
    using blk_inj(2) [OF assms(1,2) that(1) assms(2) that(2)] by (simp add: assms(5))
  then show "distinct (map B [0..<n])" using assms(4) by (auto simp: distinct_map inj_on_def)
  show "B n \<notin> set (map B [0..<n])"
  proof
    assume "B n \<in> set (map B [0..<n])"
    then obtain j where "j < n" "B n = B j" by auto
    then show False using inj [of n j] assms(4) by simp
  qed
qed

text \<open>Thread 0 flushes the first \<open>n\<close> blocks and thread 1 begins a refill of \<open>b\<close>.\<close>

lemma race_begins:
  assumes "geom R" "k < nsb R" "c < NLIST" "n + 1 < cls_count c" "0 < b" "b < n" "B = blk R k c"
    "a0 = \<lparr>avail = ucast (class_max c), acount = 0, astate = SB_FULL\<rparr>" "a1 = flush_anchor a0 0 (of_nat n) (class_max c)"
    "m = link_blocks (\<lambda>_. 0) (sb_addr R k) (class_block c) (cls_count c - 1)"
  shows "\<exists>s. sys_steps (a_trans R k c ((=) (of_nat b))) (full_superblock R k c m) [Flushed 0 (map B [0..<n])] s \<and> as_anchor s = a1
    \<and> as_pc s = (\<lambda>_. Out)(1 := PartWalk (of_nat b) (B 0) (B 0) (B 0) 0 a1)
    \<and> as_mem s = pptr_set m (B (n - 1)) (block_at (sb_addr R k) (avail a0) (class_block c))
    \<and> as_own s = (\<lambda>t. if t = 0 then sb_blocks R k c - set (map B [0..<n]) else {})"
proof -
  let ?xs = "map B [0..<n]" and ?b = "of_nat b :: u32" and ?tr = "a_trans R k c ((=) (of_nat b))"
  have n: "n < cls_count c" using assms(4) by simp
  note b = race_blocks [OF assms(1-3) n assms(7), folded assms(10)] and a = race_anchors [OF assms(3-6,8,9) refl]
  have l: "last ?xs = B (n - 1)" "hd ?xs = B 0" using assms(6) by (simp_all add: last_map hd_map)
  let ?s0 = "full_superblock R k c m"
  define s1 where "s1 = flushed R k c 0 ?xs 0 ?s0"
  define s4 where "s4 = at_pc 1 (PartWalk ?b (B 0) (B 0) (B 0) 0 a1) (at_pc 0 Out s1)"
  have own: "as_own ?s0 = (\<lambda>t. if t = 0 then sb_blocks R k c else {})" by (auto simp: full_superblock_def one_owner_def fun_eq_iff)
  have fields: "as_anchor ?s0 = a0" "as_mem ?s0 = m" "as_pc ?s0 = (\<lambda>_. Out)" "\<not> as_listed ?s0" by (simp_all add: full_superblock_def assms(8))
  have s1: "as_anchor s1 = a1" "as_pc s1 = (\<lambda>_. Out)(0 := Publish)" "\<not> as_listed s1"
      "as_mem s1 = pptr_set m (B (n - 1)) (block_at (sb_addr R k) (avail a0) (class_block c))"
      "as_own s1 = (\<lambda>t. if t = 0 then sb_blocks R k c - set ?xs else {})"
  proof -
    have st: "astate a0 = SB_FULL" "astate a1 \<noteq> SB_EMPTY" using a(4) by (simp_all add: assms(8) sb_states)
    have "flush_anchor a0 0 (of_nat (length ?xs)) (class_max c) = a1" using assms(9) by simp
    then have s1: "s1 = at_pc 0 Publish (?s0\<lparr>as_anchor := a1, as_mem := pptr_set m (B (n - 1)) (block_at (sb_addr R k) (avail a0) (class_block c)),
        as_own := (as_own ?s0)(0 := as_own ?s0 0 - set ?xs)\<rparr>)"
      unfolding s1_def flushed_def Let_def fields l(1) using st by simp
    show "as_anchor s1 = a1" "as_pc s1 = (\<lambda>_. Out)(0 := Publish)" "\<not> as_listed s1"
      "as_mem s1 = pptr_set m (B (n - 1)) (block_at (sb_addr R k) (avail a0) (class_block c))"
      unfolding s1 using fields by simp_all
    show "as_own s1 = (\<lambda>t. if t = 0 then sb_blocks R k c - set ?xs else {})" unfolding s1 own by (rule ext) simp
  qed
  have r1: "sys_steps ?tr ?s0 [Flushed 0 ?xs] s1"
    unfolding s1_def
  proof (rule flush_alone)
    show "chain (as_mem ?s0) (hd ?xs) ?xs (pptr_get m (B (n - 1)))" using chain_links [of 0 n m B] b(3) assms(6) l(2) fields by simp
    show "compute_idx (sb_addr R k) (hd ?xs) c = Inr 0" using b(2) [of 0] assms(4) l(2) by simp
    show "set ?xs \<subseteq> as_own ?s0 0" using b(6) n own by auto
  qed (use b(4) assms(6) fields in simp_all)
  let ?s2 = "at_pc 0 Out (s1\<lparr>as_listed := True\<rparr>)"
  let ?s3 = "at_pc 1 (TakeLoad ?b) (?s2\<lparr>as_listed := False\<rparr>)"
  have "block_at (sb_addr R k) (avail a1) (class_block c) = B 0" using b(1) [of "avail a1"] a(2) n by simp
  then have s4: "a_step (sb_addr R k) c False 1 ?s3 = (None, s4)"
    using s1 a(4,10) by (simp add: a_step_def Let_def s4_def at_pc_def sb_states)
  have r4: "sys_steps ?tr s1 [] s4"
  proof (rule a_steps_silent [where t = 0])
    show "a_step (sb_addr R k) c False 0 s1 = (None, ?s2)" using s1(2) by (simp add: a_step_def)
    have "?tr ?s2 None ?s3" by (rule a_trans.take) (use s1(2) in simp_all)
    then show "sys_steps ?tr ?s2 [] s4" by (rule sys_steps_silent) (rule sys_steps_one, rule a_trans.step [OF s4])
  qed
  then have "sys_steps ?tr ?s0 [Flushed 0 ?xs] s4" using sys_steps_append [OF r1 r4] by simp
  then show ?thesis using s1 by (intro exI [of _ s4]) (simp add: s4_def fun_upd_idem)
qed

text \<open>Thread 0 flushes one block more to an anchor that is neither full nor, with it, empty.\<close>

lemma race_late_flush:
  assumes "x \<in> as_own s 0" "as_pc s 0 = Out" "as_anchor s = a1" "astate a1 \<noteq> SB_FULL" "block_at (sb_addr R k) (avail a1) (class_block c) = y"
    "compute_idx (sb_addr R k) x c = Inr i" "a2 = flush_anchor a1 i (of_nat 1) (class_max c)"
  shows "\<exists>s'. sys_steps (a_trans R k c batch) s [Flushed 0 [x]] s' \<and> as_anchor s' = a2 \<and> as_pc s' = as_pc s
    \<and> as_mem s' = pptr_set (as_mem s) x y \<and> as_own s' = (as_own s)(0 := as_own s 0 - {x})"
proof -
  have "flushed R k c 0 [x] i s = at_pc 0 Out (s\<lparr>as_anchor := a2, as_mem := pptr_set (as_mem s) x y, as_own := (as_own s)(0 := as_own s 0 - {x})\<rparr>)"
    unfolding flushed_def Let_def assms(3) using assms(4,5,7) by simp
  moreover have "sys_steps (a_trans R k c batch) s [Flushed 0 [x]] (flushed R k c 0 [x] i s)"
    by (rule flush_alone [where z = "pptr_get (as_mem s) x"]) (use assms in simp_all)
  ultimately show ?thesis using assms(2) by (intro exI [of _ "flushed R k c 0 [x] i s"]) (simp add: fun_upd_idem)
qed

text \<open>C25: The branch of the refill for fewer blocks than are free breaks the superblock.  A thread flushes \<open>n\<close>
  blocks; another refills with a batch of \<open>b < n\<close> and has read the anchor when the first flushes one
  more.  The exchange of the refill fails once, and its second attempt installs the chain it has
  walked with the new count: the late block is on no chain and with no thread, and the anchor counts
  one block more than its chain has, the address behind the last block.  The next refill
  hands this address out; in a class that fills its superblock it is the first block of the next one.\<close>

theorem partial_refill_loses_block:
  assumes "geom R" "k < nsb R" "c < NLIST" "n + 1 < cls_count c" "0 < b" "b < n"
  shows "\<exists>s. sys_run (a_start R k c (one_owner R k c)) (a_trans R k c ((=) (of_nat b))) s
      [Flushed 0 (map (blk R k c) [0..<n]), Flushed 0 [blk R k c n], Took 1 (map (blk R k c) [0..<b])]
    \<and> (\<forall>t. blk R k c n \<notin> as_own s t)
    \<and> (\<exists>e. blocks_from (as_mem s) (unat (acount (as_anchor s))) (block_at (sb_addr R k) (avail (as_anchor s)) (class_block c)) = map (blk R k c) [b..<n] @ [e]
        \<and> unat e = unat (sb_addr R k) + cls_count c * cls_size c)"
proof -
  define B where "B = blk R k c"
  define m where "m = link_blocks (\<lambda>_. 0) (sb_addr R k) (class_block c) (cls_count c - 1)"
  define a0 :: anchor where "a0 = \<lparr>avail = ucast (class_max c), acount = 0, astate = SB_FULL\<rparr>"
  define a1 where "a1 = flush_anchor a0 0 (of_nat n) (class_max c)"
  define a2 where "a2 = flush_anchor a1 (of_nat n) (of_nat 1) (class_max c)"
  define e where "e = block_at (sb_addr R k) (avail a0) (class_block c)"
  let ?xs = "map B [0..<n]" and ?b = "of_nat b :: u32" and ?tr = "a_trans R k c ((=) (of_nat b))"
  have n: "n < cls_count c" "0 < cls_count c" "b < cls_count c" using assms(4,6) by simp_all
  note a = race_anchors [OF assms(3-6) a0_def a1_def a2_def] and bl = race_blocks [OF assms(1-3) n(1) B_def, folded m_def]
  have e: "unat e = unat (sb_addr R k) + cls_count c * cls_size c" "canonical e"
    using unat_block_at [OF assms(1-3), of "avail a0"] a(1) by (simp_all add: e_def)
  have ub: "unat ?b = b" using assms(4,6) cls_count_bounds(2) [of c] by (simp add: unsigned_of_nat take_bit_nat_eq_self)
  obtain s4 where s4: "sys_steps ?tr (full_superblock R k c m) [Flushed 0 ?xs] s4" "as_anchor s4 = a1"
      "as_pc s4 = (\<lambda>_. Out)(1 := PartWalk ?b (B 0) (B 0) (B 0) 0 a1)" "as_mem s4 = pptr_set m (B (n - 1)) e"
      "as_own s4 = (\<lambda>t. if t = 0 then sb_blocks R k c - set ?xs else {})"
    using race_begins [OF assms B_def a0_def a1_def m_def] unfolding e_def by blast
  have nB: "B n \<in> as_own s4 0" using s4(5) bl(5,6) n(1) by simp
  have h: "block_at (sb_addr R k) (avail a1) (class_block c) = B 0" using bl(1) [of "avail a1"] a(2) n(2) by simp
  obtain s5 where r5: "sys_steps ?tr s4 [Flushed 0 [B n]] s5" and s5: "as_anchor s5 = a2" "as_pc s5 = as_pc s4"
      "as_mem s5 = pptr_set (pptr_set m (B (n - 1)) e) (B n) (B 0)" "as_own s5 = (as_own s4)(0 := as_own s4 0 - {B n})"
    using race_late_flush [OF nB _ s4(2) _ h bl(2) [OF n(1)] a2_def, of "(=) ?b"] s4(3,4) a(4) by (auto simp: sb_states)
  note mem = raced_memory [OF B_def assms(1,2,4,5,6) bl(3) e(2) refl, folded s5(3)]
  let ?s6 = "at_pc 1 (PartWalk ?b (B 0) (B (b - 1)) (B b) ?b a1) s5"
  have r6: "sys_steps ?tr s5 [] ?s6"
    using walk_alone [OF assms(1,2) n(1), of s5 0 b 1 "B 0" "B 0" a1] mem(1) s5(2) s4(3) assms(5,6) n(3) cls_count_bounds(2) [of c]
    by (simp add: B_def)
  let ?m3 = "pptr_set (as_mem s5) (B (b - 1)) 0"
  let ?a3 = "\<lparr>avail = ucast (of_nat b :: u32), acount = ucast ((ucast (acount a2) :: u32) - ?b), astate = SB_PARTIAL\<rparr> :: anchor"
  define s9 where "s9 = at_pc 1 Publish (gain_blocks 1 (map B [0..<b]) (?s6\<lparr>as_mem := ?m3, as_anchor := ?a3\<rparr>))"
  have r9: "sys_steps ?tr ?s6 [Took 1 (map B [0..<b])] s9"
    unfolding s9_def
    by (rule part_refill_alone [where h = "B 0" and bb = ?b and prev = "B (b - 1)" and cur = "B b" and old = a1])
      (use bl(2) n(3) a(11) s5(1) mem(2) ub in simp_all)
  have "sys_run (a_start R k c (one_owner R k c)) ?tr s9 ([] @ [Flushed 0 ?xs] @ [Flushed 0 [B n]] @ [] @ [Took 1 (map B [0..<b])])"
    by (rule sys_run_steps [OF _ full_superblock_run [OF assms(1-3)]], intro sys_steps_append) (rule s4(1) r5 r6 r9)+
  then have "sys_run (a_start R k c (one_owner R k c)) ?tr s9 [Flushed 0 ?xs, Flushed 0 [B n], Took 1 (map B [0..<b])]" by simp
  moreover have "\<forall>t. B n \<notin> as_own s9 t" using s4(5) s5(4) bl(5) assms(6) by (auto simp: s9_def gain_blocks_def)
  moreover have "blocks_from (as_mem s9) (unat (acount (as_anchor s9))) (block_at (sb_addr R k) (avail (as_anchor s9)) (class_block c)) = map B [b..<n] @ [e]"
    using mem(3) a(8,9) bl(1) [of "avail ?a3"] n(3) by (simp add: s9_def gain_blocks_def)
  ultimately show ?thesis using e(1) unfolding B_def by blast
qed

text \<open>The smallest class with the batch of its cache: 2048 of 8192 blocks.\<close>

theorem partial_refill_loses_block_witness:
  "\<exists>s. sys_run (a_start (w_rgs sample_heap) 1 0 (one_owner (w_rgs sample_heap) 1 0)) (a_trans (w_rgs sample_heap) 1 0 ((=) (of_nat 2048))) s
      [Flushed 0 (map (blk (w_rgs sample_heap) 1 0) [0..<3000]), Flushed 0 [blk (w_rgs sample_heap) 1 0 3000], Took 1 (map (blk (w_rgs sample_heap) 1 0) [0..<2048])]
    \<and> (\<forall>t. blk (w_rgs sample_heap) 1 0 3000 \<notin> as_own s t)
    \<and> (\<exists>e. blocks_from (as_mem s) (unat (acount (as_anchor s))) (block_at (sb_addr (w_rgs sample_heap) 1) (avail (as_anchor s)) (class_block 0))
          = map (blk (w_rgs sample_heap) 1 0) [2048..<3000] @ [e]
        \<and> unat e = unat (sb_addr (w_rgs sample_heap) 1) + cls_count 0 * cls_size 0)"
proof -
  have "cls_count 0 = 8192" by (simp add: cls_count_def cls_size_def class_bytes_def NLIST_def)
  then have n: "0 < NLIST" "3000 + 1 < cls_count 0" "0 < (2048 :: nat)" "(2048 :: nat) < 3000" by (simp_all add: NLIST_def)
  show ?thesis by (rule partial_refill_loses_block [OF sample_layout(1,2) n])
qed

end
