(* ===== verification/Bx_Cptr.thy ===== *)
theory Bx_Cptr
  imports Bx_Region
begin

unbundle bit_operations_syntax

text \<open>
  The concurrency primitives (\<open>src/src/concurrentprimitives.hpp\<close>): padding wrappers and counted
  pointers.  A counted pointer is the 64-bit word \<open>ui\<close>; an operation that changes it returns the
  new word.  An object is as large as its members, rounded up to its alignment.
\<close>

section \<open>Padding\<close>

text \<open>The size of \<open>padded<T>\<close> and \<open>paddedAtomic<T>\<close> for a \<open>T\<close> of \<open>n\<close> bytes.\<close>

definition padded_size :: "nat \<Rightarrow> nat" where
  "padded_size n = n + (if n mod 64 \<noteq> 0 then 64 - n mod 64 else 64)"

definition volatile_padded_size :: "nat \<Rightarrow> nat" where
  "volatile_padded_size n = (let members = n + (if 64 > n then 64 - n else 1) in (members + 63) div 64 * 64)"

section \<open>Counted pointers\<close>

definition cptr_local_init :: "u64 \<Rightarrow> u32 \<Rightarrow> u64" where
  "cptr_local_init p sn =
     (let a = (ucast (ucast p :: u32) :: u64);
          a = push_bit 32 a
      in a + ucast sn)"

definition cptr_local_ptr :: "u64 \<Rightarrow> u64" where
  "cptr_local_ptr ui = drop_bit 32 (ui AND 0xffffffff00000000)"

definition cptr_local_sn :: "u64 \<Rightarrow> u32" where
  "cptr_local_sn ui = ucast (ui AND 0x00000000ffffffff)"

definition cptr_local_storeNull :: u64 where
  "cptr_local_storeNull = 0"

definition cptr_init :: "u64 \<Rightarrow> u32 \<Rightarrow> u64" where
  "cptr_init p sn =
     (let a = (ucast (ucast p :: u32) :: u64);
          a = push_bit 32 a
      in a + ucast sn)"

definition cptr_ptr :: "u64 \<Rightarrow> u64" where
  "cptr_ptr ui = drop_bit 32 (ui AND 0xffffffff00000000)"

definition cptr_sn :: "u64 \<Rightarrow> u32" where
  "cptr_sn ui = ucast (ui AND 0x00000000ffffffff)"

text \<open>
  \<open>compare_exchange_strong\<close> on \<open>ui\<close>, and the overloads of \<open>CAS\<close>: the new value as a pointer, as a
  counted pointer, and with its sequence number.  The overloads that take the old value as \<open>cptr\<close>
  read it once more and are the same functions of its word.
\<close>

definition word_cas :: "u64 \<Rightarrow> u64 \<Rightarrow> u64 \<Rightarrow> bool \<times> u64" where
  "word_cas ui old new = (if ui = old then (True, new) else (False, ui))"

definition CAS_ptr :: "u64 \<Rightarrow> u64 \<Rightarrow> u64 \<Rightarrow> bool \<times> u64" where
  "CAS_ptr ui oldval newval =
     (let replacement = cptr_local_init newval (cptr_local_sn oldval + 1) in word_cas ui oldval replacement)"

definition CAS_local :: "u64 \<Rightarrow> u64 \<Rightarrow> u64 \<Rightarrow> bool \<times> u64" where
  "CAS_local ui oldval newval =
     (let replacement = cptr_local_init (cptr_local_ptr newval) (cptr_local_sn oldval + 1) in word_cas ui oldval replacement)"

definition CAS_sn :: "u64 \<Rightarrow> u64 \<Rightarrow> u64 \<Rightarrow> u32 \<Rightarrow> bool \<times> u64" where
  "CAS_sn ui oldval newval newSn =
     (let replacement = cptr_local_init newval newSn in word_cas ui oldval replacement)"

definition cptr_storeNull :: u64 where
  "cptr_storeNull = cptr_init 0 0"

text \<open>
  \<open>storePtr\<close>: \<open>others\<close> lists what the other threads have made of the word when the exchange of the
  first, second, \<open>\<dots>\<close> round runs; after that they leave it alone.
\<close>

fun storePtr :: "u64 list \<Rightarrow> u64 \<Rightarrow> u64 \<Rightarrow> u64" where
  "storePtr [] ui newval = snd (CAS_ptr ui ui newval)"
| "storePtr (x # others) ui newval =
     (case CAS_ptr x ui newval of (ok, ui') \<Rightarrow> if ok then ui' else storePtr others ui' newval)"

section \<open>Lemmas\<close>

lemma cptr_word_bits: "bit (cptr_local_init p sn) n \<longleftrightarrow> (if n < 32 then bit sn n else n < 64 \<and> bit p (n - 32))"
proof -
  have "push_bit 32 (ucast (ucast p :: u32) :: u64) AND ucast sn = 0"
    by (rule bit_word_eqI) (auto simp: bit_simps dest: bit_imp_le_length)
  then have "cptr_local_init p sn = push_bit 32 (ucast (ucast p :: u32)) OR ucast sn"
    by (simp add: cptr_local_init_def disjunctive_add_eq_or)
  then show ?thesis by (auto simp: bit_simps dest: bit_imp_le_length)
qed

lemma cptr_parts:
  "cptr_local_ptr (cptr_local_init p sn) = ucast (ucast p :: u32)" "cptr_local_sn (cptr_local_init p sn) = sn"
proof -
  have m: "(0xffffffff00000000 :: u64) = push_bit 32 (mask 32)" "(0xffffffff :: u64) = mask 32" by (simp_all add: mask_eq_exp_minus_1 push_bit_eq_mult)
  show "cptr_local_ptr (cptr_local_init p sn) = ucast (ucast p :: u32)"
    unfolding cptr_local_ptr_def m by (rule bit_word_eqI) (auto simp: bit_simps cptr_word_bits)
  show "cptr_local_sn (cptr_local_init p sn) = sn"
    unfolding cptr_local_sn_def m by (rule bit_word_eqI) (auto simp: bit_simps cptr_word_bits)
qed

lemma unat_low: "unat (ucast (ucast (p :: u64) :: u32) :: u64) = unat p mod 2 ^ 32"
  by (simp add: unsigned_ucast_eq unat_mod take_bit_eq_mod)

lemma low_pointer: "unat (p :: u64) < 2 ^ 32 \<Longrightarrow> ucast (ucast p :: u32) = p"
  unfolding word_unat_eq_iff unat_low by simp

lemma cptr_same: "cptr_init = cptr_local_init" "cptr_ptr = cptr_local_ptr" "cptr_sn = cptr_local_sn"
  by (simp_all add: fun_eq_iff cptr_init_def cptr_local_init_def cptr_ptr_def cptr_local_ptr_def cptr_sn_def cptr_local_sn_def)

section \<open>Properties\<close>

text \<open>C39: Counted pointers on addresses below \<open>2^32\<close>: the word of a pointer and a sequence number gives
  both back; \<open>CAS\<close> succeeds exactly when the word is the expected one, and then the pointer is the
  new one and the sequence number has advanced by one modulo \<open>2^32\<close>; \<open>storePtr\<close> ends with the new
  pointer in the word, whatever the other threads do in the meantime.\<close>

theorem cptr_counted:
  assumes "unat p < 2 ^ 32"
  shows "cptr_ptr (cptr_init p sn) = p \<and> cptr_sn (cptr_init p sn) = sn
    \<and> (case CAS_ptr ui old p of (ok, ui') \<Rightarrow> ok = (ui = old)
         \<and> (if ok then cptr_ptr ui' = p \<and> cptr_sn ui' = cptr_sn old + 1 else ui' = ui))
    \<and> cptr_ptr (storePtr others ui p) = p"
proof -
  have "cptr_local_ptr (storePtr others ui p) = p"
    using assms by (induction others arbitrary: ui) (auto simp: CAS_ptr_def word_cas_def Let_def cptr_parts low_pointer)
  then show ?thesis using assms by (simp add: cptr_same CAS_ptr_def word_cas_def Let_def cptr_parts low_pointer)
qed

theorem cptr_counted_witness:
  "cptr_ptr (storePtr [7, 9] (cptr_init 0x1000 5) 0x2000) = 0x2000 \<and> cptr_sn (cptr_init 0x1000 5) = 5"
  using cptr_counted [of "0x2000" 5 "cptr_init 0x1000 5" 0 "[7, 9]"] cptr_counted [of "0x1000" 5 0 0 "[]"] by simp

text \<open>A counted pointer keeps only the low half of an address: the pointer read back is the address
  modulo \<open>2^32\<close>, so an address from \<open>2^32\<close> on is never read back as it was stored.\<close>

lemma cptr_truncates:
  "unat (cptr_ptr (cptr_init p sn)) = unat p mod 2 ^ 32 \<and> (2 ^ 32 \<le> unat p \<longrightarrow> cptr_ptr (cptr_init p sn) \<noteq> p)"
proof -
  have 1: "unat (cptr_ptr (cptr_init p sn)) = unat p mod 2 ^ 32"
    unfolding cptr_same cptr_parts by (rule unat_low)
  have "unat p mod 2 ^ 32 < 2 ^ 32" by simp
  then have "cptr_ptr (cptr_init p sn) \<noteq> p" if "2 ^ 32 \<le> unat p" using 1 that by (metis not_le)
  then show ?thesis using 1 by blast
qed

lemma cptr_truncates_witness:
  "cptr_ptr (cptr_init 0x7f0000001000 3) \<noteq> 0x7f0000001000"
  using cptr_truncates [of "0x7f0000001000" 3] by simp


end
