(* ===== verification/Spec2Isabelle.thy ===== *)
theory Spec2Isabelle
  imports Bx_Restart Bx_PartialList Bx_QueueConc Bx_AnchorConc Bx_Cptr
begin

text \<open>
  A verification development for bxalloc, a persistent-memory allocator in C++ (\<open>src/src\<close>).

  \<^bold>\<open>The program.\<close>  A heap is five files mapped into memory (\<open>RegionManager\<close>, \<open>Regions\<close>): superblock
  descriptors, superblocks of 64 KB, large blocks, a queue of free superblocks (\<open>LockFreeQueue\<close>) and
  the metadata (\<open>BaseMeta\<close>).  A request of up to 24 KB is rounded to one of 160 size classes
  (\<open>ClassSize\<close>) and served from the free list of its class in the thread's cache (\<open>FreeList\<close>,
  \<open>ThreadCache\<close>); an empty list is refilled from a partial superblock of the class or from a new
  one, a full one is flushed back.  A request of up to 64 KB takes a whole superblock, a larger one
  goes to a buddy allocator (\<open>BuddyAllocator\<close>).  Pointers in the files are offsets: relative to the
  place of the pointer (\<open>pptr\<close>, \<open>atomic_pptr\<close>) or to the start of a region (\<open>CrossPtr\<close>, and with a
  counter \<open>AtomicCrossPtrCnt\<close>).  A robust mutex tells a restart whether the last process crashed;
  then a conservative mark and sweep (\<open>GarbageCollection\<close>) rebuilds the metadata from the roots.
  \<open>bxalloc.cpp\<close> is the interface to the client.

  \<^bold>\<open>Conventions.\<close>  Integers keep their width (\<open>u64\<close>, \<open>u32\<close>, 31-bit fields of anchors); the \<open>int\<close>s of the
  buddy allocator are integers whose overflow is a fault.  A failed assertion, a null or wild
  dereference and every other undefined behaviour the code runs into is a value of \<open>fault\<close>;
  operations return \<open>fault + 'a\<close> and are composed with \<open>bindE\<close>.  The bytes of the superblocks are a
  function from addresses; descriptors and buddy headers are stores indexed by address.  The files
  that exist, the addresses at which the system maps them, the sizes of two classes and the content
  of uninitialised memory are arguments.

  \<^bold>\<open>The theories\<close>, in the order of their imports.
  \<^item> \<open>Bx_Prelude\<close>: words, faults, memory, shared lemmas.
  \<^item> \<open>Bx_Pptr\<close> (\<open>pptr.hpp\<close>): encoding of relative pointers; round trip for 48-bit addresses, independence
    of the mapping address, exchanges.
  \<^item> \<open>Bx_ClassSize\<close> (\<open>ClassSize.hpp\<close>): rounding, the two tables, agreement of \<open>RoundUp\<close>, \<open>Index\<close> and
    \<open>getsizefromindex\<close>, the bound on the waste.
  \<^item> \<open>Bx_FreeList\<close> (\<open>FreeList.hpp\<close>, \<open>ThreadCache.cpp\<close>): chains of blocks; the locale \<open>lifo\<close> and its
    interpretation on \<open>Push\<close> and \<open>Pop\<close>.
  \<^item> \<open>Bx_Region\<close> (\<open>RegionManager.hpp\<close>, \<open>RegionManager.cpp\<close>): regions, the bump allocator (locale \<open>bump\<close>),
    the table of regions, remapping.
  \<^item> \<open>Bx_Queue\<close> (\<open>LockFreeQueue.hpp\<close>): the array queue refines a bounded FIFO queue (locale \<open>fifo\<close>).
  \<^item> \<open>Bx_CrossPtr\<close>, \<open>Bx_BaseMeta\<close> (\<open>BaseMeta.hpp\<close>, \<open>BaseMeta.cpp\<close>): cross-region pointers, anchors, and
    every operation of the allocator core on the state \<open>world\<close> of one thread.
  \<^item> \<open>Bx_Geometry\<close>, \<open>Bx_Heap\<close>, \<open>Bx_Malloc\<close>, \<open>Bx_Flush\<close>, \<open>Bx_Alloc\<close>: the heap invariant \<open>heap_inv\<close> over a ghost
    state (which class owns a superblock, which blocks are on its chain, in a cache, with the
    client) and that every operation keeps it.
  \<^item> \<open>Bx_Client\<close>: the states a client can reach from the construction on (\<open>client\<close>); its blocks are
    disjoint, allocation and release always succeed or name their reason, and no byte of a held
    block changes.
  \<^item> \<open>Bx_GC\<close>, \<open>Bx_Sweep\<close>: marking ends and marks exactly the reachable blocks; the whole collection
    re-establishes \<open>heap_inv\<close> with exactly those blocks live; the two kinds of superblock for which
    the code fails.
  \<^item> \<open>Bx_Dirty\<close>: the dirty flag over the documented behaviour of robust mutexes (\<open>robust_mutex\<close>, a
    hypothesis on a parameter); a restart after a crash, and only that one, collects.
  \<^item> \<open>Bx_Buddy\<close>, \<open>Bx_Arena\<close>, \<open>Bx_BuddyOps\<close>, \<open>Bx_BuddyProps\<close> (\<open>BuddyAllocator.h\<close>, \<open>BuddyAllocator.cpp\<close>): the
    buddy allocator; the invariant (a tiling of the arena whose free blocks are exactly the lists);
    allocation, release, construction and recovery keep it, and the runs on which release breaks it.
  \<^item> \<open>Bx_Api\<close>, \<open>Bx_ApiRegions\<close>, \<open>Bx_ApiProps\<close> (\<open>bxalloc.cpp\<close>): the interface; initialisation establishes both
    invariants, requests and releases reach the right allocator, the blocks of the two are apart,
    reallocation keeps the content.
  \<^item> \<open>Bx_Restart\<close>: a heap across processes.  The regions always are what their files say (\<open>on_files\<close>), for
    every run of a client through the interface (\<open>api_run\<close>); the next process opens them again,
    after an orderly end with every block, after a crash with the reachable ones.
  \<^item> \<open>Bx_PartialList\<close>: the partial list under any interleaving of any number of threads is a
    linearizable stack; the operations of \<open>Bx_BaseMeta\<close> are its uninterrupted runs.
  \<^item> \<open>Bx_Simulation\<close>: runs of interleaved threads and the locale \<open>simulation\<close>, whose lemma makes a run of
    the specification out of a simulation relation.  \<open>Bx_QueueConc\<close> interprets it on the array queue:
    the atomic accesses of \<open>push\<close>, \<open>pop\<close> and \<open>finish_enqueue\<close> by any number of threads form a FIFO queue,
    as long as no thread is overtaken by a whole round of the ring (\<open>timely\<close>), and a run in which one is
    delivers a value twice.  \<open>Bx_AnchorConc\<close> interprets it on one superblock: threads that flush to it and
    refill from it share its blocks like a pool, when refills take all that is free; the other branch
    of the refill loses blocks.
  \<^item> \<open>Bx_Cptr\<close> (\<open>concurrentprimitives.hpp\<close>): padding and counted pointers.

  \<^bold>\<open>Bounds.\<close>  Loops that are bounded by data recurse on it.  The others have fuel, and their theorems
  show that it suffices: \<open>RETRY_FUEL\<close> (\<open>2^24\<close>) for the retries of a refill, each of which takes a
  descriptor off a list of at most \<open>2^24\<close>; the number of blocks of a cache for its flush; \<open>LIST_FUEL\<close>
  (\<open>2^64\<close>) for the lists of the buddy allocator, which cannot be longer than the address space unless
  they are cyclic; \<open>EXPAND_FUEL\<close> (\<open>2^18\<close>) for its expansions by a gigabyte in a 48-bit address space;
  one round per superblock for the sweep and the statistics.  Running out of fuel is the fault
  \<open>NoProgress\<close>, never a result.

  \<^bold>\<open>Not modelled.\<close>  Cache-line flushes and fences (\<open>pfence_util.h\<close>, inline assembly) have no effect on
  the state, so that persistence between flushes is out of scope; which lines the flush loops visit
  is modelled.  Concurrency is modelled for each shared object on its own: the partial lists, the
  queue of superblocks and the anchor of a superblock with its links.  Whole calls of \<open>do_malloc\<close> and
  \<open>do_free\<close> run without interference, apart from spurious failures of weak exchanges; memory is
  sequentially consistent.  A restart is modelled at the addresses of the first process.  Expansions of the buddy arena
  beyond its first gigabyte are modelled but no property claims that they keep the invariant, since
  they depend on the uninitialised \<open>max_block_size\<close>.  Deleting files (\<open>__destroy\<close>), filter functions
  other than the default one, the floating-point rates of \<open>BXP_output\<close> and console output are left
  out.
\<close>

end
